(* ===== verification/Prelude.thy ===== *)
theory Prelude
  imports Complex_Main "HOL-Library.Word" "HOL-Library.Multiset"
begin

unbundle bit_operations_syntax

text \<open>
  What every other theory shares: the machine types of Go, the ways a Go call can end, IEEE
  comparison of \<open>float64\<close> values, swapping two cells of a slice, and small facts on lists that the
  component proofs use.

  A Go function that may panic returns \<open>go_panic + 'a\<close> (\<open>Inl\<close> is the panic); one that returns a
  value and an \<open>error\<close> returns \<open>'e + 'a\<close>.
\<close>

named_theorems go_defs \<open>unfolding rules of small non-recursive model functions\<close>
named_theorems f64_simps \<open>IEEE comparisons in terms of the total order on float64\<close>

section \<open>Machine types\<close>

type_synonym byte = "8 word"
type_synonym u16 = "16 word"
type_synonym u32 = "32 word"
type_synonym u64 = "64 word"

type_synonym bytes = "byte list"

datatype go_panic =
    NilDereference
  | IndexOutOfRange
  | SliceOutOfRange
  | SendOnClosedChannel
  | CloseOfClosedChannel
  | ExplicitPanic string

type_synonym 'a go = "go_panic + 'a"

section \<open>float64 values and their comparison\<close>

text \<open>
  A \<open>float64\<close> is NaN, an infinity or a finite value, which denotes a real number (the two zeros
  denote the same one and compare equal). Comparisons are exact on these values; only arithmetic
  rounds. The instance of class \<open>linorder\<close> is the total order that puts NaN first; Go's \<open><\<close>
  and \<open>>\<close> are \<open>flt\<close> and \<open>fgt\<close>, which are false as soon as one side is NaN.
\<close>

datatype f64 = NaN | NegInf | Fin real | PosInf

instantiation f64 :: linorder
begin

fun less_eq_f64 :: "f64 \<Rightarrow> f64 \<Rightarrow> bool" where
  "less_eq_f64 NaN y = True"
| "less_eq_f64 NegInf y = (y \<noteq> NaN)"
| "less_eq_f64 (Fin a) (Fin b) = (a \<le> b)"
| "less_eq_f64 (Fin a) y = (y = PosInf)"
| "less_eq_f64 PosInf y = (y = PosInf)"

definition less_f64 :: "f64 \<Rightarrow> f64 \<Rightarrow> bool" where
  "less_f64 x y \<longleftrightarrow> x \<le> y \<and> \<not> y \<le> (x :: f64)"

instance
proof
  fix x y z :: f64
  show "(x < y) = (x \<le> y \<and> \<not> y \<le> x)" by (rule less_f64_def)
  show "x \<le> x" by (cases x) auto
  show "x \<le> y \<Longrightarrow> y \<le> z \<Longrightarrow> x \<le> z" by (cases x; cases y; cases z) auto
  show "x \<le> y \<Longrightarrow> y \<le> x \<Longrightarrow> x = y" by (cases x; cases y) auto
  show "x \<le> y \<or> y \<le> x" by (cases x; cases y) auto
qed

end

lemma less_f64_Fin [simp]: "Fin a < Fin b \<longleftrightarrow> a < b"
  by (auto simp: less_f64_def)

definition flt :: "f64 \<Rightarrow> f64 \<Rightarrow> bool" where
  "flt x y \<longleftrightarrow> x \<noteq> NaN \<and> y \<noteq> NaN \<and> x < y"

definition fgt :: "f64 \<Rightarrow> f64 \<Rightarrow> bool" where
  "fgt x y \<longleftrightarrow> flt y x"

lemma flt_ordered [f64_simps]: "x \<noteq> NaN \<Longrightarrow> y \<noteq> NaN \<Longrightarrow> flt x y \<longleftrightarrow> x < y"
  by (simp add: flt_def)

lemma fgt_ordered [f64_simps]: "x \<noteq> NaN \<Longrightarrow> y \<noteq> NaN \<Longrightarrow> fgt x y \<longleftrightarrow> y < x"
  by (simp add: fgt_def flt_def)

lemma flt_NaN [simp]: "\<not> flt NaN y" "\<not> flt x NaN"
  by (simp_all add: flt_def)

lemma fgt_NaN [simp]: "\<not> fgt NaN y" "\<not> fgt x NaN"
  by (simp_all add: fgt_def)

lemma flt_Fin [simp]: "flt (Fin a) (Fin b) \<longleftrightarrow> a < b"
  by (simp add: flt_def)

lemma fgt_Fin [simp]: "fgt (Fin a) (Fin b) \<longleftrightarrow> b < a"
  by (simp add: fgt_def)

section \<open>Slices\<close>

text \<open>Go's \<open>s[i], s[j] = s[j], s[i]\<close>.\<close>

definition swap_at :: "'a list \<Rightarrow> nat \<Rightarrow> nat \<Rightarrow> 'a list" where
  "swap_at xs i j = xs[i := xs ! j, j := xs ! i]"

lemma length_swap_at [simp]: "length (swap_at xs i j) = length xs"
  by (simp add: swap_at_def)

lemma mset_swap_at [simp]: "i < length xs \<Longrightarrow> j < length xs \<Longrightarrow> mset (swap_at xs i j) = mset xs"
  by (simp add: swap_at_def mset_swap)

lemma set_swap_at [simp]: "i < length xs \<Longrightarrow> j < length xs \<Longrightarrow> set (swap_at xs i j) = set xs"
  by (metis mset_swap_at set_mset_mset)

lemma nth_swap_at:
  "i < length xs \<Longrightarrow> j < length xs \<Longrightarrow>
   swap_at xs i j ! k = (if k = j then xs ! i else if k = i then xs ! j else xs ! k)"
  by (auto simp: swap_at_def nth_list_update)

lemma take_window_drop: "take k xs @ take m (drop k xs) @ drop (k + m) xs = xs"
  by (metis add.commute append_take_drop_id drop_drop)

lemma length_filter_update:
  "i < length xs \<Longrightarrow> int (length (filter P (xs[i := x]))) =
     int (length (filter P xs)) + (if P x then 1 else 0) - (if P (xs ! i) then 1 else 0)"
proof (induction xs arbitrary: i)
  case (Cons a xs)
  show ?case
  proof (cases i)
    case (Suc k)
    then have "k < length xs" using Cons.prems by simp
    then show ?thesis using Suc Cons.IH [of k] by auto
  qed simp
qed simp

lemma map_sum_Inr: "map_sum id f x = Inr y \<longleftrightarrow> (\<exists>z. x = Inr z \<and> y = f z)"
  by (cases x) auto

end
