(* ===== verification/Model.thy ===== *)
theory Model
  imports Prelude
begin

text \<open>
  The data of \<open>internal/model\<close>: documents, link tokens, crawl features, passages and positions,
  ranking records and the completion states of a scheduled task. A \<open>url.URL\<close> is the record of
  the fields the program reads.
\<close>

section \<open>Links and documents (document.go)\<close>

record go_url =
  Scheme :: string
  Hostname :: string
  Path :: string
  RawQuery :: string
  Fragment :: string

record Document =
  DocId :: bytes
  DocURL :: string
  TokenCount :: int

record CrawlFeatures =
  DomDepth :: int
  TagCount :: int
  UrlLen :: int
  UrlCount :: int
  PathLen :: int
  HostLen :: int

record LinkToken =
  Link :: go_url
  Priority :: f64
  Depth :: int
  SameDomain :: bool

datatype CompletionState = Done | Canceled | Error

record DocRanking =
  Tf_Idf :: real
  BM25 :: real
  LogLenWordInURL :: real
  TermProximity :: int
  HasWordInHeader :: bool

section \<open>Passages and positions (passage.go)\<close>

definition BodyType :: byte where
  "BodyType = 0x62"

definition HeaderType :: byte where
  "HeaderType = 0x68"

record Passage =
  PText :: string
  PType :: byte

record Position =
  I :: int
  Type :: byte

record WordCountAndPositions =
  Count :: int
  Positions :: "Position list"

text \<open>
  \<open>NewTypeTextObj\<close> is generic over its two result types; each instance panics on a type byte
  that is neither constant.
\<close>

definition NewPassage :: "byte \<Rightarrow> string \<Rightarrow> int \<Rightarrow> Passage go" where
  "NewPassage t txt i =
     (if t = BodyType \<or> t = HeaderType then Inr \<lparr>PText = txt, PType = t\<rparr>
      else Inl (ExplicitPanic ''unnamed passage type''))"

definition NewPosition :: "byte \<Rightarrow> string \<Rightarrow> int \<Rightarrow> Position go" where
  "NewPosition t txt i =
     (if t = BodyType \<or> t = HeaderType then Inr \<lparr>I = i, Type = t\<rparr>
      else Inl (ExplicitPanic ''unnamed passage type''))"

lemma NewPosition_ok [simp]:
  "NewPosition BodyType s i = Inr \<lparr>I = i, Type = BodyType\<rparr>"
  "NewPosition HeaderType s i = Inr \<lparr>I = i, Type = HeaderType\<rparr>"
  by (simp_all add: NewPosition_def)

lemma NewPassage_ok [simp]:
  "NewPassage BodyType s i = Inr \<lparr>PText = s, PType = BodyType\<rparr>"
  "NewPassage HeaderType s i = Inr \<lparr>PText = s, PType = HeaderType\<rparr>"
  by (simp_all add: NewPassage_def)

section \<open>Arithmetic of \<open>float64\<close>\<close>

text \<open>\<open>float64\<close> multiplication by a nonnegative finite factor, in general, and division of finite numbers.\<close>

definition scale :: "real \<Rightarrow> f64 \<Rightarrow> f64" where
  "scale c x = (case x of
     NaN \<Rightarrow> NaN | Fin a \<Rightarrow> Fin (c * a)
   | PosInf \<Rightarrow> (if c = 0 then NaN else PosInf) | NegInf \<Rightarrow> (if c = 0 then NaN else NegInf))"

definition fmul :: "f64 \<Rightarrow> f64 \<Rightarrow> f64" where
  "fmul x y = (case x of
     NaN \<Rightarrow> NaN
   | Fin a \<Rightarrow> (if a < 0 then (case y of NaN \<Rightarrow> NaN | Fin b \<Rightarrow> Fin (a * b) | PosInf \<Rightarrow> NegInf | NegInf \<Rightarrow> PosInf) else scale a y)
   | PosInf \<Rightarrow> (case y of NaN \<Rightarrow> NaN | Fin b \<Rightarrow> (if b = 0 then NaN else if b < 0 then NegInf else PosInf) | PosInf \<Rightarrow> PosInf | NegInf \<Rightarrow> NegInf)
   | NegInf \<Rightarrow> (case y of NaN \<Rightarrow> NaN | Fin b \<Rightarrow> (if b = 0 then NaN else if b < 0 then PosInf else NegInf) | PosInf \<Rightarrow> NegInf | NegInf \<Rightarrow> PosInf))"

definition fdiv :: "real \<Rightarrow> real \<Rightarrow> f64" where
  "fdiv a b = (if b = 0 then (if a = 0 then NaN else if a > 0 then PosInf else NegInf) else Fin (a / b))"

end
