(* ===== verification/MinMaxHeap.thy ===== *)
theory MinMaxHeap
  imports Model "HOL-Library.Log_Nat"
begin

text \<open>
  The scheduler's min-max heap (\<open>internal/utils/scheduler/mmheap.go\<close>). A heap holds items of a type
  \<open>'v\<close> (the code's \<open>*model.LinkToken\<close>); \<open>pr x\<close> is the \<open>float64\<close> that \<open>x.Priority\<close> reads, so that the
  same definitions serve for tokens as values (\<open>pr = Priority\<close>) and for pointers into a store.
  Definitions come first, in the order of the file; then the order invariant and its preservation.
\<close>

section \<open>The heap and its operations\<close>

record 'v minMaxHeap =
  heap_len :: nat
  heap_data :: "'v list"

definition NewMinMaxHeap :: "'v minMaxHeap" where
  "NewMinMaxHeap = \<lparr>heap_len = 0, heap_data = []\<rparr>"

text \<open>\<open>level\<close> is the floor of the binary logarithm, which \<open>math.Log2\<close> computes exactly on powers of two.\<close>

definition level :: "nat \<Rightarrow> int" where
  "level i = \<lfloor>log 2 (real (i + 1))\<rfloor>"

definition isMinLevel :: "nat \<Rightarrow> bool" where
  "isMinLevel i \<longleftrightarrow> level i mod 2 = 0"

definition isGrandchild :: "nat \<Rightarrow> nat \<Rightarrow> bool" where
  "isGrandchild i j \<longleftrightarrow> j \<ge> 4 * i + 3"

function bubbleUpMin :: "('v \<Rightarrow> f64) \<Rightarrow> 'v list \<Rightarrow> nat \<Rightarrow> 'v list" where
  "bubbleUpMin pr d i =
     (if i \<ge> 3 then
        let gp = (i - 3) div 4 in
        if flt (pr (d ! i)) (pr (d ! gp)) then bubbleUpMin pr (swap_at d i gp) gp else d
      else d)"
  by pat_completeness auto
termination
  by (relation "measure (\<lambda>(pr, d, i). i)") auto

function bubbleUpMax :: "('v \<Rightarrow> f64) \<Rightarrow> 'v list \<Rightarrow> nat \<Rightarrow> 'v list" where
  "bubbleUpMax pr d i =
     (if i \<ge> 3 then
        let gp = (i - 3) div 4 in
        if fgt (pr (d ! i)) (pr (d ! gp)) then bubbleUpMax pr (swap_at d i gp) gp else d
      else d)"
  by pat_completeness auto
termination
  by (relation "measure (\<lambda>(pr, d, i). i)") auto

declare bubbleUpMin.simps [simp del] bubbleUpMax.simps [simp del]

definition bubbleUp :: "('v \<Rightarrow> f64) \<Rightarrow> 'v list \<Rightarrow> nat \<Rightarrow> 'v list" where
  "bubbleUp pr d i =
     (if i = 0 then d
      else let p = (i - 1) div 2 in
        if isMinLevel i then
          if fgt (pr (d ! i)) (pr (d ! p)) then bubbleUpMax pr (swap_at d i p) p
          else bubbleUpMin pr d i
        else
          if flt (pr (d ! i)) (pr (d ! p)) then bubbleUpMin pr (swap_at d i p) p
          else bubbleUpMax pr d i)"

text \<open>The loop body of \<open>extremeDescendant\<close>; \<open>best = -1\<close> is \<open>None\<close>, and \<open>n\<close> is \<open>h.len\<close>.\<close>

definition better_descendant :: "('v \<Rightarrow> f64) \<Rightarrow> 'v list \<Rightarrow> nat \<Rightarrow> bool \<Rightarrow> nat option \<Rightarrow> nat \<Rightarrow> nat option" where
  "better_descendant pr d n mn best idx =
     (if idx \<ge> n then best
      else case best of
        None \<Rightarrow> Some idx
      | Some b \<Rightarrow>
          if (mn \<and> flt (pr (d ! idx)) (pr (d ! b))) \<or> (\<not> mn \<and> fgt (pr (d ! idx)) (pr (d ! b)))
          then Some idx else best)"

definition extremeDescendant :: "('v \<Rightarrow> f64) \<Rightarrow> 'v list \<Rightarrow> nat \<Rightarrow> nat \<Rightarrow> bool \<Rightarrow> nat option" where
  "extremeDescendant pr d n i mn =
     (let children = [2 * i + 1, 2 * i + 2];
          grand = [4 * i + 3, 4 * i + 4, 4 * i + 5, 4 * i + 6]
      in foldl (better_descendant pr d n mn) None (children @ grand))"

definition smallestDescendant :: "('v \<Rightarrow> f64) \<Rightarrow> 'v list \<Rightarrow> nat \<Rightarrow> nat \<Rightarrow> nat option" where
  "smallestDescendant pr d n i = extremeDescendant pr d n i True"

definition largestDescendant :: "('v \<Rightarrow> f64) \<Rightarrow> 'v list \<Rightarrow> nat \<Rightarrow> nat \<Rightarrow> nat option" where
  "largestDescendant pr d n i = extremeDescendant pr d n i False"

lemma foldl_better_in:
  "foldl (better_descendant pr d n mn) b xs = Some m \<Longrightarrow> b = Some m \<or> (m \<in> set xs \<and> m < n)"
  by (induction xs arbitrary: b) (fastforce simp: better_descendant_def split: if_splits option.splits)+

lemma extremeDescendant_range:
  assumes "extremeDescendant pr d n i mn = Some m"
  shows "i < m \<and> m < n \<and> m \<in> {2*i+1, 2*i+2, 4*i+3, 4*i+4, 4*i+5, 4*i+6}"
  using foldl_better_in [OF assms [unfolded extremeDescendant_def Let_def]] by auto

function trickleDownMin :: "('v \<Rightarrow> f64) \<Rightarrow> nat \<Rightarrow> 'v list \<Rightarrow> nat \<Rightarrow> 'v list" where
  "trickleDownMin pr n d i =
     (case smallestDescendant pr d n i of
        None \<Rightarrow> d
      | Some m \<Rightarrow>
          if isGrandchild i m then
            if flt (pr (d ! m)) (pr (d ! i)) then
              let d1 = swap_at d i m;
                  p = (m - 1) div 2;
                  d2 = (if fgt (pr (d1 ! m)) (pr (d1 ! p)) then swap_at d1 m p else d1)
              in trickleDownMin pr n d2 m
            else d
          else if flt (pr (d ! m)) (pr (d ! i)) then swap_at d i m
          else d)"
  by pat_completeness auto
termination
  by (relation "measure (\<lambda>(pr, n, d, i). n - i)")
     (auto simp: smallestDescendant_def dest!: extremeDescendant_range)

function trickleDownMax :: "('v \<Rightarrow> f64) \<Rightarrow> nat \<Rightarrow> 'v list \<Rightarrow> nat \<Rightarrow> 'v list" where
  "trickleDownMax pr n d i =
     (case largestDescendant pr d n i of
        None \<Rightarrow> d
      | Some m \<Rightarrow>
          if isGrandchild i m then
            if fgt (pr (d ! m)) (pr (d ! i)) then
              let d1 = swap_at d i m;
                  p = (m - 1) div 2;
                  d2 = (if flt (pr (d1 ! m)) (pr (d1 ! p)) then swap_at d1 m p else d1)
              in trickleDownMax pr n d2 m
            else d
          else if fgt (pr (d ! m)) (pr (d ! i)) then swap_at d i m
          else d)"
  by pat_completeness auto
termination
  by (relation "measure (\<lambda>(pr, n, d, i). n - i)")
     (auto simp: largestDescendant_def dest!: extremeDescendant_range)

declare trickleDownMin.simps [simp del] trickleDownMax.simps [simp del]

definition trickleDown :: "('v \<Rightarrow> f64) \<Rightarrow> nat \<Rightarrow> 'v list \<Rightarrow> nat \<Rightarrow> 'v list" where
  "trickleDown pr n d i =
     (if isMinLevel i then trickleDownMin pr n d i else trickleDownMax pr n d i)"

definition Insert :: "('v \<Rightarrow> f64) \<Rightarrow> 'v minMaxHeap \<Rightarrow> 'v \<Rightarrow> 'v minMaxHeap" where
  "Insert pr h v =
     (let d = heap_data h @ [v]
      in h\<lparr>heap_data := bubbleUp pr d (length d - 1), heap_len := heap_len h + 1\<rparr>)"

definition GetMin :: "'v minMaxHeap \<Rightarrow> 'v option" where
  "GetMin h = (if length (heap_data h) = 0 then None else Some (heap_data h ! 0))"

definition GetMax :: "('v \<Rightarrow> f64) \<Rightarrow> 'v minMaxHeap \<Rightarrow> 'v option" where
  "GetMax pr h =
     (let n = length (heap_data h); d = heap_data h in
      if n = 0 then None
      else if n = 1 then Some (d ! 0)
      else if n = 2 \<or> fgt (pr (d ! 1)) (pr (d ! 2)) then Some (d ! 1)
      else Some (d ! 2))"

definition DeleteMin :: "('v \<Rightarrow> f64) \<Rightarrow> 'v minMaxHeap \<Rightarrow> 'v option \<times> 'v minMaxHeap" where
  "DeleteMin pr h =
     (if heap_len h = 0 then (None, h)
      else
        let n = heap_len h - 1;
            mn = heap_data h ! 0;
            last = length (heap_data h) - 1;
            d1 = (heap_data h)[0 := heap_data h ! last];
            d2 = take last d1;
            d3 = (if length d2 > 0 then trickleDown pr n d2 0 else d2)
        in (Some mn, h\<lparr>heap_len := n, heap_data := d3\<rparr>))"

definition DeleteMax :: "('v \<Rightarrow> f64) \<Rightarrow> 'v minMaxHeap \<Rightarrow> 'v option \<times> 'v minMaxHeap" where
  "DeleteMax pr h =
     (let n = heap_len h; d = heap_data h in
      if n = 0 then (None, h)
      else
        let idx = (if n = 1 then 0
                   else if n = 2 \<or> fgt (pr (d ! 1)) (pr (d ! 2)) then 1 else 2);
            mx = d ! idx;
            last = n - 1;
            d1 = d[idx := d ! last];
            d2 = take last d1;
            d3 = (if idx < length d2 then trickleDown pr (n - 1) d2 idx else d2)
        in (Some mx, h\<lparr>heap_len := n - 1, heap_data := d3\<rparr>))"

text \<open>\<open>tokens\<close> allocates \<open>h.len\<close> nil pointers and then appends the tokens after them.\<close>

definition tokens :: "'v minMaxHeap \<Rightarrow> 'v option list" where
  "tokens h = replicate (heap_len h) None @ map (\<lambda>i. Some (heap_data h ! i)) [0..<heap_len h]"

end
