(* ===== verification/MinMaxOrder.thy ===== *)
theory MinMaxOrder
  imports MinMaxHeap
begin

text \<open>
  The order of a min-max heap on its implicit tree, stated on the priority \<open>K k\<close> of each index:
  every index is below its descendants when it is on a min level and above them when it is on a max
  level. One lemma per way the code moves an element: up to a parent or grandparent, down to a child
  or grandchild. The two directions are one lemma each, with the level's parity as parameter.
\<close>

section \<open>The implicit tree\<close>

fun anc :: "nat \<Rightarrow> nat \<Rightarrow> bool" where
  "anc i j = (if j = 0 then False else (j - 1) div 2 = i \<or> anc i ((j - 1) div 2))"

declare anc.simps [simp del]

lemma anc_0 [simp]: "\<not> anc i 0"
  by (subst anc.simps) simp

lemma anc_less: "anc i j \<Longrightarrow> i < j"
proof (induction i j rule: anc.induct)
  case (1 i j)
  from "1.prems" have "j \<noteq> 0" and "(j - 1) div 2 = i \<or> anc i ((j - 1) div 2)"
    by (auto simp: anc.simps [of i j] split: if_splits)
  with "1.IH" show ?case by fastforce
qed

lemma anc_parent [intro]: "j \<noteq> 0 \<Longrightarrow> anc ((j - 1) div 2) j"
  by (subst anc.simps) simp

lemma anc_via_parent: "anc k j \<longleftrightarrow> j \<noteq> 0 \<and> (k = (j - 1) div 2 \<or> anc k ((j - 1) div 2))"
  by (subst anc.simps) auto

lemma anc_trans: "anc i j \<Longrightarrow> anc j k \<Longrightarrow> anc i k"
proof (induction j k rule: anc.induct)
  case (1 j k)
  then show ?case by (metis anc_via_parent)
qed

lemma anc_irrefl [simp]: "\<not> anc i i"
  using anc_less by blast

lemma level_parent: "j \<noteq> 0 \<Longrightarrow> level j = level ((j - 1) div 2) + 1"
proof -
  assume "j \<noteq> 0"
  then have "(j + 1) div 2 = (j - 1) div 2 + 1" by simp
  with \<open>j \<noteq> 0\<close> floor_log2_div2 [of "j + 1"] show ?thesis
    by (simp add: level_def)
qed

lemma isMinLevel_0 [simp]: "isMinLevel 0"
  by (simp add: isMinLevel_def level_def)

lemma isMinLevel_parent: "j \<noteq> 0 \<Longrightarrow> isMinLevel j \<longleftrightarrow> \<not> isMinLevel ((j - 1) div 2)"
  unfolding isMinLevel_def using level_parent [of j] by presburger

lemma isMinLevel_code: "isMinLevel j \<longleftrightarrow> (if j = 0 then True else \<not> isMinLevel ((j - 1) div 2))"
  using isMinLevel_parent by simp

section \<open>The order\<close>

definition le_dir :: "bool \<Rightarrow> 'k::linorder \<Rightarrow> 'k \<Rightarrow> bool" where
  "le_dir s x y \<longleftrightarrow> (if s then x \<le> y else y \<le> x)"

definition lt_dir :: "bool \<Rightarrow> 'k::linorder \<Rightarrow> 'k \<Rightarrow> bool" where
  "lt_dir s x y \<longleftrightarrow> (if s then x < y else y < x)"

lemma le_dir_refl [simp]: "le_dir s x x"
  by (simp add: le_dir_def)

lemma le_dir_trans: "le_dir s x y \<Longrightarrow> le_dir s y z \<Longrightarrow> le_dir s x z"
  by (auto simp: le_dir_def split: if_splits)

lemma le_dir_Not: "le_dir (\<not> s) x y \<longleftrightarrow> le_dir s y x"
  by (simp add: le_dir_def)

lemma lt_imp_le_dir: "lt_dir s x y \<Longrightarrow> le_dir s x y"
  by (auto simp: le_dir_def lt_dir_def split: if_splits)

lemma not_lt_dir: "\<not> lt_dir s x y \<longleftrightarrow> le_dir s y x"
  by (auto simp: le_dir_def lt_dir_def)

definition pair_ok :: "(nat \<Rightarrow> 'k::linorder) \<Rightarrow> nat \<Rightarrow> nat \<Rightarrow> bool" where
  "pair_ok K k j \<longleftrightarrow> le_dir (isMinLevel k) (K k) (K j)"

definition mm_except :: "(nat \<Rightarrow> nat \<Rightarrow> bool) \<Rightarrow> (nat \<Rightarrow> 'k::linorder) \<Rightarrow> nat \<Rightarrow> bool" where
  "mm_except E K n \<longleftrightarrow> (\<forall>k j. anc k j \<longrightarrow> j < n \<longrightarrow> \<not> E k j \<longrightarrow> pair_ok K k j)"

abbreviation mm_ordered :: "(nat \<Rightarrow> 'k::linorder) \<Rightarrow> nat \<Rightarrow> bool" where
  "mm_ordered \<equiv> mm_except (\<lambda>_ _. False)"

lemma mm_exceptD: "mm_except E K n \<Longrightarrow> anc k j \<Longrightarrow> j < n \<Longrightarrow> \<not> E k j \<Longrightarrow> le_dir (isMinLevel k) (K k) (K j)"
  by (auto simp: mm_except_def pair_ok_def)

lemma mm_exceptI:
  "(\<And>k j. anc k j \<Longrightarrow> j < n \<Longrightarrow> \<not> E k j \<Longrightarrow> le_dir (isMinLevel k) (K k) (K j)) \<Longrightarrow> mm_except E K n"
  by (auto simp: mm_except_def pair_ok_def)

section \<open>Moving down\<close>

text \<open>\<open>m\<close> is an extreme index among the children and grandchildren of \<open>i\<close>.\<close>

definition extreme_below :: "bool \<Rightarrow> (nat \<Rightarrow> 'k::linorder) \<Rightarrow> nat \<Rightarrow> nat \<Rightarrow> nat \<Rightarrow> bool" where
  "extreme_below s K n i m \<longleftrightarrow>
     (\<forall>x < n. x \<noteq> 0 \<and> ((x - 1) div 2 = i \<or> ((x - 1) div 2 \<noteq> 0 \<and> ((x - 1) div 2 - 1) div 2 = i))
        \<longrightarrow> le_dir s (K m) (K x))"

lemma extreme_below_all:
  assumes exc: "mm_except (\<lambda>k j. k = i) K n" and ext: "extreme_below (isMinLevel i) K n i m"
  shows "anc i j \<Longrightarrow> j < n \<Longrightarrow> le_dir (isMinLevel i) (K m) (K j)"
proof (induction j rule: less_induct)
  case (less j)
  let ?p = "(j - 1) div 2" and ?g = "((j - 1) div 2 - 1) div 2"
  from less.prems have j: "j \<noteq> 0" by (metis anc_0)
  consider "?p = i" | "?p \<noteq> 0" "?g = i" | "?p \<noteq> 0" "anc i ?g"
    using less.prems(1) anc_via_parent [of i j] anc_via_parent [of i ?p] by auto
  then show ?case
  proof cases
    case 3
    have p: "anc i ?p" "?p < j" "?p \<noteq> i" "anc ?p j" and g: "?g < j" "?g \<noteq> i" "anc ?g j"
      using 3 j less.prems(1) anc_less [of i ?g] anc_trans [of i ?g ?p]
        anc_trans [of ?g ?p j] anc_parent [of ?p] anc_parent [of j] by auto
    obtain q where q: "anc i q" "q < j" "q \<noteq> i" "anc q j" "isMinLevel q = isMinLevel i"
    proof (cases "isMinLevel ?p = isMinLevel i")
      case True
      with p show ?thesis by (intro that [of ?p])
    next
      case False
      with isMinLevel_parent [OF 3(1)] have "isMinLevel ?g = isMinLevel i" by auto
      with g 3 show ?thesis by (intro that [of ?g])
    qed
    have "le_dir (isMinLevel i) (K m) (K q)" using less q by auto
    moreover have "le_dir (isMinLevel i) (K q) (K j)"
      using mm_exceptD [OF exc q(4) less.prems(2)] q by auto
    ultimately show ?thesis by (rule le_dir_trans)
  qed (use ext less.prems j in \<open>auto simp: extreme_below_def\<close>)
qed

lemma no_descendants_ordered:
  assumes "mm_except (\<lambda>k j. k = i) K n" and "n \<le> 2 * i + 1"
  shows "mm_ordered K n"
proof (rule mm_exceptI)
  fix k j assume kj: "anc k j" "j < n"
  have "\<not> anc i j" if "j < n" for j
    using that
  proof (induction j rule: less_induct)
    case (less j)
    with assms(2) anc_less [of i "(j - 1) div 2"] show ?case
      using anc_via_parent [of i j] less.IH [of "(j - 1) div 2"] by fastforce
  qed
  with kj assms(1) show "le_dir (isMinLevel k) (K k) (K j)"
    by (auto dest: mm_exceptD)
qed

lemma extreme_keep_ordered:
  assumes exc: "mm_except (\<lambda>k j. k = i) K n" and ext: "extreme_below (isMinLevel i) K n i m"
    and le: "le_dir (isMinLevel i) (K i) (K m)"
  shows "mm_ordered K n"
proof (rule mm_exceptI)
  fix k j assume "anc k j" "j < n"
  then show "le_dir (isMinLevel k) (K k) (K j)"
    using exc extreme_below_all [OF exc ext] le_dir_trans [OF le]
    by (cases "k = i") (auto dest: mm_exceptD)
qed

lemma swap_child_ordered:
  assumes exc: "mm_except (\<lambda>k j. k = i) K n" and ext: "extreme_below (isMinLevel i) K n i m"
    and m: "m < n" "m \<noteq> 0" "(m - 1) div 2 = i" and lt: "lt_dir (isMinLevel i) (K m) (K i)"
  shows "mm_ordered (K(i := K m, m := K i)) n" (is "mm_ordered ?K n")
proof (rule mm_exceptI)
  fix k j assume kj: "anc k j" "j < n" and "\<not> False"
  have im: "anc i m" "i \<noteq> m" "isMinLevel m = (\<not> isMinLevel i)" "i < n"
    using m anc_parent [of m] isMinLevel_parent [of m] anc_less [of i m] by auto
  consider "k = i" | "k = m" | "k \<noteq> i" "k \<noteq> m" "j = i" | "k \<noteq> i" "k \<noteq> m" "j = m" | "k \<noteq> i" "k \<noteq> m" "j \<noteq> i" "j \<noteq> m"
    by blast
  then show "le_dir (isMinLevel k) (?K k) (?K j)"
  proof cases
    case 1
    with kj im show ?thesis
      using extreme_below_all [OF exc ext kj(1)[unfolded 1] kj(2)] lt_imp_le_dir [OF lt] by auto
  next
    case 2
    have "j \<noteq> i" "j \<noteq> m" using 2 kj anc_less [of m j] anc_less [OF im(1)] by auto
    moreover have "le_dir (isMinLevel m) (K m) (K j)" using mm_exceptD [OF exc kj] 2 im by auto
    ultimately show ?thesis using 2 im lt_imp_le_dir [OF lt] le_dir_trans [of "isMinLevel i" "K j" "K m" "K i"]
      by (auto simp: le_dir_Not)
  next
    case 3
    then show ?thesis using im mm_exceptD [OF exc anc_trans [of k i m] m(1)] kj by auto
  next
    case 4
    then have "anc k i" using kj m anc_via_parent [of k m] by auto
    then show ?thesis using 4 im mm_exceptD [OF exc, of k i] by auto
  next
    case 5
    then show ?thesis using mm_exceptD [OF exc kj] by auto
  qed
qed

text \<open>
  The grandchild case: \<open>i\<close> takes the extreme value of \<open>m\<close>, and the old value of \<open>i\<close> and that of
  the parent \<open>p\<close> of \<open>m\<close> are put at \<open>m\<close> and \<open>p\<close> in order. Only pairs that start at \<open>m\<close> can be
  wrong afterwards, which is where the loop goes on.
\<close>

lemma swap_grandchild_except:
  assumes exc: "mm_except (\<lambda>k j. k = i) K n" and ext: "extreme_below (isMinLevel i) K n i m"
    and m: "m < n" "m \<noteq> 0" "(m - 1) div 2 = p" "p \<noteq> 0" "(p - 1) div 2 = i"
    and lt: "lt_dir (isMinLevel i) (K m) (K i)"
    and K': "K' i = K m" "le_dir (isMinLevel i) (K' m) (K' p)"
      "K' m = K i \<and> K' p = K p \<or> K' m = K p \<and> K' p = K i"
      "\<And>x. x \<notin> {i, p, m} \<Longrightarrow> K' x = K x"
  shows "mm_except (\<lambda>k j. k = m) K' n"
proof (rule mm_exceptI)
  fix k j assume kj: "anc k j" "j < n" and km: "\<not> k = m"
  have anc: "anc i p" "anc p m" "anc i m" using m anc_parent [of m] anc_parent [of p] anc_trans by auto
  then have lts: "i < p" "p < m" "i < n" "p < n" using m(1) anc_less [of i p] anc_less [of p m] by auto
  have lev: "isMinLevel p = (\<not> isMinLevel i)" using m isMinLevel_parent [of p] by auto
  have Kp: "le_dir (isMinLevel i) (K p) (K' p)"
    using K'(2,3) by auto
  show "le_dir (isMinLevel k) (K' k) (K' j)"
  proof (cases "k = i")
    case True
    have all: "le_dir (isMinLevel i) (K m) (K x)" if "anc i x" "x < n" for x
      using extreme_below_all [OF exc ext that] .
    have "K' j = K j \<or> K' j = K i \<or> K' j = K p"
      using K'(3) K'(4) [of j] kj True anc_less [of i j] by (cases "j \<in> {i, p, m}") auto
    then show ?thesis using True K'(1) all [of j] all [of p] kj anc lts lt_imp_le_dir [OF lt] by auto
  next
    case ki: False
    show ?thesis
    proof (cases "k = p")
      case True
      then have "j \<noteq> i" "j \<noteq> p" using kj anc_less [of p j] lts by auto
      moreover have "le_dir (isMinLevel i) (K j) (K p)"
        using mm_exceptD [OF exc kj] ki True lev by (simp add: le_dir_Not)
      ultimately show ?thesis using True lev K'(2) K'(4) [of j] le_dir_trans [OF _ Kp]
        by (cases "j = m") (auto simp: le_dir_Not)
    next
      case False
      have Kk: "K' k = K k" using ki False km K'(4) by auto
      have up: "anc k i" if "j \<in> {i, p, m}"
        using that kj(1) ki False m anc_via_parent [of k m] anc_via_parent [of k p] by auto
      then show ?thesis
        using Kk K'(1,3,4) mm_exceptD [OF exc kj] ki anc_trans [OF _ anc(1)] anc_trans [OF _ anc(3)]
          mm_exceptD [OF exc, of k i] mm_exceptD [OF exc, of k p] mm_exceptD [OF exc, of k m] lts m(1)
        by (cases "j \<in> {i, p, m}") auto
    qed
  qed
qed

section \<open>Moving up\<close>

text \<open>
  While an element climbs at index \<open>i\<close>, only pairs of an ancestor on \<open>i\<close>'s kind of level with \<open>i\<close>
  itself can be wrong.
\<close>

definition climbing :: "(nat \<Rightarrow> 'k::linorder) \<Rightarrow> nat \<Rightarrow> nat \<Rightarrow> bool" where
  "climbing K n i = mm_except (\<lambda>k j. j = i \<and> isMinLevel k = isMinLevel i) K n"

lemma isMinLevel_grandparent: "i \<ge> 3 \<Longrightarrow> isMinLevel ((i - 3) div 4) \<longleftrightarrow> isMinLevel i"
proof -
  assume i: "i \<ge> 3"
  then have "((i - 1) div 2 - 1) div 2 = (i - 3) div 4" "i \<noteq> 0" "(i - 1) div 2 \<noteq> 0" by auto
  then show ?thesis using isMinLevel_parent [of i] isMinLevel_parent [of "(i - 1) div 2"] by auto
qed

lemma grandparent_facts:
  assumes "i \<ge> 3"
  shows "anc ((i - 3) div 4) i" and "anc k i \<longleftrightarrow> k = (i - 1) div 2 \<or> k = (i - 3) div 4 \<or> anc k ((i - 3) div 4)"
    and "anc ((i - 3) div 4) ((i - 1) div 2)"
proof -
  have e: "((i - 1) div 2 - 1) div 2 = (i - 3) div 4" "i \<noteq> 0" "(i - 1) div 2 \<noteq> 0" using assms by auto
  show a: "anc k i \<longleftrightarrow> k = (i - 1) div 2 \<or> k = (i - 3) div 4 \<or> anc k ((i - 3) div 4)" for k
    using anc_via_parent [of k i] anc_via_parent [of k "(i - 1) div 2"] e by auto
  show "anc ((i - 3) div 4) i" using a by blast
  show "anc ((i - 3) div 4) ((i - 1) div 2)" using anc_parent [of "(i - 1) div 2"] e by simp
qed

lemma climb_small: "climbing K n i \<Longrightarrow> i < 3 \<Longrightarrow> mm_ordered K n"
proof (rule mm_exceptI)
  fix k j assume c: "climbing K n i" and i: "i < 3" and kj: "anc k j" "j < n"
  have "isMinLevel k \<noteq> isMinLevel i" if "j = i"
  proof -
    have "i = 1 \<or> i = 2" "k = 0" using that kj(1) i anc_less [of k j] anc_via_parent [of k i] by auto
    then show ?thesis using isMinLevel_parent [of i] by auto
  qed
  with c kj show "le_dir (isMinLevel k) (K k) (K j)"
    unfolding climbing_def by (auto dest: mm_exceptD)
qed

lemma climb_stop:
  assumes c: "climbing K n i" and i: "i \<ge> 3" "i < n" and le: "le_dir (isMinLevel i) (K ((i - 3) div 4)) (K i)"
  shows "mm_ordered K n"
proof (rule mm_exceptI)
  fix k j assume kj: "anc k j" "j < n" and "\<not> False"
  let ?g = "(i - 3) div 4"
  have g: "isMinLevel ?g = isMinLevel i" "anc ?g i" "?g < n" "?g \<noteq> i"
    using i isMinLevel_grandparent grandparent_facts(1) anc_less [of ?g i] by auto
  show "le_dir (isMinLevel k) (K k) (K j)"
  proof (cases "j = i \<and> isMinLevel k = isMinLevel i")
    case True
    then have "k \<noteq> (i - 1) div 2" using isMinLevel_parent [of i] i by auto
    then have "k = ?g \<or> anc k ?g" using True kj(1) grandparent_facts(2) [OF i(1), of k] by auto
    moreover have "le_dir (isMinLevel k) (K k) (K ?g)" if "anc k ?g"
      using mm_exceptD [OF c [unfolded climbing_def] that g(3)] g(4) by auto
    ultimately show ?thesis using True le le_dir_trans [of "isMinLevel k" "K k" "K ?g" "K i"] by auto
  next
    case False
    then show ?thesis using mm_exceptD [OF c [unfolded climbing_def] kj] by auto
  qed
qed

lemma climb_step:
  assumes c: "climbing K n i" and i: "i \<ge> 3" "i < n" and g: "g = (i - 3) div 4"
    and lt: "lt_dir (isMinLevel i) (K i) (K g)"
  shows "climbing (K(i := K g, g := K i)) n g" (is "climbing ?K n g")
  unfolding climbing_def
proof (rule mm_exceptI)
  fix k j assume kj: "anc k j" "j < n" and ex: "\<not> (j = g \<and> isMinLevel k = isMinLevel g)"
  have gf: "isMinLevel g = isMinLevel i" "anc g i" "g < n" "g < i"
    using i isMinLevel_grandparent grandparent_facts(1) anc_less [of g i] g by auto
  have D: "le_dir (isMinLevel a) (K a) (K b)"
    if "anc a b" "b < n" "b \<noteq> i \<or> isMinLevel a \<noteq> isMinLevel i" for a b
    using mm_exceptD [OF c [unfolded climbing_def] that(1,2)] that(3) by auto
  have le: "le_dir (isMinLevel i) (K i) (K g)" using lt by (rule lt_imp_le_dir)
  consider "j = i" "k = g" | "j = i" "k = (i - 1) div 2" | "j = i" "anc k g"
    | "j = g" | "k = i" "j \<noteq> g" | "k = g" "j \<noteq> i" | "k \<notin> {i, g}" "j \<notin> {i, g}"
    using kj(1) grandparent_facts(2) [OF i(1), of k] g by auto
  then show "le_dir (isMinLevel k) (?K k) (?K j)"
  proof cases
    case 1
    then show ?thesis using le gf by auto
  next
    case 2
    have "anc g k" "k < i" "isMinLevel k = (\<not> isMinLevel i)"
      using 2 grandparent_facts(3) [OF i(1)] g i isMinLevel_parent [of i] by auto
    then show ?thesis using 2 D [of g k] gf i anc_less [of g k] by (auto simp: le_dir_Not)
  next
    case 3
    then show ?thesis using D [of k g] gf anc_less [of k g] by auto
  next
    case 4
    then have "isMinLevel k \<noteq> isMinLevel i" using ex gf by auto
    then show ?thesis using 4 kj(1) gf D [OF anc_trans [of k g i] i(2)] anc_less [of k g] by auto
  next
    case 5
    have "anc g j" using 5 kj(1) gf anc_trans by blast
    then show ?thesis using 5 kj D [of g j] gf anc_less [of i j] by auto
  next
    case 6
    then show ?thesis using kj D [of g j] gf le_dir_trans [OF le, of "K j"] anc_less [of g j] by auto
  next
    case 7
    then show ?thesis using kj D [of k j] by auto
  qed
qed

text \<open>The first step of \<open>bubbleUp\<close>: a new last element, compared with its parent.\<close>

lemma bubble_keep:
  assumes exc: "mm_except (\<lambda>k j. j = i) K n" and i: "i < n" "i \<noteq> 0"
    and le: "le_dir (isMinLevel i) (K i) (K ((i - 1) div 2))"
  shows "climbing K n i"
  unfolding climbing_def
proof (rule mm_exceptI)
  fix k j assume kj: "anc k j" "j < n" and ex: "\<not> (j = i \<and> isMinLevel k = isMinLevel i)"
  let ?p = "(i - 1) div 2"
  show "le_dir (isMinLevel k) (K k) (K j)"
  proof (cases "j = i")
    case True
    then have k: "k = ?p \<or> anc k ?p" "isMinLevel k = (\<not> isMinLevel i)" using ex kj anc_via_parent [of k i] by auto
    have "le_dir (isMinLevel k) (K k) (K ?p)" if "anc k ?p"
      using mm_exceptD [OF exc that] i by auto
    then show ?thesis using True k le le_dir_trans [of "isMinLevel i" "K i" "K ?p" "K k"]
      by (auto simp: le_dir_Not)
  qed (use mm_exceptD [OF exc kj] in auto)
qed

lemma bubble_swap:
  assumes exc: "mm_except (\<lambda>k j. j = i) K n" and i: "i < n" "i \<noteq> 0" "n = Suc i" and p: "p = (i - 1) div 2"
    and lt: "lt_dir (isMinLevel i) (K p) (K i)"
  shows "climbing (K(i := K p, p := K i)) n p" (is "climbing ?K n p")
  unfolding climbing_def
proof (rule mm_exceptI)
  fix k j assume kj: "anc k j" "j < n" and ex: "\<not> (j = p \<and> isMinLevel k = isMinLevel p)"
  have pf: "anc p i" "p < i" "isMinLevel p = (\<not> isMinLevel i)" using i p isMinLevel_parent [of i] anc_parent [of i] by auto
  have D: "le_dir (isMinLevel a) (K a) (K b)" if "anc a b" "b < n" "b \<noteq> i" for a b
    using mm_exceptD [OF exc that(1,2)] that(3) by auto
  have le: "le_dir (isMinLevel i) (K p) (K i)" using lt by (rule lt_imp_le_dir)
  have "k \<noteq> i" using kj anc_less [of k j] i by auto
  consider "j = i" "k = p" | "j = i" "anc k p" | "j = p" | "k = p" "j \<noteq> i" | "k \<noteq> p" "j \<notin> {i, p}"
    using kj(1) anc_via_parent [of k i] p by auto
  then show "le_dir (isMinLevel k) (?K k) (?K j)"
  proof cases
    case 1
    then show ?thesis using le pf by (auto simp: le_dir_Not)
  next
    case 2
    then show ?thesis using D [of k p] pf i anc_less [of k p] by auto
  next
    case 3
    then have "isMinLevel k = isMinLevel i" using ex pf by auto
    then show ?thesis using 3 D [of k p] kj pf i anc_less [of k p] le_dir_trans [OF _ le, of "K k"] by auto
  next
    case 4
    then show ?thesis using D [of p j] kj pf anc_less [of p j] le_dir_trans [OF _ le, of "K j"]
      by (auto simp: le_dir_Not)
  next
    case 5
    then show ?thesis using D [of k j] kj \<open>k \<noteq> i\<close> by auto
  qed
qed

end
