(* ===== verification/MinMaxCorrect.thy ===== *)
theory MinMaxCorrect
  imports MinMaxOrder
begin

text \<open>
  The heap operations keep the min-max order, keep the multiset of items, and return extremal items.
  The invariant excludes NaN priorities, on which the code's comparisons are not an order. The end of
  the theory states the interface the worker pool relies on (a double-ended priority queue) as a
  locale and interprets it on these operations.
\<close>

section \<open>Priorities of the cells\<close>

definition prio :: "('v \<Rightarrow> f64) \<Rightarrow> 'v list \<Rightarrow> nat \<Rightarrow> f64" where
  "prio pr d k = pr (d ! k)"

definition no_nan :: "('v \<Rightarrow> f64) \<Rightarrow> 'v list \<Rightarrow> bool" where
  "no_nan pr d \<longleftrightarrow> (\<forall>x \<in> set d. pr x \<noteq> NaN)"

definition heap_inv :: "('v \<Rightarrow> f64) \<Rightarrow> 'v minMaxHeap \<Rightarrow> bool" where
  "heap_inv pr h \<longleftrightarrow>
     heap_len h = length (heap_data h) \<and> no_nan pr (heap_data h) \<and>
     mm_ordered (prio pr (heap_data h)) (length (heap_data h))"

lemma no_nan_nth: "no_nan pr d \<Longrightarrow> i < length d \<Longrightarrow> pr (d ! i) \<noteq> NaN"
  by (simp add: no_nan_def)

lemma no_nan_mset: "mset d' = mset d \<Longrightarrow> no_nan pr d' \<longleftrightarrow> no_nan pr d"
  unfolding no_nan_def by (metis set_mset_mset)

lemma no_nan_swap_at [simp]: "i < length d \<Longrightarrow> j < length d \<Longrightarrow> no_nan pr (swap_at d i j) = no_nan pr d"
  by (simp add: no_nan_def)

lemma prio_swap_at:
  "i < length d \<Longrightarrow> j < length d \<Longrightarrow>
   prio pr (swap_at d i j) = (prio pr d)(i := prio pr d j, j := prio pr d i)"
  by (auto simp: prio_def nth_swap_at fun_eq_iff)

lemma flt_prio: "no_nan pr d \<Longrightarrow> i < length d \<Longrightarrow> j < length d \<Longrightarrow>
    flt (pr (d ! i)) (pr (d ! j)) \<longleftrightarrow> prio pr d i < prio pr d j"
  by (simp add: prio_def flt_ordered no_nan_nth)

lemma fgt_prio: "no_nan pr d \<Longrightarrow> i < length d \<Longrightarrow> j < length d \<Longrightarrow>
    fgt (pr (d ! i)) (pr (d ! j)) \<longleftrightarrow> prio pr d j < prio pr d i"
  by (simp add: prio_def fgt_ordered no_nan_nth)

lemma mm_except_cong: "(\<And>k. k < n \<Longrightarrow> K k = K' k) \<Longrightarrow> mm_except E K n \<Longrightarrow> mm_except E K' n"
  unfolding mm_except_def pair_ok_def by (metis anc_less order.strict_trans)

lemma mm_except_shrink: "mm_except E K n \<Longrightarrow> n' \<le> n \<Longrightarrow> mm_except E K n'"
  unfolding mm_except_def by auto

lemma mm_except_weaken: "mm_except E K n \<Longrightarrow> (\<And>k j. anc k j \<Longrightarrow> j < n \<Longrightarrow> E k j \<Longrightarrow> E' k j) \<Longrightarrow> mm_except E' K n"
  unfolding mm_except_def by blast

section \<open>Bubbling up\<close>

lemma bubbleUpMin_ok:
  "no_nan pr d \<Longrightarrow> i < length d \<Longrightarrow> climbing (prio pr d) (length d) i \<Longrightarrow> isMinLevel i \<Longrightarrow>
   mm_ordered (prio pr (bubbleUpMin pr d i)) (length d) \<and> mset (bubbleUpMin pr d i) = mset d"
proof (induction pr d i rule: bubbleUpMin.induct)
  case (1 pr d i)
  let ?g = "(i - 3) div 4"
  show ?case
  proof (cases "i \<ge> 3 \<and> flt (pr (d ! i)) (pr (d ! ?g))")
    case True
    then have g: "?g < length d" "isMinLevel ?g" "i \<ge> 3" and lt: "lt_dir (isMinLevel i) (prio pr d i) (prio pr d ?g)"
      using 1 isMinLevel_grandparent by (auto simp: flt_prio lt_dir_def)
    have "climbing (prio pr (swap_at d i ?g)) (length d) ?g"
      using climb_step [OF "1.prems"(3) g(3) "1.prems"(2) refl lt] g(1) 1 by (simp add: prio_swap_at)
    then show ?thesis
      using "1.IH" [OF g(3) refl] True g 1 by (simp add: bubbleUpMin.simps [of pr d i] Let_def)
  next
    case False
    then have eq: "bubbleUpMin pr d i = d" by (simp add: bubbleUpMin.simps [of pr d i])
    have "mm_ordered (prio pr d) (length d)"
    proof (cases "i < 3")
      case False
      then have le: "le_dir (isMinLevel i) (prio pr d ?g) (prio pr d i)"
        using 1 \<open>\<not> (i \<ge> 3 \<and> _)\<close> by (auto simp: flt_prio le_dir_def)
      show ?thesis by (rule climb_stop [OF "1.prems"(3) _ "1.prems"(2) le]) (use False in simp)
    qed (use climb_small 1 in blast)
    then show ?thesis using eq by simp
  qed
qed

lemma bubbleUpMax_ok:
  "no_nan pr d \<Longrightarrow> i < length d \<Longrightarrow> climbing (prio pr d) (length d) i \<Longrightarrow> \<not> isMinLevel i \<Longrightarrow>
   mm_ordered (prio pr (bubbleUpMax pr d i)) (length d) \<and> mset (bubbleUpMax pr d i) = mset d"
proof (induction pr d i rule: bubbleUpMax.induct)
  case (1 pr d i)
  let ?g = "(i - 3) div 4"
  show ?case
  proof (cases "i \<ge> 3 \<and> fgt (pr (d ! i)) (pr (d ! ?g))")
    case True
    then have g: "?g < length d" "\<not> isMinLevel ?g" "i \<ge> 3" and lt: "lt_dir (isMinLevel i) (prio pr d i) (prio pr d ?g)"
      using 1 isMinLevel_grandparent by (auto simp: fgt_prio lt_dir_def)
    have "climbing (prio pr (swap_at d i ?g)) (length d) ?g"
      using climb_step [OF "1.prems"(3) g(3) "1.prems"(2) refl lt] g(1) 1 by (simp add: prio_swap_at)
    then show ?thesis
      using "1.IH" [OF g(3) refl] True g 1 by (simp add: bubbleUpMax.simps [of pr d i] Let_def)
  next
    case False
    then have eq: "bubbleUpMax pr d i = d" by (simp add: bubbleUpMax.simps [of pr d i])
    have "mm_ordered (prio pr d) (length d)"
    proof (cases "i < 3")
      case False
      then have le: "le_dir (isMinLevel i) (prio pr d ?g) (prio pr d i)"
        using 1 \<open>\<not> (i \<ge> 3 \<and> _)\<close> by (auto simp: fgt_prio le_dir_def)
      show ?thesis by (rule climb_stop [OF "1.prems"(3) _ "1.prems"(2) le]) (use False in simp)
    qed (use climb_small 1 in blast)
    then show ?thesis using eq by simp
  qed
qed

lemma bubbleUp_ok:
  assumes nn: "no_nan pr d" and i: "i < length d" "length d = Suc i"
    and exc: "mm_except (\<lambda>k j. j = i) (prio pr d) (length d)"
  shows "mm_ordered (prio pr (bubbleUp pr d i)) (length d) \<and> mset (bubbleUp pr d i) = mset d"
proof (cases "i = 0")
  case True
  then show ?thesis using exc by (auto simp: bubbleUp_def mm_except_def) (metis anc_0 gr0I)
next
  case i0: False
  let ?p = "(i - 1) div 2"
  have p: "?p < length d" "isMinLevel ?p = (\<not> isMinLevel i)" using i i0 isMinLevel_parent by auto
  have keep: "climbing (prio pr d) (length d) i" if "le_dir (isMinLevel i) (prio pr d i) (prio pr d ?p)"
    using bubble_keep [OF exc i(1) i0 that] .
  have swap: "climbing (prio pr (swap_at d i ?p)) (length d) ?p" if "lt_dir (isMinLevel i) (prio pr d ?p) (prio pr d i)"
    using bubble_swap [OF exc i(1) i0 i(2) refl that] i p by (simp add: prio_swap_at)
  note step = bubbleUpMin_ok [OF nn i(1)] bubbleUpMax_ok [OF nn i(1)]
    bubbleUpMin_ok [of pr "swap_at d i ?p" ?p] bubbleUpMax_ok [of pr "swap_at d i ?p" ?p]
  show ?thesis
    using keep swap step nn i p i0
    by (auto simp: bubbleUp_def Let_def flt_prio fgt_prio le_dir_def lt_dir_def not_less split: if_splits)
qed

section \<open>Trickling down\<close>

lemma children_iff: "x \<noteq> 0 \<and> (x - 1) div 2 = i \<longleftrightarrow> x = 2 * i + 1 \<or> x = 2 * i + (2 :: nat)"
  by (cases x) auto

lemma grandchildren_iff:
  "x \<noteq> 0 \<and> (x - 1) div 2 \<noteq> 0 \<and> ((x - 1) div 2 - 1) div 2 = i \<longleftrightarrow>
   x = 4 * i + 3 \<or> x = 4 * i + 4 \<or> x = 4 * i + 5 \<or> x = 4 * i + (6 :: nat)"
proof -
  have "x \<noteq> 0 \<and> (x - 1) div 2 \<noteq> 0 \<and> ((x - 1) div 2 - 1) div 2 = i \<longleftrightarrow>
      (x \<noteq> 0 \<and> (x - 1) div 2 = 2 * i + 1) \<or> (x \<noteq> 0 \<and> (x - 1) div 2 = 2 * i + 2)"
    using children_iff [of "(x - 1) div 2" i] by blast
  then show ?thesis using children_iff [of x "2 * i + 1"] children_iff [of x "2 * i + 2"]
    by (simp add: eval_nat_numeral add.assoc)
qed

lemma foldl_better_extreme:
  "no_nan pr d \<Longrightarrow> n \<le> length d \<Longrightarrow> (\<forall>b. best = Some b \<longrightarrow> b < n) \<Longrightarrow>
   foldl (better_descendant pr d n mn) best xs = Some m \<Longrightarrow>
   m < n \<and> (\<forall>b. best = Some b \<longrightarrow> le_dir mn (prio pr d m) (prio pr d b)) \<and>
   (\<forall>x \<in> set xs. x < n \<longrightarrow> le_dir mn (prio pr d m) (prio pr d x))"
proof (induction xs arbitrary: best)
  case (Cons x xs)
  let ?b = "better_descendant pr d n mn best x"
  have b: "(\<forall>b. ?b = Some b \<longrightarrow> b < n)"
    "x < n \<Longrightarrow> \<exists>b. ?b = Some b \<and> le_dir mn (prio pr d b) (prio pr d x)"
    "best = Some b0 \<Longrightarrow> \<exists>b. ?b = Some b \<and> le_dir mn (prio pr d b) (prio pr d b0)" for b0
    using Cons.prems(1-3) by (cases mn; auto simp: better_descendant_def le_dir_def flt_prio fgt_prio split: option.splits)+
  have ih: "m < n \<and> (\<forall>b. ?b = Some b \<longrightarrow> le_dir mn (prio pr d m) (prio pr d b)) \<and>
      (\<forall>x \<in> set xs. x < n \<longrightarrow> le_dir mn (prio pr d m) (prio pr d x))"
    using Cons.IH [OF Cons.prems(1,2) b(1)] Cons.prems(4) by simp
  then show ?case using b(2,3) le_dir_trans by (metis set_ConsD)
qed auto

lemma foldl_better_None:
  "foldl (better_descendant pr d n mn) best xs = None \<longleftrightarrow> best = None \<and> (\<forall>x \<in> set xs. n \<le> x)"
  by (induction xs arbitrary: best) (auto simp: better_descendant_def split: option.splits)

lemma extremeDescendant_None: "extremeDescendant pr d n i mn = None \<Longrightarrow> n \<le> 2 * i + 1"
  by (simp add: extremeDescendant_def foldl_better_None del: foldl.simps)

lemma extremeDescendant_extreme:
  assumes "no_nan pr d" "n \<le> length d" "extremeDescendant pr d n i mn = Some m"
  shows "extreme_below mn (prio pr d) n i m"
proof -
  have le: "le_dir mn (prio pr d m) (prio pr d x)"
    if "x < n" "x \<in> set ([2 * i + 1, 2 * i + 2] @ [4 * i + 3, 4 * i + 4, 4 * i + 5, 4 * i + 6])" for x
    using foldl_better_extreme [OF assms(1,2) _ assms(3) [unfolded extremeDescendant_def Let_def]] that by blast
  show ?thesis
    unfolding extreme_below_def
  proof (intro allI impI)
    fix x assume x: "x < n"
      and "x \<noteq> 0 \<and> ((x - 1) div 2 = i \<or> (x - 1) div 2 \<noteq> 0 \<and> ((x - 1) div 2 - 1) div 2 = i)"
    then have "x \<in> set ([2 * i + 1, 2 * i + 2] @ [4 * i + 3, 4 * i + 4, 4 * i + 5, 4 * i + 6])"
      using children_iff [of x i] grandchildren_iff [of x i] by auto
    then show "le_dir mn (prio pr d m) (prio pr d x)" using le x by blast
  qed
qed

text \<open>What one iteration of either loop does, as updates of the priorities.\<close>

lemma trickle_child:
  assumes "no_nan pr d" "n = length d" "mm_except (\<lambda>k j. k = i) (prio pr d) n"
    and "extremeDescendant pr d n i (isMinLevel i) = Some m" "\<not> isGrandchild i m"
  shows "mm_ordered (prio pr (if lt_dir (isMinLevel i) (prio pr d m) (prio pr d i) then swap_at d i m else d)) n"
proof -
  have r: "m < n" "m \<noteq> 0" "(m - 1) div 2 = i" "i < n"
    using extremeDescendant_range [OF assms(4)] assms(5) by (auto simp: isGrandchild_def)
  note ext = extremeDescendant_extreme [OF assms(1) eq_refl [OF assms(2)] assms(4)]
  show ?thesis
    using swap_child_ordered [OF assms(3) ext r(1-3)] extreme_keep_ordered [OF assms(3) ext] r assms(2)
    by (auto simp: prio_swap_at not_lt_dir)
qed

lemma trickle_grandchild:
  assumes "no_nan pr d" "n = length d" "mm_except (\<lambda>k j. k = i) (prio pr d) n"
    and ed: "extremeDescendant pr d n i (isMinLevel i) = Some m" "isGrandchild i m"
    and lt: "lt_dir (isMinLevel i) (prio pr d m) (prio pr d i)"
    and d1: "d1 = swap_at d i m" and p: "p = (m - 1) div 2"
    and d2: "d2 = (if lt_dir (isMinLevel i) (prio pr d1 p) (prio pr d1 m) then swap_at d1 m p else d1)"
  shows "mm_except (\<lambda>k j. k = m) (prio pr d2) n" and "mset d2 = mset d" and "length d2 = n"
    and "i < m" "m < n" "p < n" "isMinLevel m = isMinLevel i"
proof -
  have r: "m < n" "m \<noteq> 0" "(m - 1) div 2 = p" "p \<noteq> 0" "(p - 1) div 2 = i" "i < n" "p < n" "i < p" "p < m"
    using extremeDescendant_range [OF ed(1)] ed(2) p by (auto simp: isGrandchild_def)
  note ext = extremeDescendant_extreme [OF assms(1) eq_refl [OF assms(2)] ed(1)]
  show "mm_except (\<lambda>k j. k = m) (prio pr d2) n"
    by (rule swap_grandchild_except [OF assms(3) ext r(1-5) lt])
      (use r assms(2) in \<open>auto simp: d1 d2 prio_swap_at not_lt_dir intro: lt_imp_le_dir\<close>)
  show "mset d2 = mset d" "length d2 = n" using r assms(2) by (auto simp: d1 d2)
  show "i < m" "m < n" "p < n" using r by auto
  show "isMinLevel m = isMinLevel i" using r isMinLevel_parent [of m] isMinLevel_parent [of p] by auto
qed

lemma trickleDownMin_ok:
  "no_nan pr d \<Longrightarrow> n = length d \<Longrightarrow> mm_except (\<lambda>k j. k = i) (prio pr d) n \<Longrightarrow> isMinLevel i \<Longrightarrow> i < n \<Longrightarrow>
   mm_ordered (prio pr (trickleDownMin pr n d i)) n \<and> mset (trickleDownMin pr n d i) = mset d"
proof (induction pr n d i rule: trickleDownMin.induct)
  case (1 pr n d i)
  note nn = "1.prems"(1) and n = "1.prems"(2) and exc = "1.prems"(3) and s = "1.prems"(4)
  show ?case
  proof (cases "smallestDescendant pr d n i")
    case None
    then have "mm_ordered (prio pr d) n"
      using no_descendants_ordered [OF exc] extremeDescendant_None [of pr d n i True] by (simp add: smallestDescendant_def)
    then show ?thesis by (simp add: trickleDownMin.simps [of pr n d i] None)
  next
    case (Some m)
    then have ed: "extremeDescendant pr d n i (isMinLevel i) = Some m" by (simp add: smallestDescendant_def s)
    have r: "i < m" "m < length d" using extremeDescendant_range [OF ed] n by auto
    then have lt: "flt (pr (d ! m)) (pr (d ! i)) = lt_dir (isMinLevel i) (prio pr d m) (prio pr d i)"
      using nn s by (simp add: flt_prio lt_dir_def)
    show ?thesis
    proof (cases "isGrandchild i m \<and> flt (pr (d ! m)) (pr (d ! i))")
      case True
      define d1 where "d1 = swap_at d i m"
      define p where "p = (m - 1) div 2"
      define d2 where "d2 = (if fgt (pr (d1 ! m)) (pr (d1 ! p)) then swap_at d1 m p else d1)"
      have pl: "p < length d" using r by (simp add: p_def)
      have "fgt (pr (d1 ! m)) (pr (d1 ! p)) = lt_dir (isMinLevel i) (prio pr d1 p) (prio pr d1 m)"
        using nn r pl s by (simp add: fgt_prio lt_dir_def d1_def)
      note g = trickle_grandchild [OF nn n exc ed _ _ d1_def p_def d2_def [unfolded this]]
      have nn2: "no_nan pr d2" using g(2) True lt nn no_nan_mset by auto
      have "mm_ordered (prio pr (trickleDownMin pr n d2 m)) n \<and> mset (trickleDownMin pr n d2 m) = mset d2"
        using "1.IH" [OF Some _ _ d1_def p_def d2_def nn2] g True lt s by auto
      moreover have "trickleDownMin pr n d i = trickleDownMin pr n d2 m"
        using True by (simp add: trickleDownMin.simps [of pr n d i] Some Let_def d1_def p_def d2_def)
      ultimately show ?thesis using True g(2) lt by simp
    next
      case False
      note c = trickle_child [OF nn n exc ed]
      show ?thesis
      proof (cases "isGrandchild i m")
        case True
        then have "le_dir (isMinLevel i) (prio pr d i) (prio pr d m)" using False lt by (simp add: not_lt_dir)
        then have "mm_ordered (prio pr d) n"
          using extreme_keep_ordered [OF exc extremeDescendant_extreme [OF nn eq_refl [OF n] ed]] by blast
        then show ?thesis using True False by (simp add: trickleDownMin.simps [of pr n d i] Some)
      next
        case ng: False
        then show ?thesis using c lt r by (auto simp: trickleDownMin.simps [of pr n d i] Some)
      qed
    qed
  qed
qed

lemma trickleDownMax_ok:
  "no_nan pr d \<Longrightarrow> n = length d \<Longrightarrow> mm_except (\<lambda>k j. k = i) (prio pr d) n \<Longrightarrow> \<not> isMinLevel i \<Longrightarrow> i < n \<Longrightarrow>
   mm_ordered (prio pr (trickleDownMax pr n d i)) n \<and> mset (trickleDownMax pr n d i) = mset d"
proof (induction pr n d i rule: trickleDownMax.induct)
  case (1 pr n d i)
  note nn = "1.prems"(1) and n = "1.prems"(2) and exc = "1.prems"(3) and s = "1.prems"(4)
  show ?case
  proof (cases "largestDescendant pr d n i")
    case None
    then have "mm_ordered (prio pr d) n"
      using no_descendants_ordered [OF exc] extremeDescendant_None [of pr d n i False] by (simp add: largestDescendant_def)
    then show ?thesis by (simp add: trickleDownMax.simps [of pr n d i] None)
  next
    case (Some m)
    then have ed: "extremeDescendant pr d n i (isMinLevel i) = Some m" by (simp add: largestDescendant_def s)
    have r: "i < m" "m < length d" using extremeDescendant_range [OF ed] n by auto
    then have lt: "fgt (pr (d ! m)) (pr (d ! i)) = lt_dir (isMinLevel i) (prio pr d m) (prio pr d i)"
      using nn s by (simp add: fgt_prio lt_dir_def)
    show ?thesis
    proof (cases "isGrandchild i m \<and> fgt (pr (d ! m)) (pr (d ! i))")
      case True
      define d1 where "d1 = swap_at d i m"
      define p where "p = (m - 1) div 2"
      define d2 where "d2 = (if flt (pr (d1 ! m)) (pr (d1 ! p)) then swap_at d1 m p else d1)"
      have pl: "p < length d" using r by (simp add: p_def)
      have "flt (pr (d1 ! m)) (pr (d1 ! p)) = lt_dir (isMinLevel i) (prio pr d1 p) (prio pr d1 m)"
        using nn r pl s by (simp add: flt_prio lt_dir_def d1_def)
      note g = trickle_grandchild [OF nn n exc ed _ _ d1_def p_def d2_def [unfolded this]]
      have nn2: "no_nan pr d2" using g(2) True lt nn no_nan_mset by auto
      have "mm_ordered (prio pr (trickleDownMax pr n d2 m)) n \<and> mset (trickleDownMax pr n d2 m) = mset d2"
        using "1.IH" [OF Some _ _ d1_def p_def d2_def nn2] g True lt s by auto
      moreover have "trickleDownMax pr n d i = trickleDownMax pr n d2 m"
        using True by (simp add: trickleDownMax.simps [of pr n d i] Some Let_def d1_def p_def d2_def)
      ultimately show ?thesis using True g(2) lt by simp
    next
      case False
      note c = trickle_child [OF nn n exc ed]
      show ?thesis
      proof (cases "isGrandchild i m")
        case True
        then have "le_dir (isMinLevel i) (prio pr d i) (prio pr d m)" using False lt by (simp add: not_lt_dir)
        then have "mm_ordered (prio pr d) n"
          using extreme_keep_ordered [OF exc extremeDescendant_extreme [OF nn eq_refl [OF n] ed]] by blast
        then show ?thesis using True False by (simp add: trickleDownMax.simps [of pr n d i] Some)
      next
        case ng: False
        then show ?thesis using c lt r by (auto simp: trickleDownMax.simps [of pr n d i] Some)
      qed
    qed
  qed
qed

end
