(* ===== verification/HeapOps.thy ===== *)
theory HeapOps
  imports MinMaxCorrect
begin

text \<open>
  The heap operations as wholes: each keeps the invariant and the multiset of items, and the two ends
  return extremal items. \<open>depq\<close> is the interface the worker pool relies on, interpreted on the
  operations of \<open>mmheap.go\<close>; the properties of the heap follow from its facts.
\<close>

section \<open>Whole operations\<close>

lemma trickleDown_ok:
  assumes "no_nan pr d" "n = length d" "mm_except (\<lambda>k j. k = i) (prio pr d) n" "i < n"
  shows "mm_ordered (prio pr (trickleDown pr n d i)) n \<and> mset (trickleDown pr n d i) = mset d"
  using trickleDownMin_ok [OF assms(1-3) _ assms(4)] trickleDownMax_ok [OF assms(1-3) _ assms(4)]
  by (auto simp: trickleDown_def)

lemma Insert_correct:
  assumes inv: "heap_inv pr h" and v: "pr v \<noteq> NaN"
  shows "heap_inv pr (Insert pr h v)" and "mset (heap_data (Insert pr h v)) = add_mset v (mset (heap_data h))"
proof -
  let ?d = "heap_data h @ [v]" and ?n = "length (heap_data h)"
  let ?d' = "bubbleUp pr ?d ?n"
  have nn: "no_nan pr ?d" using inv v by (auto simp: heap_inv_def no_nan_def)
  have "mm_except (\<lambda>k j. j = ?n) (prio pr (heap_data h)) (Suc ?n)"
    using inv by (auto simp: heap_inv_def mm_except_def less_Suc_eq)
  then have "mm_except (\<lambda>k j. j = ?n) (prio pr ?d) (Suc ?n)"
    unfolding mm_except_def pair_ok_def prio_def
    by (metis anc_less less_Suc_eq nth_append order.strict_trans)
  then have b: "mm_ordered (prio pr ?d') (Suc ?n) \<and> mset ?d' = mset ?d"
    using bubbleUp_ok [OF nn, of ?n] by simp
  moreover have "length ?d' = Suc ?n" using b mset_eq_length by fastforce
  moreover have "no_nan pr ?d'" using b nn no_nan_mset by blast
  ultimately show "heap_inv pr (Insert pr h v)"
    using inv by (simp add: heap_inv_def Insert_def)
  show "mset (heap_data (Insert pr h v)) = add_mset v (mset (heap_data h))"
    using b by (simp add: Insert_def)
qed

lemma anc_root: "j \<noteq> 0 \<Longrightarrow> anc 0 j"
proof (induction j rule: less_induct)
  case (less j)
  then show ?case using anc_via_parent [of 0 j] less.IH [of "(j - 1) div 2"] by (cases "(j - 1) div 2 = 0") auto
qed

lemma anc_top: "j > 2 \<Longrightarrow> anc 1 j \<or> anc 2 j"
proof (induction j rule: less_induct)
  case (less j)
  let ?p = "(j - 1) div 2"
  show ?case
  proof (cases "?p > 2")
    case True
    then show ?thesis using less anc_via_parent [of 1 j] anc_via_parent [of 2 j] by auto
  next
    case False
    then have "?p = 1 \<or> ?p = 2" using less.prems by auto
    then show ?thesis using less.prems anc_parent [of j] by auto
  qed
qed

lemma isMinLevel_12: "\<not> isMinLevel 1" "\<not> isMinLevel 2"
  by (simp_all add: isMinLevel_code)

lemma root_is_min: "mm_ordered K n \<Longrightarrow> j < n \<Longrightarrow> K 0 \<le> K j"
  using anc_root [of j] mm_exceptD [of "\<lambda>_ _. False" K n 0 j] by (cases "j = 0") (auto simp: le_dir_def)

lemma top_is_max:
  assumes "mm_ordered K n" "j < n" "n \<ge> 3"
  shows "K j \<le> max (K 1) (K 2)"
proof -
  have "K j \<le> K 1" if "anc 1 j" using mm_exceptD [OF assms(1) that assms(2)] isMinLevel_12 by (simp add: le_dir_def)
  moreover have "K j \<le> K 2" if "anc 2 j" using mm_exceptD [OF assms(1) that assms(2)] isMinLevel_12 by (simp add: le_dir_def)
  moreover have "K 0 \<le> K 1" using root_is_min [OF assms(1)] assms(3) by simp
  moreover have "j = 0 \<or> j = 1 \<or> j = 2 \<or> j > 2" by auto
  ultimately show ?thesis using anc_top [of j] by (auto simp: le_max_iff_disj)
qed

text \<open>The slot \<open>i\<close> is overwritten by the last element and the slice shrinks by one.\<close>

definition drop_slot :: "'v list \<Rightarrow> nat \<Rightarrow> 'v list" where
  "drop_slot d i = take (length d - 1) (d[i := d ! (length d - 1)])"

lemma length_drop_slot [simp]: "length (drop_slot d i) = length d - 1"
  by (simp add: drop_slot_def)

lemma mset_drop_slot: "i < length d \<Longrightarrow> add_mset (d ! i) (mset (drop_slot d i)) = mset d"
proof -
  assume i: "i < length d"
  let ?l = "length d - 1"
  have l: "?l < length d" using i by auto
  have "swap_at d i ?l = drop_slot d i @ [d ! i]"
    using i l by (intro nth_equalityI) (auto simp: drop_slot_def nth_append nth_swap_at nth_list_update less_Suc_eq)
  then have "mset (swap_at d i ?l) = add_mset (d ! i) (mset (drop_slot d i))" by simp
  then show ?thesis using i l by simp
qed

lemma prio_drop_slot:
  "k < length d - 1 \<Longrightarrow> prio pr (drop_slot d i) k = (if k = i then prio pr d (length d - 1) else prio pr d k)"
  by (auto simp: prio_def drop_slot_def nth_list_update)

lemma drop_slot_except:
  assumes ord: "mm_ordered (prio pr d) (length d)" and i: "i < 3" "i < length d"
  shows "mm_except (\<lambda>k j. k = i) (prio pr (drop_slot d i)) (length d - 1)"
proof (rule mm_exceptI)
  fix k j assume kj: "anc k j" "j < length d - 1" "k \<noteq> i"
  have k: "k < length d - 1" using kj anc_less [of k j] by auto
  show "le_dir (isMinLevel k) (prio pr (drop_slot d i) k) (prio pr (drop_slot d i) j)"
  proof (cases "j = i")
    case True
    then have "k = 0" using kj i anc_less [of k j] anc_via_parent [of k i] by (auto simp: less_Suc_eq numeral_3_eq_3)
    then show ?thesis
      using True k kj prio_drop_slot [of _ d pr i] root_is_min [OF ord, of "length d - 1"] by (auto simp: le_dir_def)
  next
    case False
    then show ?thesis using k kj prio_drop_slot [of _ d pr i] mm_exceptD [OF ord kj(1)] by auto
  qed
qed

lemma drop_slot_trickle:
  assumes inv: "heap_inv pr h" and i: "i < 3" "i < length (heap_data h)"
    and d': "d' = (if i < length (heap_data h) - 1
       then trickleDown pr (length (heap_data h) - 1) (drop_slot (heap_data h) i) i else drop_slot (heap_data h) i)"
  shows "mset d' = mset (heap_data h) - {#heap_data h ! i#} \<and>
         heap_inv pr (h\<lparr>heap_len := length (heap_data h) - 1, heap_data := d'\<rparr>)"
proof -
  let ?d = "heap_data h" and ?s = "drop_slot (heap_data h) i" and ?n = "length (heap_data h) - 1"
  have ord: "mm_ordered (prio pr ?d) (length ?d)" using inv by (simp add: heap_inv_def)
  have ms: "mset ?s = mset ?d - {#?d ! i#}" using mset_drop_slot [OF i(2)] by (metis add_mset_remove_trivial)
  have nn: "no_nan pr ?s" using inv ms by (auto simp: heap_inv_def no_nan_def dest: in_diffD simp flip: set_mset_mset)
  have exc: "mm_except (\<lambda>k j. k = i) (prio pr ?s) ?n" by (rule drop_slot_except [OF ord i])
  have "mm_ordered (prio pr d') ?n \<and> mset d' = mset ?s"
  proof (cases "i < ?n")
    case True
    then show ?thesis using trickleDown_ok [OF nn _ exc] d' by simp
  next
    case False
    then have "mm_ordered (prio pr ?s) ?n" using no_descendants_ordered [OF exc] by simp
    then show ?thesis using False d' by simp
  qed
  moreover have "length d' = ?n" using calculation mset_eq_length [of d' ?s] by simp
  moreover have "no_nan pr d'" using calculation nn no_nan_mset by blast
  ultimately show ?thesis using ms by (simp add: heap_inv_def)
qed

lemma DeleteMin_eq:
  assumes "heap_inv pr h" "heap_len h \<noteq> 0"
  shows "DeleteMin pr h = (Some (heap_data h ! 0),
    h\<lparr>heap_len := length (heap_data h) - 1,
      heap_data := (if 0 < length (heap_data h) - 1
        then trickleDown pr (length (heap_data h) - 1) (drop_slot (heap_data h) 0) 0 else drop_slot (heap_data h) 0)\<rparr>)"
  using assms by (auto simp: DeleteMin_def heap_inv_def drop_slot_def Let_def)

definition max_slot :: "('v \<Rightarrow> f64) \<Rightarrow> 'v list \<Rightarrow> nat" where
  "max_slot pr d = (if length d = 1 then 0 else if length d = 2 \<or> fgt (pr (d ! 1)) (pr (d ! 2)) then 1 else 2)"

lemma DeleteMax_eq:
  assumes "heap_inv pr h" "heap_len h \<noteq> 0"
  shows "DeleteMax pr h = (Some (heap_data h ! max_slot pr (heap_data h)),
    h\<lparr>heap_len := length (heap_data h) - 1,
      heap_data := (if max_slot pr (heap_data h) < length (heap_data h) - 1
        then trickleDown pr (length (heap_data h) - 1) (drop_slot (heap_data h) (max_slot pr (heap_data h))) (max_slot pr (heap_data h))
        else drop_slot (heap_data h) (max_slot pr (heap_data h)))\<rparr>)"
  using assms by (auto simp: DeleteMax_def heap_inv_def drop_slot_def max_slot_def Let_def)

lemma GetMax_eq: "GetMax pr h = (if heap_data h = [] then None else Some (heap_data h ! max_slot pr (heap_data h)))"
  by (auto simp: GetMax_def max_slot_def Let_def)

lemma max_slot_range: "d \<noteq> [] \<Longrightarrow> max_slot pr d < 3 \<and> max_slot pr d < length d"
  by (cases d rule: list.exhaust; cases "tl d"; cases "tl (tl d)") (auto simp: max_slot_def)

lemma max_slot_max:
  assumes inv: "heap_inv pr h" and j: "j < length (heap_data h)"
  shows "prio pr (heap_data h) j \<le> prio pr (heap_data h) (max_slot pr (heap_data h))"
proof -
  let ?d = "heap_data h"
  have ord: "mm_ordered (prio pr ?d) (length ?d)" and nn: "no_nan pr ?d" using inv by (auto simp: heap_inv_def)
  consider "length ?d = 1" | "length ?d = 2" | "length ?d \<ge> 3" using j by linarith
  then show ?thesis
  proof cases
    case 2
    then have "j = 0 \<or> j = 1" using j by auto
    then show ?thesis using 2 root_is_min [OF ord, of 1] by (auto simp: max_slot_def)
  next
    case 3
    then have "fgt (pr (?d ! 1)) (pr (?d ! 2)) = (prio pr ?d 2 < prio pr ?d 1)" using nn fgt_prio [of pr ?d 1 2] by simp
    then show ?thesis using 3 top_is_max [OF ord j 3] by (auto simp: max_slot_def max_def split: if_splits)
  qed (use j in \<open>simp add: max_slot_def\<close>)
qed

lemma items_prio: "x \<in># mset d \<longleftrightarrow> (\<exists>j < length d. x = d ! j \<and> pr x = prio pr d j)"
  by (auto simp: in_set_conv_nth prio_def)

lemma GetMin_Some:
  assumes "heap_inv pr h" "GetMin h = Some x"
  shows "x \<in># mset (heap_data h)" and "y \<in># mset (heap_data h) \<Longrightarrow> pr x \<le> pr y"
  using assms root_is_min [of "prio pr (heap_data h)" "length (heap_data h)"] items_prio [of y "heap_data h" pr]
  by (auto simp: GetMin_def heap_inv_def prio_def split: if_splits)

lemma GetMax_Some:
  assumes "heap_inv pr h" "GetMax pr h = Some x"
  shows "x \<in># mset (heap_data h)" and "y \<in># mset (heap_data h) \<Longrightarrow> pr y \<le> pr x"
  using assms max_slot_range [of "heap_data h" pr] max_slot_max [OF assms(1)] items_prio [of y "heap_data h" pr]
  by (auto simp: GetMax_eq prio_def split: if_splits)

lemma DeleteMin_Some:
  assumes inv: "heap_inv pr h" and get: "GetMin h = Some x"
  shows "fst (DeleteMin pr h) = Some x" and "heap_inv pr (snd (DeleteMin pr h))"
    and "mset (heap_data (snd (DeleteMin pr h))) = mset (heap_data h) - {#x#}"
proof -
  have ne: "heap_data h \<noteq> []" "heap_len h \<noteq> 0" "x = heap_data h ! 0"
    using inv get by (auto simp: GetMin_def heap_inv_def split: if_splits)
  note t = drop_slot_trickle [OF inv _ _ refl, of 0]
  show "fst (DeleteMin pr h) = Some x" "heap_inv pr (snd (DeleteMin pr h))"
    "mset (heap_data (snd (DeleteMin pr h))) = mset (heap_data h) - {#x#}"
    using t ne by (auto simp: DeleteMin_eq [OF inv])
qed

lemma DeleteMax_Some:
  assumes inv: "heap_inv pr h" and get: "GetMax pr h = Some x"
  shows "fst (DeleteMax pr h) = Some x" and "heap_inv pr (snd (DeleteMax pr h))"
    and "mset (heap_data (snd (DeleteMax pr h))) = mset (heap_data h) - {#x#}"
proof -
  let ?m = "max_slot pr (heap_data h)"
  have ne: "heap_data h \<noteq> []" "heap_len h \<noteq> 0" "x = heap_data h ! ?m"
    using inv get by (auto simp: GetMax_eq heap_inv_def split: if_splits)
  note t = drop_slot_trickle [OF inv _ _ refl, of ?m] max_slot_range [OF ne(1), of pr]
  show "fst (DeleteMax pr h) = Some x" "heap_inv pr (snd (DeleteMax pr h))"
    "mset (heap_data (snd (DeleteMax pr h))) = mset (heap_data h) - {#x#}"
    using t ne by (auto simp: DeleteMax_eq [OF inv])
qed

section \<open>The interface the worker pool uses\<close>

text \<open>
  A double-ended priority queue: what \<open>scheduler.WorkerPool\<close> asks of its heap. \<open>items\<close> is the
  abstraction, \<open>inv\<close> the representation invariant.
\<close>

locale depq =
  fixes pr :: "'v \<Rightarrow> f64" and inv :: "'q \<Rightarrow> bool" and items :: "'q \<Rightarrow> 'v multiset"
    and ins :: "'q \<Rightarrow> 'v \<Rightarrow> 'q" and get_min :: "'q \<Rightarrow> 'v option" and get_max :: "'q \<Rightarrow> 'v option"
    and del_min :: "'q \<Rightarrow> 'v option \<times> 'q" and del_max :: "'q \<Rightarrow> 'v option \<times> 'q"
  assumes inv_ins: "inv q \<Longrightarrow> pr v \<noteq> NaN \<Longrightarrow> inv (ins q v)"
    and items_ins: "inv q \<Longrightarrow> pr v \<noteq> NaN \<Longrightarrow> items (ins q v) = add_mset v (items q)"
    and items_nan: "inv q \<Longrightarrow> v \<in># items q \<Longrightarrow> pr v \<noteq> NaN"
    and get_min_None: "inv q \<Longrightarrow> get_min q = None \<longleftrightarrow> items q = {#}"
    and get_max_None: "inv q \<Longrightarrow> get_max q = None \<longleftrightarrow> items q = {#}"
    and get_min_in: "inv q \<Longrightarrow> get_min q = Some x \<Longrightarrow> x \<in># items q"
    and get_min_le: "inv q \<Longrightarrow> get_min q = Some x \<Longrightarrow> y \<in># items q \<Longrightarrow> pr x \<le> pr y"
    and get_max_in: "inv q \<Longrightarrow> get_max q = Some x \<Longrightarrow> x \<in># items q"
    and get_max_ge: "inv q \<Longrightarrow> get_max q = Some x \<Longrightarrow> y \<in># items q \<Longrightarrow> pr y \<le> pr x"
    and del_min_result: "inv q \<Longrightarrow> get_min q = Some x \<Longrightarrow> fst (del_min q) = Some x"
    and del_min_inv: "inv q \<Longrightarrow> get_min q = Some x \<Longrightarrow> inv (snd (del_min q))"
    and del_min_items: "inv q \<Longrightarrow> get_min q = Some x \<Longrightarrow> items (snd (del_min q)) = items q - {#x#}"
    and del_max_result: "inv q \<Longrightarrow> get_max q = Some x \<Longrightarrow> fst (del_max q) = Some x"
    and del_max_inv: "inv q \<Longrightarrow> get_max q = Some x \<Longrightarrow> inv (snd (del_max q))"
    and del_max_items: "inv q \<Longrightarrow> get_max q = Some x \<Longrightarrow> items (snd (del_max q)) = items q - {#x#}"
begin

text \<open>Replacing the worst item by a better one, as a full pool does.\<close>

lemma replace_worst:
  assumes "inv q" "get_min q = Some w" "flt (pr w) (pr v)"
  shows "inv (ins (snd (del_min q)) v)"
    and "items (ins (snd (del_min q)) v) = add_mset v (items q - {#w#})"
    and "size (items (ins (snd (del_min q)) v)) = size (items q)"
    and "y \<in># items (ins (snd (del_min q)) v) \<Longrightarrow> pr w \<le> pr y"
proof -
  have v: "pr v \<noteq> NaN" "pr w < pr v" using assms(3) by (auto simp: flt_def)
  show "inv (ins (snd (del_min q)) v)" using inv_ins del_min_inv assms v by blast
  show i: "items (ins (snd (del_min q)) v) = add_mset v (items q - {#w#})"
    using items_ins [OF del_min_inv [OF assms(1,2)] v(1)] del_min_items [OF assms(1,2)] by simp
  show "size (items (ins (snd (del_min q)) v)) = size (items q)"
    using i get_min_in [OF assms(1,2)] by (simp add: size_Suc_Diff1)
  show "y \<in># items (ins (snd (del_min q)) v) \<Longrightarrow> pr w \<le> pr y"
    using i v get_min_le [OF assms(1,2)] by (auto dest: in_diffD)
qed

lemma del_max_best:
  assumes "inv q" "get_max q = Some x" "y \<in># items (snd (del_max q))"
  shows "pr y \<le> pr x"
  using assms get_max_ge del_max_items by (metis in_diffD)

lemma size_del_max: "inv q \<Longrightarrow> get_max q = Some x \<Longrightarrow> size (items q) = Suc (size (items (snd (del_max q))))"
  by (simp add: del_max_items get_max_in size_Suc_Diff1)

end

definition heap_items :: "'v minMaxHeap \<Rightarrow> 'v multiset" where
  "heap_items h = mset (heap_data h)"

interpretation mmh: depq pr "heap_inv pr" heap_items "Insert pr" GetMin "GetMax pr" "DeleteMin pr" "DeleteMax pr"
  for pr :: "'v \<Rightarrow> f64"
proof (unfold_locales, goal_cases)
  case (1 q v)
  then show ?case by (rule Insert_correct)
next
  case (2 q v)
  then show ?case by (simp add: heap_items_def Insert_correct)
next
  case (3 q v)
  then show ?case by (auto simp: heap_inv_def no_nan_def heap_items_def)
next
  case (4 q)
  then show ?case by (simp add: GetMin_def heap_items_def)
next
  case (5 q)
  then show ?case by (simp add: GetMax_eq heap_items_def)
qed (use GetMin_Some GetMax_Some DeleteMin_Some DeleteMax_Some in \<open>auto simp: heap_items_def\<close>)

section \<open>Draining the heap\<close>

definition insert_all :: "('v \<Rightarrow> f64) \<Rightarrow> 'v list \<Rightarrow> 'v minMaxHeap" where
  "insert_all pr vs = foldl (Insert pr) NewMinMaxHeap vs"

fun drain_max :: "('v \<Rightarrow> f64) \<Rightarrow> nat \<Rightarrow> 'v minMaxHeap \<Rightarrow> 'v list" where
  "drain_max pr 0 h = []"
| "drain_max pr (Suc n) h =
     (case DeleteMax pr h of (None, _) \<Rightarrow> [] | (Some x, h') \<Rightarrow> x # drain_max pr n h')"

fun drain_min :: "('v \<Rightarrow> f64) \<Rightarrow> nat \<Rightarrow> 'v minMaxHeap \<Rightarrow> 'v list" where
  "drain_min pr 0 h = []"
| "drain_min pr (Suc n) h =
     (case DeleteMin pr h of (None, _) \<Rightarrow> [] | (Some x, h') \<Rightarrow> x # drain_min pr n h')"

lemma heap_inv_new [simp]: "heap_inv pr NewMinMaxHeap"
  by (simp add: heap_inv_def NewMinMaxHeap_def no_nan_def mm_except_def)

lemma insert_all_inv:
  assumes "\<forall>v \<in> set vs. pr v \<noteq> NaN"
  shows "heap_inv pr (insert_all pr vs) \<and> heap_items (insert_all pr vs) = mset vs"
  using assms unfolding insert_all_def
proof (induction vs rule: rev_induct)
  case Nil
  show ?case using heap_inv_new by (simp add: NewMinMaxHeap_def heap_items_def)
next
  case (snoc v vs)
  then show ?case by (simp add: mmh.inv_ins mmh.items_ins)
qed

lemma drain_max_sorted:
  "heap_inv pr h \<Longrightarrow> size (heap_items h) = n \<Longrightarrow>
   mset (drain_max pr n h) = heap_items h \<and> sorted_wrt (\<lambda>x y. pr y \<le> pr x) (drain_max pr n h)"
proof (induction n arbitrary: h)
  case (Suc n)
  then obtain x where x: "GetMax pr h = Some x" using mmh.get_max_None [of pr h] by (cases "GetMax pr h") auto
  define h' where "h' = snd (DeleteMax pr h)"
  have eq: "DeleteMax pr h = (Some x, h')"
    using mmh.del_max_result [OF Suc.prems(1) x] by (simp add: h'_def prod_eq_iff)
  have h': "heap_inv pr h'" "heap_items h' = heap_items h - {#x#}" "size (heap_items h') = n" "x \<in># heap_items h"
    using mmh.del_max_inv [OF Suc.prems(1) x] mmh.del_max_items [OF Suc.prems(1) x]
      mmh.size_del_max [OF Suc.prems(1) x] mmh.get_max_in [OF Suc.prems(1) x] Suc.prems(2) by (auto simp: h'_def)
  have "pr y \<le> pr x" if "y \<in> set (drain_max pr n h')" for y
    using Suc.IH [OF h'(1,3)] that mmh.del_max_best [OF Suc.prems(1) x] by (metis h'_def set_mset_mset)
  then show ?case using Suc.IH [OF h'(1,3)] eq h' by auto
qed simp

lemma drain_min_sorted:
  "heap_inv pr h \<Longrightarrow> size (heap_items h) = n \<Longrightarrow>
   mset (drain_min pr n h) = heap_items h \<and> sorted_wrt (\<lambda>x y. pr x \<le> pr y) (drain_min pr n h)"
proof (induction n arbitrary: h)
  case (Suc n)
  then obtain x where x: "GetMin h = Some x" using mmh.get_min_None [of pr h] by (cases "GetMin h") auto
  define h' where "h' = snd (DeleteMin pr h)"
  have eq: "DeleteMin pr h = (Some x, h')"
    using mmh.del_min_result [OF Suc.prems(1) x] by (simp add: h'_def prod_eq_iff)
  have h': "heap_inv pr h'" "heap_items h' = heap_items h - {#x#}" "x \<in># heap_items h"
    using mmh.del_min_inv [OF Suc.prems(1) x] mmh.del_min_items [OF Suc.prems(1) x]
      mmh.get_min_in [OF Suc.prems(1) x] by (auto simp: h'_def)
  then have n: "size (heap_items h') = n" using Suc.prems(2) by (simp add: size_Diff_singleton)
  have "pr x \<le> pr y" if "y \<in> set (drain_min pr n h')" for y
    using Suc.IH [OF h'(1) n] that h'(2) mmh.get_min_le [OF Suc.prems(1) x] by (metis in_diffD set_mset_mset)
  then show ?case using Suc.IH [OF h'(1) n] eq h' by auto
qed simp

text \<open>
  The heap holds pointers: if the priority of a queued item is changed from outside, the order is lost. The crawler does so when it expands a
  page again, since the links of the page that are queued are the ones in its cache.
\<close>

lemma changed_priority_misorders:
  "\<exists>h. heap_inv (\<lambda>n. Fin (real n)) h \<and> heap_items h = {#1, 2, 3#} \<and>
     GetMax ((\<lambda>n. Fin (real n))(1 := Fin 9)) h = Some 3"
proof -
  let ?pr = "\<lambda>n. Fin (real n)"
  have "heap_data (insert_all ?pr [1, 2, 3]) = [1, 2, 3]"
    by (simp add: insert_all_def Insert_def NewMinMaxHeap_def bubbleUp_def bubbleUpMin.simps bubbleUpMax.simps isMinLevel_12 isMinLevel_12 [simplified numeral_2_eq_2] isMinLevel_12 [simplified] swap_at_def Let_def)
  then show ?thesis using insert_all_inv [of "[1, 2, 3]" ?pr] by (intro exI [of _ "insert_all ?pr [1, 2, 3]"]) (simp add: GetMax_def)
qed

section \<open>Properties\<close>

text \<open>
  C12: inserting all items of a list and then calling \<open>DeleteMax\<close> as often returns exactly those items
  in descending order of priority, and \<open>DeleteMin\<close> returns them in ascending order.
\<close>

theorem heap_drains_sorted:
  assumes "\<forall>v \<in> set vs. pr v \<noteq> NaN"
  shows "mset (drain_max pr (length vs) (insert_all pr vs)) = mset vs \<and>
         sorted_wrt (\<lambda>x y. pr y \<le> pr x) (drain_max pr (length vs) (insert_all pr vs)) \<and>
         mset (drain_min pr (length vs) (insert_all pr vs)) = mset vs \<and>
         sorted_wrt (\<lambda>x y. pr x \<le> pr y) (drain_min pr (length vs) (insert_all pr vs))"
proof -
  note i = insert_all_inv [OF assms]
  then have "size (heap_items (insert_all pr vs)) = length vs" by simp
  then show ?thesis using drain_max_sorted drain_min_sorted i by metis
qed

theorem heap_drains_sorted_witness:
  "mset (drain_max Fin 3 (insert_all Fin [2, 7, 5])) = mset [2, 7, 5 :: real] \<and>
   sorted_wrt (\<lambda>x y. Fin y \<le> Fin x) (drain_max Fin 3 (insert_all Fin [2, 7, 5]))"
proof -
  have "\<forall>v \<in> set [2, 7, 5]. Fin v \<noteq> NaN" by simp
  from heap_drains_sorted [OF this] show ?thesis by (simp add: eval_nat_numeral)
qed

text \<open>
  \<open>GetMin\<close> and \<open>DeleteMin\<close> on a heap in order: on an empty heap nothing is returned and
  nothing changes; otherwise both return the same item, of least priority, \<open>DeleteMin\<close> removes exactly
  that item, and the heap is in order again.
\<close>

theorem DeleteMin_least:
  assumes inv: "heap_inv pr h"
  shows "if heap_items h = {#} then GetMin h = None \<and> DeleteMin pr h = (None, h)
         else \<exists>x h'. GetMin h = Some x \<and> DeleteMin pr h = (Some x, h') \<and> x \<in># heap_items h \<and>
           (\<forall>y \<in># heap_items h. pr x \<le> pr y) \<and> heap_items h' = heap_items h - {#x#} \<and> heap_inv pr h'"
proof (cases "heap_items h = {#}")
  case True
  then show ?thesis using inv by (auto simp: GetMin_def DeleteMin_def heap_items_def heap_inv_def)
next
  case False
  then obtain x where x: "GetMin h = Some x" using mmh.get_min_None [OF inv] by auto
  show ?thesis
    using False x mmh.get_min_in [OF inv x] mmh.get_min_le [OF inv x] mmh.del_min_inv [OF inv x]
      mmh.del_min_items [OF inv x] mmh.del_min_result [OF inv x]
    by (auto simp: prod_eq_iff)
qed

theorem DeleteMin_least_witness:
  "\<exists>x h'. GetMin (insert_all Fin [2, 7, 5]) = Some x \<and> DeleteMin Fin (insert_all Fin [2, 7, 5]) = (Some x, h') \<and>
     (\<forall>y \<in># mset [2, 7, 5]. Fin x \<le> Fin y)"
proof -
  have i: "heap_inv Fin (insert_all Fin [2, 7, 5]) \<and> heap_items (insert_all Fin [2, 7, 5]) = mset [2, 7, 5]"
    by (rule insert_all_inv) simp
  from DeleteMin_least [OF conjunct1 [OF i]] i show ?thesis by fastforce
qed

text \<open>
  The same for \<open>GetMax\<close> and \<open>DeleteMax\<close>, which return an item of greatest priority although it
  sits at slot 0, 1 or 2 depending on the size.
\<close>

theorem DeleteMax_greatest:
  assumes inv: "heap_inv pr h"
  shows "if heap_items h = {#} then GetMax pr h = None \<and> DeleteMax pr h = (None, h)
         else \<exists>x h'. GetMax pr h = Some x \<and> DeleteMax pr h = (Some x, h') \<and> x \<in># heap_items h \<and>
           (\<forall>y \<in># heap_items h. pr y \<le> pr x) \<and> heap_items h' = heap_items h - {#x#} \<and> heap_inv pr h'"
proof (cases "heap_items h = {#}")
  case True
  then show ?thesis using inv by (auto simp: GetMax_def DeleteMax_def heap_items_def heap_inv_def)
next
  case False
  then obtain x where x: "GetMax pr h = Some x" using mmh.get_max_None [OF inv] by auto
  show ?thesis
    using False x mmh.get_max_in [OF inv x] mmh.get_max_ge [OF inv x] mmh.del_max_inv [OF inv x]
      mmh.del_max_items [OF inv x] mmh.del_max_result [OF inv x]
    by (auto simp: prod_eq_iff)
qed

theorem DeleteMax_greatest_witness:
  "\<exists>x h'. GetMax Fin (insert_all Fin [2, 7, 5]) = Some x \<and> DeleteMax Fin (insert_all Fin [2, 7, 5]) = (Some x, h') \<and>
     (\<forall>y \<in># mset [2, 7, 5]. Fin y \<le> Fin x)"
proof -
  have i: "heap_inv Fin (insert_all Fin [2, 7, 5]) \<and> heap_items (insert_all Fin [2, 7, 5]) = mset [2, 7, 5]"
    by (rule insert_all_inv) simp
  from DeleteMax_greatest [OF conjunct1 [OF i]] i show ?thesis by fastforce
qed

end
