(* ===== verification/FileStack.thy ===== *)
theory FileStack
  imports Binary
begin

text \<open>
  The on-disk stack of serialized tasks (\<open>internal/services/wfts/offline/scraper/fileQueue.go\<close>): the
  file's content as a byte list, \<open>Push\<close> and \<open>Pop\<close> with their length trailers, and the interface
  \<open>scheduler.Stack\<close> (workerPool.go) as a locale, interpreted on these operations.
\<close>

section \<open>The file stack\<close>

record Stack =
  rw :: bytes
  mOffset :: int

datatype stack_error = EOF | CorruptedFile

definition headerOffset :: u16 where
  "headerOffset = 2"

definition InitStack :: "bytes \<Rightarrow> int \<Rightarrow> Stack" where
  "InitStack content maxOffset = \<lparr>rw = content, mOffset = maxOffset\<rparr>"

text \<open>
  \<open>Push\<close>: past the size limit the data is dropped and no error returned. The length is truncated to
  16 bits, and \<open>headerOffset + length\<close> wraps at 16 bits too: for the two largest lengths the buffer is
  shorter than \<open>length\<close>, so the slice expression \<open>toWrite[length:]\<close> panics.
\<close>

definition Push :: "Stack \<Rightarrow> bytes \<Rightarrow> Stack go" where
  "Push st data =
     (let offset = int (length (rw st)) in
      if offset > mOffset st then Inr st
      else
        let len = (of_nat (length data) :: u16);
            size = unat (headerOffset + len)
        in if size < unat len then Inl SliceOutOfRange
           else if size - unat len < 2 then Inl IndexOutOfRange
           else Inr (st\<lparr>rw := rw st @ take (unat len) data @ le_bytes 2 len\<rparr>))"

definition Pop :: "Stack \<Rightarrow> (stack_error + bytes) \<times> Stack" where
  "Pop st =
     (let size = length (rw st) in
      if size < unat headerOffset then (Inl EOF, st)
      else
        let len = (le_word (drop (size - 2) (rw st)) :: u16);
            offset = int size - int (unat headerOffset) - int (unat len)
        in if offset < 0 then (Inl CorruptedFile, st)
           else (Inr (take (unat len) (drop (nat offset) (rw st))), st\<lparr>rw := take (nat offset) (rw st)\<rparr>))"

section \<open>The interface of the worker pool's collection\<close>

text \<open>
  \<open>repr s ds\<close>: the stack \<open>s\<close> holds the entries \<open>ds\<close>, oldest first. A push of an entry that
  \<open>fits\<close> is stored, or dropped when the stack is \<open>full\<close>; a pop returns the newest entry.
\<close>

locale byte_stack =
  fixes repr :: "'s \<Rightarrow> bytes list \<Rightarrow> bool" and fits :: "bytes \<Rightarrow> bool" and full :: "'s \<Rightarrow> bool"
    and push :: "'s \<Rightarrow> bytes \<Rightarrow> 's go" and pop :: "'s \<Rightarrow> (stack_error + bytes) \<times> 's"
  assumes push_stored: "repr s ds \<Longrightarrow> fits d \<Longrightarrow> \<not> full s \<Longrightarrow> \<exists>s'. push s d = Inr s' \<and> repr s' (ds @ [d])"
    and push_dropped: "full s \<Longrightarrow> push s d = Inr s"
    and pop_empty: "repr s [] \<Longrightarrow> pop s = (Inl EOF, s)"
    and pop_newest: "repr s (ds @ [d]) \<Longrightarrow> \<exists>s'. pop s = (Inr d, s') \<and> repr s' ds"
begin

lemma push_total: "repr s ds \<Longrightarrow> fits d \<Longrightarrow> \<exists>s' ds'. push s d = Inr s' \<and> repr s' ds' \<and> (ds' = ds \<or> ds' = ds @ [d])"
  using push_stored push_dropped by (cases "full s") blast+

lemma push_pop:
  assumes "repr s ds" "fits d" "\<not> full s"
  shows "\<exists>s' s''. push s d = Inr s' \<and> pop s' = (Inr d, s'') \<and> repr s'' ds"
  using push_stored [OF assms] pop_newest by meson

end

section \<open>Frames\<close>

definition frame :: "bytes \<Rightarrow> bytes" where
  "frame d = d @ le_bytes 2 (of_nat (length d) :: u16)"

definition entry_fits :: "bytes \<Rightarrow> bool" where
  "entry_fits d \<longleftrightarrow> length d < 65534"

definition stack_repr :: "Stack \<Rightarrow> bytes list \<Rightarrow> bool" where
  "stack_repr st ds \<longleftrightarrow> rw st = concat (map frame ds) \<and> (\<forall>d \<in> set ds. entry_fits d)"

definition stack_full :: "Stack \<Rightarrow> bool" where
  "stack_full st \<longleftrightarrow> int (length (rw st)) > mOffset st"

lemma unat_len: "n < 65536 \<Longrightarrow> unat (of_nat n :: u16) = n"
  by (simp add: unat_of_nat)

lemma uint_len: "n < 65536 \<Longrightarrow> uint (of_nat n :: u16) = int n"
  using unat_len [of n] by (metis of_nat_unat)

lemma unat_header_len: "n < 65534 \<Longrightarrow> unat (headerOffset + of_nat n) = n + 2"
proof -
  assume n: "n < 65534"
  then have "unat (of_nat (n + 2) :: u16) = n + 2" by (intro unat_len) simp
  then show ?thesis by (simp add: headerOffset_def add.commute)
qed

lemma Push_fits:
  assumes "entry_fits d" "\<not> stack_full st"
  shows "Push st d = Inr (st\<lparr>rw := rw st @ frame d\<rparr>)"
proof -
  have "unat (of_nat (length d) :: u16) = length d" "unat (headerOffset + of_nat (length d)) = length d + 2"
    using assms(1) unat_len unat_header_len by (auto simp: entry_fits_def)
  then show ?thesis using assms(2) by (simp add: Push_def stack_full_def frame_def Let_def)
qed

lemma Pop_frame:
  assumes "entry_fits d" "rw st = bs @ frame d"
  shows "Pop st = (Inr d, st\<lparr>rw := bs\<rparr>)"
proof -
  have len: "unat (of_nat (length d) :: u16) = length d" "uint (of_nat (length d) :: u16) = int (length d)"
    using assms(1) unat_len uint_len by (simp_all add: entry_fits_def)
  have "le_word (drop (length (rw st) - 2) (rw st)) = (of_nat (length d) :: u16)"
    using assms(2) by (simp add: frame_def)
  then show ?thesis
    using assms(2) len by (simp add: Pop_def headerOffset_def frame_def Let_def nat_add_distrib)
qed

interpretation file_stack: byte_stack stack_repr entry_fits stack_full Push Pop
proof (unfold_locales, goal_cases)
  case (1 s ds d)
  then show ?case using Push_fits [of d s] by (auto simp: stack_repr_def)
next
  case (2 s d)
  then show ?case by (simp add: Push_def stack_full_def)
next
  case (3 s)
  then show ?case by (simp add: Pop_def stack_repr_def headerOffset_def)
next
  case (4 s ds d)
  then show ?case using Pop_frame [of d s "concat (map frame ds)"] by (auto simp: stack_repr_def)
qed

section \<open>Properties\<close>

fun push_all :: "Stack \<Rightarrow> bytes list \<Rightarrow> Stack go" where
  "push_all st [] = Inr st"
| "push_all st (d # ds) = (case Push st d of Inl p \<Rightarrow> Inl p | Inr st' \<Rightarrow> push_all st' ds)"

fun pop_all :: "nat \<Rightarrow> Stack \<Rightarrow> (stack_error + bytes) list \<times> Stack" where
  "pop_all 0 st = ([], st)"
| "pop_all (Suc n) st = (case Pop st of (r, st') \<Rightarrow> (case pop_all n st' of (rs, st'') \<Rightarrow> (r # rs, st'')))"

definition frames_size :: "bytes list \<Rightarrow> nat" where
  "frames_size ds = sum_list (map (\<lambda>d. length d + 2) ds)"

lemma push_all_frames:
  "\<forall>d \<in> set ds. entry_fits d \<Longrightarrow> int (length (rw st) + frames_size ds) \<le> mOffset st \<Longrightarrow>
   push_all st ds = Inr (st\<lparr>rw := rw st @ concat (map frame ds)\<rparr>)"
proof (induction ds arbitrary: st)
  case (Cons d ds)
  have "\<not> stack_full st" using Cons.prems(2) by (simp add: stack_full_def)
  then show ?case using Cons by (simp add: Push_fits frames_size_def frame_def)
qed simp

lemma pop_all_frames:
  "\<forall>d \<in> set ds. entry_fits d \<Longrightarrow> rw st = bs @ concat (map frame ds) \<Longrightarrow>
   pop_all (length ds) st = (map Inr (rev ds), st\<lparr>rw := bs\<rparr>)"
proof (induction ds arbitrary: st rule: rev_induct)
  case (snoc d ds)
  then have "Pop st = (Inr d, st\<lparr>rw := bs @ concat (map frame ds)\<rparr>)" using Pop_frame by simp
  then show ?case using snoc.IH [of "st\<lparr>rw := bs @ concat (map frame ds)\<rparr>"] snoc.prems by simp
qed simp

text \<open>
  C23: the file is a last-in first-out stack. Pushing entries of less than 65534 bytes each, while the
  file stays within its size limit, and popping as many times returns them newest first and restores
  the file byte for byte, whatever it held before.
\<close>

theorem stack_lifo:
  assumes "\<forall>d \<in> set ds. length d < 65534" and "int (length (rw st) + frames_size ds) \<le> mOffset st"
  shows "\<exists>st'. push_all st ds = Inr st' \<and> pop_all (length ds) st' = (map Inr (rev ds), st)"
  using push_all_frames [of ds st] pop_all_frames [of ds "st\<lparr>rw := rw st @ concat (map frame ds)\<rparr>" "rw st"] assms
  by (simp add: entry_fits_def)

theorem stack_lifo_witness:
  "\<exists>st'. push_all (InitStack [7, 7] 100) [[1], [], [2, 3]] = Inr st' \<and>
     pop_all 3 st' = ([Inr [2, 3], Inr [], Inr [1]], InitStack [7, 7] 100)"
  using stack_lifo [of "[[1], [], [2, 3]]" "InitStack [7, 7] 100"]
  by (simp add: InitStack_def frames_size_def numeral_3_eq_3)

text \<open>
  What \<open>Push\<close> does with an entry of any length. The length field has 16 bits: an entry of
  65536 bytes or more is stored as its first \<open>length mod 65536\<close> bytes without an error, and where that
  remainder is 65534 or 65535 the call panics instead.
\<close>

theorem Push_any_length:
  assumes "int (length (rw st)) \<le> mOffset st"
  shows "if length d mod 65536 < 65534
         then \<exists>st'. Push st d = Inr st' \<and> Pop st' = (Inr (take (length d mod 65536) d), st)
         else Push st d = Inl SliceOutOfRange"
proof -
  let ?r = "length d mod 65536"
  have r: "(of_nat (length d) :: u16) = of_nat ?r" "unat (of_nat ?r :: u16) = ?r"
    by (simp_all add: unat_of_nat word_of_nat_eq_iff take_bit_eq_mod)
  have nf: "\<not> stack_full st" using assms by (simp add: stack_full_def)
  show ?thesis
  proof (cases "?r < 65534")
    case True
    let ?d = "take ?r d"
    have fits: "entry_fits ?d" and len: "length ?d = ?r" using True by (auto simp: entry_fits_def)
    have "Push st d = Push st ?d" by (simp add: Push_def Let_def r len min_def del: length_take)
    then show ?thesis using True Push_fits [OF fits nf] Pop_frame [OF fits] by simp
  next
    case False
    then have "?r = 65534 \<or> ?r = 65535" by auto
    then show ?thesis
      using False nf r by (auto simp: Push_def Let_def stack_full_def headerOffset_def)
  qed
qed

theorem Push_any_length_witness:
  "Push (InitStack [] 1000) (replicate 65535 0) = Inl SliceOutOfRange"
  using Push_any_length [of "InitStack [] 1000" "replicate 65535 0"] by (simp add: InitStack_def)

text \<open>
  \<open>Pop\<close> on a file of any content: it either fails and leaves the file unchanged, or the file was
  the remaining file followed by the returned bytes and their length, so it never returns bytes that
  are not a whole trailing frame.
\<close>

theorem Pop_any_content:
  "case Pop st of (Inl e, st') \<Rightarrow> st' = st
   | (Inr d, st') \<Rightarrow> rw st = rw st' @ d @ le_bytes 2 (of_nat (length d) :: u16) \<and> length d < 65536"
proof -
  let ?bs = "rw st"
  let ?len = "le_word (drop (length ?bs - 2) ?bs) :: u16"
  let ?off = "length ?bs - 2 - unat ?len"
  have lt: "unat ?len < 65536" using unsigned_less [of ?len] by simp
  show ?thesis
  proof (cases "length ?bs < 2 \<or> int (length ?bs) - 2 - int (unat ?len) < 0")
    case True
    then show ?thesis by (auto simp: Pop_def headerOffset_def Let_def)
  next
    case False
    have ge: "2 \<le> length ?bs" "unat ?len \<le> length ?bs - 2" using False by linarith+
    define d where "d = take (unat ?len) (drop ?off ?bs)"
    have len: "length d = unat ?len" using ge by (simp add: d_def)
    have off: "nat (int (length ?bs) - 2 - int (unat ?len)) = ?off" using ge by linarith
    have P: "Pop st = (Inr d, st\<lparr>rw := take ?off ?bs\<rparr>)"
      using False off by (simp add: Pop_def headerOffset_def Let_def d_def)
    have "le_bytes 2 ?len = drop (length ?bs - 2) ?bs" using ge by (intro le_bytes_inverse) simp_all
    moreover have "take ?off ?bs @ d @ drop (length ?bs - 2) ?bs = ?bs"
      using take_window_drop [of ?off ?bs "unat ?len"] ge by (simp add: d_def)
    moreover have "(of_nat (length d) :: u16) = ?len" using len by simp
    ultimately have "rw st = take ?off ?bs @ d @ le_bytes 2 (of_nat (length d) :: u16)" by argo
    then show ?thesis unfolding P using len lt by simp
  qed
qed

end
