(* ===== verification/WorkerPool.thy ===== *)
theory WorkerPool
  imports HeapOps FileStack
begin

text \<open>
  The scheduler's worker pool (\<open>internal/utils/scheduler/workerPool.go\<close>). \<open>Submit\<close> is a function on
  the pool's state, since it runs under the pool's mutex; the goroutines (workers, the ticker that
  reloads spilled tasks, the caller of \<open>Wait\<close> and \<open>Stop\<close>) are a step relation, one rule per atomic
  action. The collection is any stack; \<open>ser\<close> and \<open>deser\<close> are \<open>Serialize\<close> and \<open>DeserializeToken\<close>
  (\<open>encoding/gob\<close>), \<open>None\<close> being an error; \<open>ts\<close> is the set of tasks that the callers of \<open>Submit\<close> have.
\<close>

section \<open>State and Submit\<close>

record ('v, 's) WorkerPool =
  collection :: 's
  buf :: nat
  buf_cap :: nat
  buf_closed :: bool
  quit_closed :: bool
  heap :: "'v minMaxHeap"
  wg :: int

definition NewWorkerPool :: "'s \<Rightarrow> nat \<Rightarrow> ('v, 's) WorkerPool" where
  "NewWorkerPool st queueCapacity =
     \<lparr>collection = st, buf = 0, buf_cap = queueCapacity, buf_closed = False, quit_closed = False,
      heap = NewMinMaxHeap, wg = 0\<rparr>"

text \<open>\<open>if data, err := t.Serialize(); err == nil { wp.collection.Push(data) }\<close>\<close>

definition spill :: "('v \<Rightarrow> bytes option) \<Rightarrow> ('s \<Rightarrow> bytes \<Rightarrow> 's go) \<Rightarrow> ('v, 's) WorkerPool \<Rightarrow> 'v \<Rightarrow> ('v, 's) WorkerPool go" where
  "spill ser push wp t =
     (case ser t of
        None \<Rightarrow> Inr wp
      | Some data \<Rightarrow>
          (case push (collection wp) data of Inl p \<Rightarrow> Inl p | Inr c \<Rightarrow> Inr (wp\<lparr>collection := c\<rparr>)))"

text \<open>A send on a closed channel panics, also inside a \<open>select\<close> with a default.\<close>

definition Submit :: "('v \<Rightarrow> f64) \<Rightarrow> ('v \<Rightarrow> bytes option) \<Rightarrow> ('s \<Rightarrow> bytes \<Rightarrow> 's go) \<Rightarrow> ('v, 's) WorkerPool \<Rightarrow> 'v \<Rightarrow> ('v, 's) WorkerPool go" where
  "Submit pr ser push wp task =
     (if buf_closed wp then Inl SendOnClosedChannel
      else if buf wp < buf_cap wp then
        Inr (wp\<lparr>buf := buf wp + 1, wg := wg wp + 1, heap := Insert pr (heap wp) task\<rparr>)
      else
        (case GetMin (heap wp) of
           Some worst \<Rightarrow>
             if fgt (pr task) (pr worst) then
               spill ser push (wp\<lparr>heap := Insert pr (snd (DeleteMin pr (heap wp))) task\<rparr>) worst
             else spill ser push wp task
         | None \<Rightarrow> Inr wp))"

text \<open>\<open>backup\<close> serializes every pointer of \<open>heap.tokens()\<close>; \<open>Serialize\<close> on a nil token panics.\<close>

fun backup_tokens :: "('v \<Rightarrow> bytes option) \<Rightarrow> ('s \<Rightarrow> bytes \<Rightarrow> 's go) \<Rightarrow> ('v, 's) WorkerPool \<Rightarrow> 'v option list \<Rightarrow> ('v, 's) WorkerPool go" where
  "backup_tokens ser push wp [] = Inr wp"
| "backup_tokens ser push wp (None # ts) = Inl NilDereference"
| "backup_tokens ser push wp (Some t # ts) =
     (case spill ser push wp t of Inl p \<Rightarrow> Inl p | Inr wp' \<Rightarrow> backup_tokens ser push wp' ts)"

definition backup :: "('v \<Rightarrow> bytes option) \<Rightarrow> ('s \<Rightarrow> bytes \<Rightarrow> 's go) \<Rightarrow> ('v, 's) WorkerPool \<Rightarrow> ('v, 's) WorkerPool go" where
  "backup ser push wp = backup_tokens ser push wp (tokens (heap wp))"

section \<open>The goroutines\<close>

text \<open>
  A worker is idle in its \<open>select\<close>, has received a slot from \<open>buf\<close>, has popped a task, or runs it
  (\<open>heapAct\<close> calls \<open>wg.Done\<close> before \<open>act\<close>). The main goroutine dispatches, then waits, closes
  \<open>quit\<close>, closes \<open>buf\<close>, waits again, backs up and closes the collection: from then on its operations fail.
\<close>

datatype 'v wstate = WIdle | WTook | WPopped 'v | WActing 'v | WExited

datatype stage = Dispatching | Draining | QuitClosed | BufClosed | Stopped

record ('v, 's) sys =
  pool :: "('v, 's) WorkerPool"
  workers :: "'v wstate list"
  ticker :: bool
  stage :: stage
  crash :: "go_panic option"

definition init_sys :: "'s \<Rightarrow> nat \<Rightarrow> nat \<Rightarrow> ('v, 's) sys" where
  "init_sys st nworkers queueCapacity =
     \<lparr>pool = NewWorkerPool st queueCapacity, workers = replicate nworkers WIdle, ticker = True,
      stage = Dispatching, crash = None\<rparr>"

definition set_pool :: "('v, 's) sys \<Rightarrow> ('v, 's) WorkerPool go \<Rightarrow> ('v, 's) sys" where
  "set_pool s r = (case r of Inl p \<Rightarrow> s\<lparr>crash := Some p\<rparr> | Inr wp \<Rightarrow> s\<lparr>pool := wp\<rparr>)"

definition set_worker :: "('v, 's) sys \<Rightarrow> nat \<Rightarrow> 'v wstate \<Rightarrow> ('v, 's) sys" where
  "set_worker s i w = s\<lparr>workers := (workers s)[i := w]\<rparr>"

definition worker_at :: "('v, 's) sys \<Rightarrow> nat \<Rightarrow> 'v wstate \<Rightarrow> bool" where
  "worker_at s i w \<longleftrightarrow> crash s = None \<and> i < length (workers s) \<and> workers s ! i = w"

text \<open>\<open>wg.Done()\<close>: a negative counter is a panic.\<close>

definition wg_done :: "('v, 's) WorkerPool \<Rightarrow> ('v, 's) WorkerPool go" where
  "wg_done wp = (if wg wp - 1 < 0 then Inl (ExplicitPanic ''sync: negative WaitGroup counter'')
                 else Inr (wp\<lparr>wg := wg wp - 1\<rparr>))"

text \<open>The slot is put back when the heap turned out empty (the inner \<open>select\<close> of the worker).\<close>

definition put_back :: "('v, 's) WorkerPool \<Rightarrow> ('v, 's) WorkerPool go" where
  "put_back wp = (if buf_closed wp then Inl SendOnClosedChannel
                  else if buf wp < buf_cap wp then Inr (wp\<lparr>buf := buf wp + 1\<rparr>) else Inr wp)"

inductive pool_step :: "'v set \<Rightarrow> ('v \<Rightarrow> f64) \<Rightarrow> ('v \<Rightarrow> bytes option) \<Rightarrow> (bytes \<Rightarrow> 'v option) \<Rightarrow> ('s \<Rightarrow> bytes \<Rightarrow> 's go) \<Rightarrow>
    ('s \<Rightarrow> (stack_error + bytes) \<times> 's) \<Rightarrow> ('v, 's) sys \<Rightarrow> ('v, 's) sys \<Rightarrow> bool"
  for ts pr ser deser push pop where
  dispatch: "crash s = None \<Longrightarrow> stage s = Dispatching \<Longrightarrow> t \<in> ts \<Longrightarrow>
    pool_step ts pr ser deser push pop s (set_pool s (Submit pr ser push (pool s) t))"
| act_submit: "worker_at s i (WActing x) \<Longrightarrow> t \<in> ts \<Longrightarrow>
    pool_step ts pr ser deser push pop s (set_pool s (Submit pr ser push (pool s) t))"
| tick_token: "crash s = None \<Longrightarrow> ticker s \<Longrightarrow> stage s \<noteq> Stopped \<Longrightarrow> pop (collection (pool s)) = (Inr data, c) \<Longrightarrow> deser data = Some t \<Longrightarrow>
    pool_step ts pr ser deser push pop s (set_pool s (Submit pr ser push ((pool s)\<lparr>collection := c\<rparr>) t))"
| tick_nothing: "crash s = None \<Longrightarrow> ticker s \<Longrightarrow> stage s \<noteq> Stopped \<Longrightarrow> pop (collection (pool s)) = (r, c) \<Longrightarrow>
    (case r of Inl e \<Rightarrow> True | Inr data \<Rightarrow> deser data = None) \<Longrightarrow>
    pool_step ts pr ser deser push pop s (s\<lparr>pool := (pool s)\<lparr>collection := c\<rparr>\<rparr>)"
| ticker_quit: "crash s = None \<Longrightarrow> ticker s \<Longrightarrow> quit_closed (pool s) \<Longrightarrow>
    pool_step ts pr ser deser push pop s (s\<lparr>ticker := False\<rparr>)"
| take_slot: "worker_at s i WIdle \<Longrightarrow> buf (pool s) > 0 \<Longrightarrow>
    pool_step ts pr ser deser push pop s (set_worker (s\<lparr>pool := (pool s)\<lparr>buf := buf (pool s) - 1\<rparr>\<rparr>) i WTook)"
| worker_exit: "worker_at s i WIdle \<Longrightarrow> quit_closed (pool s) \<or> (buf_closed (pool s) \<and> buf (pool s) = 0) \<Longrightarrow>
    pool_step ts pr ser deser push pop s (set_worker s i WExited)"
| pop_task: "worker_at s i WTook \<Longrightarrow> GetMax pr (heap (pool s)) = Some x \<Longrightarrow>
    pool_step ts pr ser deser push pop s
      (set_worker (s\<lparr>pool := (pool s)\<lparr>heap := snd (DeleteMax pr (heap (pool s)))\<rparr>\<rparr>) i (WPopped x))"
| pop_empty: "worker_at s i WTook \<Longrightarrow> GetMax pr (heap (pool s)) = None \<Longrightarrow>
    pool_step ts pr ser deser push pop s (set_worker (set_pool s (put_back (pool s))) i WIdle)"
| task_done: "worker_at s i (WPopped x) \<Longrightarrow>
    pool_step ts pr ser deser push pop s (set_worker (set_pool s (wg_done (pool s))) i (WActing x))"
| act_end: "worker_at s i (WActing x) \<Longrightarrow> st = Done \<or> st = Error \<Longrightarrow>
    pool_step ts pr ser deser push pop s (set_worker s i WIdle)"
| act_canceled: "worker_at s i (WActing x) \<Longrightarrow>
    pool_step ts pr ser deser push pop s
      (set_worker (set_pool s (if stage s = Stopped then Inr (pool s) else spill ser push (pool s) x)) i WIdle)"
| cancel: "crash s = None \<Longrightarrow> stage s = Dispatching \<Longrightarrow>
    pool_step ts pr ser deser push pop s (s\<lparr>stage := Draining\<rparr>)"
| close_quit: "crash s = None \<Longrightarrow> stage s = Draining \<Longrightarrow> wg (pool s) = 0 \<Longrightarrow>
    pool_step ts pr ser deser push pop s (s\<lparr>stage := QuitClosed, pool := (pool s)\<lparr>quit_closed := True\<rparr>\<rparr>)"
| close_buf: "crash s = None \<Longrightarrow> stage s = QuitClosed \<Longrightarrow>
    pool_step ts pr ser deser push pop s (s\<lparr>stage := BufClosed, pool := (pool s)\<lparr>buf_closed := True\<rparr>\<rparr>)"
| stop_backup: "crash s = None \<Longrightarrow> stage s = BufClosed \<Longrightarrow> wg (pool s) = 0 \<Longrightarrow>
    pool_step ts pr ser deser push pop s (set_pool (s\<lparr>stage := Stopped\<rparr>) (backup ser push (pool s)))"

inductive pool_reachable :: "'v set \<Rightarrow> ('v \<Rightarrow> f64) \<Rightarrow> ('v \<Rightarrow> bytes option) \<Rightarrow> (bytes \<Rightarrow> 'v option) \<Rightarrow> ('s \<Rightarrow> bytes \<Rightarrow> 's go) \<Rightarrow>
    ('s \<Rightarrow> (stack_error + bytes) \<times> 's) \<Rightarrow> ('v, 's) sys \<Rightarrow> ('v, 's) sys \<Rightarrow> bool"
  for ts pr ser deser push pop s0 where
  reach_start: "pool_reachable ts pr ser deser push pop s0 s0"
| reach_step: "pool_reachable ts pr ser deser push pop s0 s \<Longrightarrow> pool_step ts pr ser deser push pop s s' \<Longrightarrow>
    pool_reachable ts pr ser deser push pop s0 s'"

section \<open>Lengths, with any priorities\<close>

lemma length_bubbleUpMin [simp]: "length (bubbleUpMin pr d i) = length d"
  by (induction pr d i rule: bubbleUpMin.induct) (subst bubbleUpMin.simps, simp add: Let_def)

lemma length_bubbleUpMax [simp]: "length (bubbleUpMax pr d i) = length d"
  by (induction pr d i rule: bubbleUpMax.induct) (subst bubbleUpMax.simps, simp add: Let_def)

lemma length_trickleDownMin [simp]: "length (trickleDownMin pr n d i) = length d"
  by (induction pr n d i rule: trickleDownMin.induct)
    (subst trickleDownMin.simps, auto simp: Let_def split: option.splits)

lemma length_trickleDownMax [simp]: "length (trickleDownMax pr n d i) = length d"
  by (induction pr n d i rule: trickleDownMax.induct)
    (subst trickleDownMax.simps, auto simp: Let_def split: option.splits)

definition heap_sized :: "'v minMaxHeap \<Rightarrow> bool" where
  "heap_sized h \<longleftrightarrow> heap_len h = length (heap_data h)"

lemma heap_sized_ops:
  assumes "heap_sized h"
  shows "heap_sized (Insert pr h v)" "heap_len (Insert pr h v) = heap_len h + 1"
    and "heap_sized (snd (DeleteMin pr h))" "heap_len (snd (DeleteMin pr h)) = heap_len h - 1"
    and "heap_sized (snd (DeleteMax pr h))" "heap_len (snd (DeleteMax pr h)) = heap_len h - 1"
    and "GetMin h = None \<longleftrightarrow> heap_len h = 0" "GetMax pr h = None \<longleftrightarrow> heap_len h = 0"
  using assms
  by (auto simp: heap_sized_def Insert_def bubbleUp_def DeleteMin_def DeleteMax_def trickleDown_def
      GetMin_def GetMax_eq Let_def)

lemma heap_sized_delete:
  assumes "heap_sized h"
  shows "GetMin h = Some x \<Longrightarrow> int (heap_len (snd (DeleteMin pr h))) = int (heap_len h) - 1"
    and "GetMax pr h = Some y \<Longrightarrow> int (heap_len (snd (DeleteMax pr h))) = int (heap_len h) - 1"
  using heap_sized_ops(4,6) [OF assms, of pr] heap_sized_ops(7) [OF assms] heap_sized_ops(8) [OF assms, of pr]
  by (cases "heap_len h"; simp)+

section \<open>Accounting of slots and tasks\<close>

definition took :: "'v wstate list \<Rightarrow> int" where
  "took ws = int (length (filter (\<lambda>w. case w of WTook \<Rightarrow> True | _ \<Rightarrow> False) ws))"

definition popped :: "'v wstate list \<Rightarrow> int" where
  "popped ws = int (length (filter (\<lambda>w. case w of WPopped _ \<Rightarrow> True | _ \<Rightarrow> False) ws))"

lemma took_update: "i < length ws \<Longrightarrow> took (ws[i := w]) = took ws
    + (case w of WTook \<Rightarrow> 1 | _ \<Rightarrow> 0) - (case ws ! i of WTook \<Rightarrow> 1 | _ \<Rightarrow> 0)"
  by (simp add: took_def length_filter_update split: wstate.splits)

lemma popped_update: "i < length ws \<Longrightarrow> popped (ws[i := w]) = popped ws
    + (case w of WPopped _ \<Rightarrow> 1 | _ \<Rightarrow> 0) - (case ws ! i of WPopped _ \<Rightarrow> 1 | _ \<Rightarrow> 0)"
  by (simp add: popped_def length_filter_update split: wstate.splits)

lemma counts_nonneg [simp]: "took ws \<ge> 0" "popped ws \<ge> 0"
  by (simp_all add: took_def popped_def)

definition pool_ok :: "int \<Rightarrow> int \<Rightarrow> ('v, 's) WorkerPool \<Rightarrow> bool" where
  "pool_ok t p wp \<longleftrightarrow> heap_sized (heap wp) \<and> int (heap_len (heap wp)) = int (buf wp) + t \<and>
     wg wp = int (heap_len (heap wp)) + p \<and> buf wp \<le> buf_cap wp"

definition accounting :: "('v, 's) sys \<Rightarrow> bool" where
  "accounting s \<longleftrightarrow> pool_ok (took (workers s)) (popped (workers s)) (pool s) \<and>
     (buf_closed (pool s) \<longleftrightarrow> stage s \<in> {BufClosed, Stopped}) \<and>
     (quit_closed (pool s) \<longleftrightarrow> stage s \<in> {QuitClosed, BufClosed, Stopped})"

lemma spill_result:
  "spill ser push wp t = Inr wp' \<Longrightarrow> \<exists>c. wp' = wp\<lparr>collection := c\<rparr>"
  "spill ser push wp t = Inl e \<Longrightarrow> \<exists>c d. push c d = Inl e"
  by (auto simp: spill_def split: option.splits sum.splits intro: exI [where x = "collection wp"])

lemma pool_ok_collection [simp]: "pool_ok a b (wp\<lparr>collection := c\<rparr>) = pool_ok a b wp"
  by (simp add: pool_ok_def)

lemma pool_ok_replace:
  assumes "pool_ok a b wp" "GetMin (heap wp) = Some w"
  shows "pool_ok a b (wp\<lparr>heap := Insert pr (snd (DeleteMin pr (heap wp))) t\<rparr>)"
proof -
  have h: "heap_sized (heap wp)" using assms(1) by (simp add: pool_ok_def)
  show ?thesis
    using assms heap_sized_delete(1) [OF h assms(2), of pr] heap_sized_ops(3) [OF h, of pr]
    by (simp add: pool_ok_def heap_sized_ops)
qed

lemma Submit_pool_ok:
  assumes "Submit pr ser push wp t = Inr wp'" "pool_ok a b wp"
  shows "pool_ok a b wp' \<and> buf_closed wp' = buf_closed wp \<and> quit_closed wp' = quit_closed wp"
proof (cases "buf wp < buf_cap wp")
  case True
  then show ?thesis using assms by (auto simp: Submit_def pool_ok_def heap_sized_ops split: if_splits)
next
  case False
  show ?thesis
  proof (cases "GetMin (heap wp)")
    case None
    then show ?thesis using False assms by (simp add: Submit_def split: if_splits)
  next
    case (Some w)
    then show ?thesis
      using False assms pool_ok_replace [OF assms(2) Some]
      by (auto simp: Submit_def split: if_splits dest!: spill_result(1))
  qed
qed

lemma Submit_panic:
  "Submit pr ser push wp t = Inl e \<Longrightarrow> e = SendOnClosedChannel \<and> buf_closed wp \<or> (\<exists>c d. push c d = Inl e)"
  by (auto simp: Submit_def split: if_splits option.splits dest: spill_result(2))

lemma tokens_empty: "heap_len h = 0 \<Longrightarrow> tokens h = []"
  by (simp add: tokens_def)

inductive_cases pool_stepE: "pool_step ts pr ser deser push pop s s'"

definition pool_inv :: "('s \<Rightarrow> bytes \<Rightarrow> 's go) \<Rightarrow> ('v, 's) sys \<Rightarrow> bool" where
  "pool_inv push s \<longleftrightarrow> (case crash s of None \<Rightarrow> accounting s
     | Some e \<Rightarrow> (e = SendOnClosedChannel \<and> buf_closed (pool s)) \<or> (\<exists>c d. push c d = Inl e))"

lemma set_pool_inv:
  assumes "accounting s" "crash s = None"
    and "\<And>wp. r = Inr wp \<Longrightarrow> pool_ok (took (workers s)) (popped (workers s)) wp \<and>
        buf_closed wp = buf_closed (pool s) \<and> quit_closed wp = quit_closed (pool s)"
    and "\<And>e. r = Inl e \<Longrightarrow> e = SendOnClosedChannel \<and> buf_closed (pool s) \<or> (\<exists>c d. push c d = Inl e)"
  shows "pool_inv push (set_pool s r)"
  using assms by (cases r) (auto simp: pool_inv_def set_pool_def accounting_def)

lemma worker_step_inv:
  assumes acc: "accounting s" and w: "worker_at s i w"
    and "\<And>wp. r = Inr wp \<Longrightarrow> pool_ok (took ((workers s)[i := w'])) (popped ((workers s)[i := w'])) wp \<and>
        buf_closed wp = buf_closed (pool s) \<and> quit_closed wp = quit_closed (pool s)"
    and "\<And>e. r = Inl e \<Longrightarrow> e = SendOnClosedChannel \<and> buf_closed (pool s) \<or> (\<exists>c d. push c d = Inl e)"
  shows "pool_inv push (set_worker (set_pool s r) i w')"
  using assms by (cases r) (auto simp: pool_inv_def set_pool_def set_worker_def accounting_def worker_at_def)

lemma took_pos: "worker_at s i WTook \<Longrightarrow> took (workers s) \<ge> 1"
proof -
  assume "worker_at s i WTook"
  then have "WTook \<in> set (workers s)" by (auto simp: worker_at_def in_set_conv_nth)
  then have "filter (\<lambda>w. case w of WTook \<Rightarrow> True | _ \<Rightarrow> False) (workers s) \<noteq> []"
    by (auto simp: filter_empty_conv split: wstate.splits)
  then have "0 < took (workers s)" unfolding took_def by (simp only: of_nat_0_less_iff length_greater_0_conv not_False_eq_True)
  then show ?thesis by simp
qed

lemma GetMax_after_slot: "accounting s \<Longrightarrow> worker_at s i WTook \<Longrightarrow> GetMax pr (heap (pool s)) \<noteq> None"
  using took_pos [of s i] by (auto simp: accounting_def pool_ok_def heap_sized_ops(8))

lemma popped_pos: "worker_at s i (WPopped x) \<Longrightarrow> popped (workers s) \<ge> 1"
proof -
  assume "worker_at s i (WPopped x)"
  then have "WPopped x \<in> set (workers s)" by (auto simp: worker_at_def in_set_conv_nth)
  then have "filter (\<lambda>w. case w of WPopped _ \<Rightarrow> True | _ \<Rightarrow> False) (workers s) \<noteq> []"
    by (auto simp: filter_empty_conv split: wstate.splits)
  then have "0 < popped (workers s)" unfolding popped_def by (simp only: of_nat_0_less_iff length_greater_0_conv not_False_eq_True)
  then show ?thesis by simp
qed

lemma pool_step_inv: "pool_step ts pr ser deser push pop s s' \<Longrightarrow> pool_inv push s \<Longrightarrow> pool_inv push s'"
proof (induction rule: pool_step.induct)
  case (dispatch s t)
  then show ?case by (intro set_pool_inv) (auto simp: pool_inv_def accounting_def dest!: Submit_pool_ok Submit_panic)
next
  case (act_submit s i x t)
  then show ?case
    by (intro set_pool_inv) (auto simp: pool_inv_def accounting_def worker_at_def dest!: Submit_pool_ok Submit_panic)
next
  case (tick_token s data c t)
  then show ?case
    by (intro set_pool_inv) (auto simp: pool_inv_def accounting_def dest!: Submit_pool_ok Submit_panic)
next
  case (pop_task s i x)
  have "pool_inv push (set_worker (set_pool s (Inr ((pool s)\<lparr>heap := snd (DeleteMax pr (heap (pool s)))\<rparr>))) i (WPopped x))"
    by (rule worker_step_inv [where w = WTook])
      (use pop_task in \<open>auto simp: pool_inv_def accounting_def worker_at_def pool_ok_def took_update popped_update heap_sized_ops(5)
         heap_sized_delete(2)\<close>)
  then show ?case by (simp add: set_pool_def)
next
  case (take_slot s i)
  have "pool_inv push (set_worker (set_pool s (Inr ((pool s)\<lparr>buf := buf (pool s) - 1\<rparr>))) i WTook)"
    by (rule worker_step_inv [where w = WIdle])
      (use take_slot in \<open>auto simp: pool_inv_def accounting_def worker_at_def pool_ok_def took_update popped_update\<close>)
  then show ?case by (simp add: set_pool_def)
next
  case (worker_exit s i)
  have "pool_inv push (set_worker (set_pool s (Inr (pool s))) i WExited)"
    by (rule worker_step_inv [where w = WIdle])
      (use worker_exit in \<open>auto simp: pool_inv_def accounting_def worker_at_def pool_ok_def took_update popped_update\<close>)
  then show ?case by (simp add: set_pool_def)
next
  case (act_end s i x st)
  have "pool_inv push (set_worker (set_pool s (Inr (pool s))) i WIdle)"
    by (rule worker_step_inv [where w = "WActing x"])
      (use act_end in \<open>auto simp: pool_inv_def accounting_def worker_at_def pool_ok_def took_update popped_update\<close>)
  then show ?case by (simp add: set_pool_def)
next
  case (pop_empty s i)
  then have "accounting s" by (simp add: pool_inv_def worker_at_def)
  then have False using GetMax_after_slot pop_empty.hyps by blast
  then show ?case ..
next
  case (task_done s i x)
  then have "popped (workers s) \<ge> 1" by (rule_tac popped_pos)
  show ?case
    by (rule worker_step_inv [where w = "WPopped x"])
      (use task_done \<open>popped (workers s) \<ge> 1\<close> in \<open>auto simp: pool_inv_def accounting_def worker_at_def pool_ok_def took_update popped_update
         wg_done_def split: if_splits\<close>)
next
  case (act_canceled s i x)
  show ?case
    by (rule worker_step_inv [where w = "WActing x"])
      (use act_canceled in \<open>auto simp: pool_inv_def accounting_def worker_at_def took_update popped_update
         dest: spill_result(2) dest!: spill_result(1) split: if_splits\<close>)
next
  case (stop_backup s)
  then have "wg (pool s) = 0" "wg (pool s) = int (heap_len (heap (pool s))) + popped (workers s)"
    by (auto simp: pool_inv_def accounting_def pool_ok_def)
  then have "heap_len (heap (pool s)) = 0" using counts_nonneg(2) [of "workers s"] by linarith
  then have "backup ser push (pool s) = Inr (pool s)" by (simp add: backup_def tokens_empty)
  then show ?case using stop_backup by (auto simp: pool_inv_def accounting_def set_pool_def)
qed (auto simp: pool_inv_def accounting_def pool_ok_def)


lemma reachable_inv: "pool_reachable ts pr ser deser push pop s0 s \<Longrightarrow> pool_inv push s0 \<Longrightarrow> pool_inv push s"
  by (induction rule: pool_reachable.induct) (auto intro: pool_step_inv)

lemma init_inv: "pool_inv push (init_sys st n cap)"
  by (simp add: pool_inv_def init_sys_def accounting_def pool_ok_def NewWorkerPool_def NewMinMaxHeap_def
      heap_sized_def took_def popped_def)

lemmas init_reachable_inv = reachable_inv [OF _ init_inv]

section \<open>Properties\<close>

text \<open>
  C9: the slots of \<open>buf\<close>, the heap and the wait group agree at every moment of every run: the heap holds
  one task per free slot and per worker that took one, the wait group counts the queued and the
  popped tasks. So a worker that took a slot always finds a task, and \<open>wg.Done\<close> never panics.
\<close>

theorem pool_accounting:
  assumes "pool_reachable ts pr ser deser push pop (init_sys st n cap) s" "crash s = None"
  shows "int (heap_len (heap (pool s))) = int (buf (pool s)) + took (workers s) \<and>
    wg (pool s) = int (heap_len (heap (pool s))) + popped (workers s) \<and> buf (pool s) \<le> buf_cap (pool s) \<and>
    (\<forall>i. worker_at s i WTook \<longrightarrow> GetMax pr (heap (pool s)) \<noteq> None) \<and>
    (\<forall>i x. worker_at s i (WPopped x) \<longrightarrow> wg_done (pool s) = Inr ((pool s)\<lparr>wg := wg (pool s) - 1\<rparr>))"
proof -
  have acc: "accounting s" using init_reachable_inv [OF assms(1)] assms(2) by (simp add: pool_inv_def)
  then have "wg_done (pool s) = Inr ((pool s)\<lparr>wg := wg (pool s) - 1\<rparr>)" if "worker_at s i (WPopped x)" for i x
    using popped_pos [OF that] by (simp add: wg_done_def accounting_def pool_ok_def)
  then show ?thesis using acc GetMax_after_slot [OF acc] by (auto simp: accounting_def pool_ok_def)
qed

text \<open>One task dispatched, taken and popped by the only worker of a pool of capacity 1.\<close>

definition demo_push :: "bytes list \<Rightarrow> bytes \<Rightarrow> bytes list go" where
  "demo_push ds d = Inr (ds @ [d])"

definition demo_pop :: "bytes list \<Rightarrow> (stack_error + bytes) \<times> bytes list" where
  "demo_pop ds = (if ds = [] then (Inl EOF, ds) else (Inr (last ds), butlast ds))"

definition demo_ser :: "real \<Rightarrow> bytes option" where
  "demo_ser x = Some []"

definition demo_deser :: "bytes \<Rightarrow> real option" where
  "demo_deser d = None"

abbreviation "demo_reachable \<equiv> pool_reachable UNIV Fin demo_ser demo_deser demo_push demo_pop (init_sys [] 1 1)"

definition demo_sys :: "nat \<Rightarrow> nat \<Rightarrow> real minMaxHeap \<Rightarrow> int \<Rightarrow> real wstate \<Rightarrow> stage \<Rightarrow> (real, bytes list) sys" where
  "demo_sys b c h g w st =
    \<lparr>pool = \<lparr>collection = [], buf = b, buf_cap = c, buf_closed = (st = BufClosed),
       quit_closed = (st = QuitClosed \<or> st = BufClosed), heap = h, wg = g\<rparr>,
     workers = [w], ticker = True, stage = st, crash = None\<rparr>"

lemmas demo_simps = demo_sys_def worker_at_def set_pool_def set_worker_def Submit_def wg_done_def

abbreviation "demo_heap \<equiv> Insert Fin NewMinMaxHeap (5::real)"

lemma demo_next:
  "demo_reachable s \<Longrightarrow> pool_step UNIV Fin demo_ser demo_deser demo_push demo_pop s s' \<Longrightarrow> s' = s'' \<Longrightarrow> demo_reachable s''"
  by (auto intro: reach_step)

lemma demo_heap_ops: "GetMax Fin demo_heap = Some 5" "snd (DeleteMax Fin demo_heap) = NewMinMaxHeap"
  by (simp_all add: GetMax_def DeleteMax_def Insert_def NewMinMaxHeap_def bubbleUp_def Let_def)

lemma demo_popped: "demo_reachable (demo_sys 0 1 NewMinMaxHeap 1 (WPopped 5) Dispatching)"
proof -
  have "demo_reachable (demo_sys 0 1 NewMinMaxHeap 0 WIdle Dispatching)"
    using reach_start by (simp add: demo_sys_def init_sys_def NewWorkerPool_def)
  then have "demo_reachable (demo_sys 1 1 demo_heap 1 WIdle Dispatching)"
    by (rule demo_next) (rule dispatch [where t = 5], simp_all add: demo_simps)
  then have "demo_reachable (demo_sys 0 1 demo_heap 1 WTook Dispatching)"
    by (rule demo_next) (rule take_slot [where i = 0], simp_all add: demo_simps)
  then show ?thesis
    by (rule demo_next) (rule pop_task [where i = 0 and x = 5], simp_all add: demo_simps demo_heap_ops)
qed

theorem pool_accounting_witness:
  "wg_done (pool (demo_sys 0 1 NewMinMaxHeap 1 (WPopped 5) Dispatching)) =
   Inr ((pool (demo_sys 0 1 NewMinMaxHeap 1 (WPopped 5) Dispatching))\<lparr>wg := 0\<rparr>)"
proof -
  let ?s = "demo_sys 0 1 NewMinMaxHeap 1 (WPopped 5) Dispatching"
  have "crash ?s = None" by (simp add: demo_sys_def)
  from pool_accounting [OF demo_popped this] have "worker_at ?s 0 (WPopped 5) \<longrightarrow>
      wg_done (pool ?s) = Inr ((pool ?s)\<lparr>wg := wg (pool ?s) - 1\<rparr>)" by blast
  then show ?thesis by (simp add: demo_sys_def worker_at_def)
qed


lemma demo_acting: "demo_reachable (demo_sys 0 1 NewMinMaxHeap 0 (WActing 5) BufClosed)"
proof -
  note demo_popped
  then have "demo_reachable (demo_sys 0 1 NewMinMaxHeap 0 (WActing 5) Dispatching)"
    by (rule demo_next) (rule task_done [where i = 0 and x = 5], simp_all add: demo_simps)
  then have "demo_reachable (demo_sys 0 1 NewMinMaxHeap 0 (WActing 5) Draining)"
    by (rule demo_next) (rule cancel, simp_all add: demo_simps)
  then have "demo_reachable (demo_sys 0 1 NewMinMaxHeap 0 (WActing 5) QuitClosed)"
    by (rule demo_next) (rule close_quit, simp_all add: demo_simps)
  then show ?thesis
    by (rule demo_next) (rule close_buf, simp_all add: demo_simps)
qed

text \<open>
  C35: that crash is reachable: a task's \<open>wg.Done\<close> runs before its \<open>act\<close>, so \<open>Wait\<close> returns and \<open>Stop\<close>
  closes \<open>buf\<close> while the task is still running and goes on to submit the links it found.
\<close>

theorem stop_races_with_running_task:
  "\<exists>s. pool_reachable UNIV Fin demo_ser demo_deser demo_push demo_pop (init_sys [] 1 1) s \<and> crash s = Some SendOnClosedChannel"
proof -
  let ?s = "demo_sys 0 1 NewMinMaxHeap 0 (WActing 5) BufClosed"
  have "demo_reachable (?s\<lparr>crash := Some SendOnClosedChannel\<rparr>)"
    by (rule demo_next [OF demo_acting]) (rule act_submit [where i = 0 and x = 5 and t = 5], simp_all add: demo_simps)
  then show ?thesis by (auto intro!: exI)
qed


text \<open>
  C34: \<open>Submit\<close> on a full pool keeps the best tasks: of the queued tasks and the new one, one of least
  priority is spilled to the collection and exactly the others stay queued, the heap being in order.
\<close>

theorem Submit_full_keeps_best:
  assumes inv: "heap_inv pr (heap wp)" and full: "buf wp = buf_cap wp" "\<not> buf_closed wp"
    and ne: "heap_items (heap wp) \<noteq> {#}" and t: "pr t \<noteq> NaN"
  shows "\<exists>w h'. Submit pr ser push wp t = spill ser push (wp\<lparr>heap := h'\<rparr>) w \<and> heap_inv pr h' \<and>
    add_mset w (heap_items h') = add_mset t (heap_items (heap wp)) \<and> (\<forall>y \<in># heap_items h'. pr w \<le> pr y)"
proof -
  obtain w where w: "GetMin (heap wp) = Some w" using mmh.get_min_None [OF inv] ne by auto
  have wn: "pr w \<noteq> NaN" using mmh.items_nan [OF inv] mmh.get_min_in [OF inv w] by blast
  show ?thesis
  proof (cases "fgt (pr t) (pr w)")
    case True
    then have "flt (pr w) (pr t)" by (simp add: fgt_def)
    from mmh.replace_worst [OF inv w this] show ?thesis
      using True full w mmh.get_min_in [OF inv w]
      by (intro exI [of _ w] exI [of _ "Insert pr (snd (DeleteMin pr (heap wp))) t"]) (auto simp: Submit_def)
  next
    case False
    then have "pr t \<le> pr w" using t wn by (simp add: fgt_ordered)
    then show ?thesis
      using False full w inv mmh.get_min_le [OF inv w]
      by (intro exI [of _ t] exI [of _ "heap wp"]) (auto simp: Submit_def intro: order_trans)
  qed
qed

definition demo_full_pool :: "(real, bytes list) WorkerPool" where
  "demo_full_pool = (NewWorkerPool [] 2)\<lparr>buf := 2, heap := insert_all Fin [4, 7]\<rparr>"

theorem Submit_full_keeps_best_witness:
  "\<exists>w h'. Submit Fin demo_ser demo_push demo_full_pool 5 = spill demo_ser demo_push (demo_full_pool\<lparr>heap := h'\<rparr>) w \<and>
     add_mset w (heap_items h') = {#4, 5, 7#}"
proof -
  have i: "heap_inv Fin (heap demo_full_pool) \<and> heap_items (heap demo_full_pool) = mset [4, 7]"
    using insert_all_inv [of "[4, 7]" Fin] by (simp add: demo_full_pool_def NewWorkerPool_def)
  have "buf demo_full_pool = buf_cap demo_full_pool" "\<not> buf_closed demo_full_pool"
    by (simp_all add: demo_full_pool_def NewWorkerPool_def)
  from Submit_full_keeps_best [OF conjunct1 [OF i] this, of 5 demo_ser demo_push] i show ?thesis
    by (fastforce simp: add_mset_commute)
qed

text \<open>
  With the scraper's file stack as the collection, a spilled task is not lost: as long as the file
  has room, the next \<open>Pop\<close> returns its bytes and restores the file.
\<close>

theorem spilled_task_reloads:
  assumes "ser w = Some d" "entry_fits d" "stack_repr (collection wp) ds" "\<not> stack_full (collection wp)"
  shows "\<exists>wp' st. spill ser Push wp w = Inr wp' \<and> Pop (collection wp') = (Inr d, st) \<and> stack_repr st ds \<and> heap wp' = heap wp"
  using file_stack.push_pop [OF assms(3,2,4)] assms(1) by (auto simp: spill_def)

theorem spilled_task_reloads_witness:
  "\<exists>wp' st. spill (\<lambda>x. Some [1, 2]) Push (NewWorkerPool (InitStack [] 100) 1) (5::real) = Inr wp' \<and>
     Pop (collection wp') = (Inr [1, 2], st)"
  using spilled_task_reloads [of "\<lambda>x::real. Some [1, 2]" 5 "[1, 2]" "NewWorkerPool (InitStack [] 100) 1" "[]"]
  by (auto simp: NewWorkerPool_def InitStack_def entry_fits_def stack_repr_def stack_full_def)

end
