(* ===== verification/PoolTasks.thy ===== *)
theory PoolTasks
  imports WorkerPool
begin

text \<open>
  What becomes of the tasks of the worker pool: which tasks a state holds, and that no step loses one. The
  priorities may be any numbers, NaN included.
\<close>

section \<open>The heap as a bag, with any priorities\<close>

lemma mset_bubbleUpMin [simp]: "i < length d \<Longrightarrow> mset (bubbleUpMin pr d i) = mset d"
  by (induction pr d i rule: bubbleUpMin.induct) (subst bubbleUpMin.simps, simp add: Let_def)

lemma mset_bubbleUpMax [simp]: "i < length d \<Longrightarrow> mset (bubbleUpMax pr d i) = mset d"
  by (induction pr d i rule: bubbleUpMax.induct) (subst bubbleUpMax.simps, simp add: Let_def)

lemma mset_bubbleUp: "i < length d \<Longrightarrow> mset (bubbleUp pr d i) = mset d"
  by (simp add: bubbleUp_def Let_def)

lemma mset_trickleDownMin [simp]: "i < n \<Longrightarrow> n \<le> length d \<Longrightarrow> mset (trickleDownMin pr n d i) = mset d"
proof (induction pr n d i rule: trickleDownMin.induct)
  case (1 pr n d i)
  show ?case
  proof (cases "smallestDescendant pr d n i")
    case (Some m)
    then have m: "i < m" "m < n" "(m - 1) div 2 < length d"
      using extremeDescendant_range [of pr d n i True m] 1(3) by (auto simp: smallestDescendant_def)
    then show ?thesis
      using 1 Some by (subst trickleDownMin.simps) (auto simp: Let_def)
  qed (subst trickleDownMin.simps, simp)
qed

lemma mset_trickleDownMax [simp]: "i < n \<Longrightarrow> n \<le> length d \<Longrightarrow> mset (trickleDownMax pr n d i) = mset d"
proof (induction pr n d i rule: trickleDownMax.induct)
  case (1 pr n d i)
  show ?case
  proof (cases "largestDescendant pr d n i")
    case (Some m)
    then have m: "i < m" "m < n" "(m - 1) div 2 < length d"
      using extremeDescendant_range [of pr d n i False m] 1(3) by (auto simp: largestDescendant_def)
    then show ?thesis
      using 1 Some by (subst trickleDownMax.simps) (auto simp: Let_def)
  qed (subst trickleDownMax.simps, simp)
qed

lemma heap_items_Insert: "heap_items (Insert pr h v) = add_mset v (heap_items h)"
  by (simp add: heap_items_def Insert_def Let_def mset_bubbleUp)

lemma mset_drop_trickle:
  assumes "i < length d"
  shows "add_mset (d ! i) (mset (if i < length d - 1 then trickleDown pr (length d - 1) (drop_slot d i) i else drop_slot d i)) = mset d"
  using mset_drop_slot [OF assms] by (simp add: trickleDown_def)

lemma heap_items_DeleteMin:
  assumes "heap_sized h" "GetMin h = Some w"
  shows "heap_items h = add_mset w (heap_items (snd (DeleteMin pr h)))"
  using assms mset_drop_trickle [of 0 "heap_data h" pr]
  by (auto simp: heap_items_def DeleteMin_def GetMin_def heap_sized_def drop_slot_def Let_def split: if_splits)

lemma heap_items_DeleteMax:
  assumes "heap_sized h" "GetMax pr h = Some x"
  shows "heap_items h = add_mset x (heap_items (snd (DeleteMax pr h)))"
proof -
  let ?d = "heap_data h" and ?m = "max_slot pr (heap_data h)"
  have ne: "?d \<noteq> []" "x = ?d ! ?m" using assms(2) by (auto simp: GetMax_eq split: if_splits)
  have "snd (DeleteMax pr h) = h\<lparr>heap_len := length ?d - 1,
      heap_data := (if ?m < length ?d - 1 then trickleDown pr (length ?d - 1) (drop_slot ?d ?m) ?m else drop_slot ?d ?m)\<rparr>"
    using assms(1) ne(1) by (auto simp: DeleteMax_def heap_sized_def drop_slot_def max_slot_def Let_def)
  then show ?thesis using mset_drop_trickle [of ?m ?d pr] max_slot_range [OF ne(1), of pr] ne(2) by (simp add: heap_items_def)
qed

section \<open>The tasks of a state\<close>

text \<open>A task of \<open>G\<close> that serializes fits into an entry of the file and decodes back.\<close>

definition ser_law :: "'v set \<Rightarrow> ('v \<Rightarrow> bytes option) \<Rightarrow> (bytes \<Rightarrow> 'v option) \<Rightarrow> bool" where
  "ser_law G ser deser \<longleftrightarrow> (\<forall>t \<in> G. \<forall>d. ser t = Some d \<longrightarrow> entry_fits d \<and> deser d = Some t)"

definition stored :: "(bytes \<Rightarrow> 'v option) \<Rightarrow> Stack \<Rightarrow> 'v list \<Rightarrow> bool" where
  "stored deser st ts \<longleftrightarrow> (\<exists>ds. stack_repr st ds \<and> map deser ds = map Some ts)"

definition pending :: "(bytes \<Rightarrow> 'v option) \<Rightarrow> ('v, Stack) WorkerPool \<Rightarrow> 'v multiset \<Rightarrow> bool" where
  "pending deser wp M \<longleftrightarrow> heap_sized (heap wp) \<and> (\<exists>ts. stored deser (collection wp) ts \<and> M = heap_items (heap wp) + mset ts)"

fun hand :: "'v wstate \<Rightarrow> 'v multiset" where
  "hand (WPopped x) = {#x#}"
| "hand (WActing x) = {#x#}"
| "hand w = {#}"

definition held :: "'v wstate list \<Rightarrow> 'v multiset" where
  "held ws = sum_list (map hand ws)"

definition holds :: "'v set \<Rightarrow> (bytes \<Rightarrow> 'v option) \<Rightarrow> ('v, Stack) sys \<Rightarrow> 'v multiset \<Rightarrow> bool" where
  "holds G deser s M \<longleftrightarrow> (\<exists>P. pending deser (pool s) P \<and> M = P + held (workers s)) \<and> set_mset M \<subseteq> G"

text \<open>The tasks that can be written to the file.\<close>

definition storable :: "('v \<Rightarrow> bytes option) \<Rightarrow> 'v multiset \<Rightarrow> 'v multiset" where
  "storable ser M = filter_mset (\<lambda>x. ser x \<noteq> None) M"

lemma storable_sub [simp]: "storable ser M \<subseteq># M"
  by (simp add: storable_def)

lemma storable_add: "storable ser (M + N) = storable ser M + storable ser N" "storable ser (add_mset x M) = (if ser x = None then storable ser M else add_mset x (storable ser M))"
  by (simp_all add: storable_def)

lemma held_update: "i < length ws \<Longrightarrow> held (ws[i := w]) + hand (ws ! i) = held ws + hand w"
  by (induction ws arbitrary: i) (auto simp: held_def nth_Cons' list_update_code split: nat.splits)

lemma spill_pending:
  assumes law: "ser_law G ser deser" and s: "spill ser Push wp t = Inr wp'" and p: "pending deser wp M" and t: "t \<in> G"
  shows "\<exists>M'. pending deser wp' M' \<and> M \<subseteq># M' \<and> M' \<subseteq># add_mset t M \<and> (ser t \<noteq> None \<and> \<not> stack_full (collection wp) \<longrightarrow> M' = add_mset t M)"
proof (cases "ser t")
  case None
  then show ?thesis using s p by (intro exI [of _ M]) (auto simp: spill_def)
next
  case (Some d)
  have d: "entry_fits d" "deser d = Some t" using law Some t by (auto simp: ser_law_def)
  obtain ts ds where ts: "stack_repr (collection wp) ds" "map deser ds = map Some ts" "M = heap_items (heap wp) + mset ts" "heap_sized (heap wp)"
    using p by (auto simp: pending_def stored_def)
  show ?thesis
  proof (cases "stack_full (collection wp)")
    case True
    then show ?thesis using s p Some file_stack.push_dropped [OF True] by (intro exI [of _ M]) (auto simp: spill_def)
  next
    case False
    obtain st where st: "Push (collection wp) d = Inr st" "stack_repr st (ds @ [d])"
      using file_stack.push_stored [OF ts(1) d(1) False] by blast
    then have "wp' = wp\<lparr>collection := st\<rparr>" using s Some by (simp add: spill_def)
    moreover have "stored deser st (ts @ [t])" unfolding stored_def using st(2) ts(2) d(2) by (intro exI [of _ "ds @ [d]"]) simp
    ultimately have "pending deser wp' (add_mset t M)" using ts(3,4) by (auto simp: pending_def intro!: exI [of _ "ts @ [t]"])
    then show ?thesis by (intro exI [of _ "add_mset t M"]) simp
  qed
qed

lemma Submit_pending:
  assumes law: "ser_law G ser deser" and s: "Submit pr ser Push wp t = Inr wp'" and p: "pending deser wp M" and ne: "buf wp = buf_cap wp \<longrightarrow> heap_len (heap wp) \<noteq> 0" "buf wp \<le> buf_cap wp"
    and G: "set_mset (add_mset t M) \<subseteq> G"
  shows "\<exists>M'. pending deser wp' M' \<and> M' \<subseteq># add_mset t M \<and> (\<not> stack_full (collection wp) \<longrightarrow> storable ser (add_mset t M) \<subseteq># M')"
proof -
  have sized: "heap_sized (heap wp)" and open': "\<not> buf_closed wp" using p s by (auto simp: pending_def Submit_def split: if_splits)
  show ?thesis
  proof (cases "buf wp < buf_cap wp")
    case True
    then have "wp' = wp\<lparr>buf := buf wp + 1, wg := wg wp + 1, heap := Insert pr (heap wp) t\<rparr>" using s open' by (simp add: Submit_def)
    then have "pending deser wp' (add_mset t M)" using p heap_sized_ops(1) [OF sized] by (auto simp: pending_def heap_items_Insert)
    then show ?thesis by (intro exI [of _ "add_mset t M"]) simp
  next
    case False
    then obtain w where w: "GetMin (heap wp) = Some w" using ne heap_sized_ops(7) [OF sized] by (cases "GetMin (heap wp)") auto
    show ?thesis
    proof (cases "fgt (pr t) (pr w)")
      case True
      let ?wp = "wp\<lparr>heap := Insert pr (snd (DeleteMin pr (heap wp))) t\<rparr>"
      have s': "spill ser Push ?wp w = Inr wp'" using s False w True open' by (simp add: Submit_def)
      obtain ts where ts: "stored deser (collection wp) ts" "M = heap_items (heap wp) + mset ts" using p by (auto simp: pending_def)
      let ?M = "add_mset t (heap_items (snd (DeleteMin pr (heap wp))) + mset ts)"
      have p': "pending deser ?wp ?M" using ts(1) heap_sized_ops(1) [OF heap_sized_ops(3) [OF sized]] by (auto simp: pending_def heap_items_Insert)
      have wG: "w \<in> G" using G ts(2) heap_items_DeleteMin [OF sized w, of pr] by auto
      from spill_pending [OF law s' p' wG] obtain M' where M': "pending deser wp' M'" "?M \<subseteq># M'" "M' \<subseteq># add_mset w ?M"
        "ser w \<noteq> None \<and> \<not> stack_full (collection wp) \<longrightarrow> M' = add_mset w ?M" by auto
      have e: "add_mset t M = add_mset w ?M" using ts(2) heap_items_DeleteMin [OF sized w, of pr] by simp
      have "storable ser (add_mset t M) \<subseteq># M'" if "\<not> stack_full (collection wp)"
      proof (cases "ser w = None")
        case True
        then have "storable ser (add_mset t M) = storable ser ?M" unfolding e by (simp add: storable_add(2))
        then show ?thesis using M'(2) storable_sub subset_mset.order_trans by metis
      next
        case False
        then have "M' = add_mset t M" using M'(4) that e by simp
        then show ?thesis by simp
      qed
      then show ?thesis using M'(1,3) unfolding e by blast
    next
      case nb: False
      have s': "spill ser Push wp t = Inr wp'" using s False w nb open' by (simp add: Submit_def)
      have tG: "t \<in> G" using G by simp
      from spill_pending [OF law s' p tG] obtain M' where M': "pending deser wp' M'" "M \<subseteq># M'" "M' \<subseteq># add_mset t M"
        "ser t \<noteq> None \<and> \<not> stack_full (collection wp) \<longrightarrow> M' = add_mset t M" by auto
      have "storable ser (add_mset t M) \<subseteq># M'" if "\<not> stack_full (collection wp)"
      proof (cases "ser t = None")
        case True
        then have "storable ser (add_mset t M) = storable ser M" by (simp add: storable_add(2))
        then show ?thesis using M'(2) storable_sub subset_mset.order_trans by metis
      next
        case False
        then have "M' = add_mset t M" using M'(4) that by simp
        then show ?thesis by simp
      qed
      then show ?thesis using M'(1,3) by blast
    qed
  qed
qed

section \<open>Steps\<close>

text \<open>What a step does to the tasks: from \<open>M\<close> to \<open>M'\<close>.\<close>

definition keeps_tasks :: "('v \<Rightarrow> bytes option) \<Rightarrow> ('v, Stack) sys \<Rightarrow> 'v multiset \<Rightarrow> ('v, Stack) sys \<Rightarrow> 'v multiset \<Rightarrow> bool" where
  "keeps_tasks ser s M s' M' \<longleftrightarrow> storable ser M \<subseteq># M' \<or>
     (\<exists>i x. worker_at s i (WActing x) \<and> s' = set_worker s i WIdle \<and> M = add_mset x M')"

lemma holds_same: "pool s' = pool s \<Longrightarrow> workers s' = workers s \<Longrightarrow> holds G deser s' M = holds G deser s M"
  by (simp add: holds_def)

lemma keeps_same: "keeps_tasks ser s M s' M"
  by (simp add: keeps_tasks_def)

lemma pending_pool: "heap wp' = heap wp \<Longrightarrow> collection wp' = collection wp \<Longrightarrow> pending deser wp' M = pending deser wp M"
  by (simp add: pending_def)

lemma holds_worker:
  assumes "pending deser wp' P'" "i < length (workers s)" "pool s' = wp'" "workers s' = (workers s)[i := w]"
    and "P' + hand w = P + hand (workers s ! i)" and G: "set_mset (P + held (workers s)) \<subseteq> G"
  shows "holds G deser s' (P + held (workers s))"
proof -
  have "P' + held ((workers s)[i := w]) + hand (workers s ! i) = P + held (workers s) + hand (workers s ! i)"
    using held_update [OF assms(2), of w] assms(5) by (metis add.assoc add.commute)
  then have "P' + held ((workers s)[i := w]) = P + held (workers s)" by simp
  then show ?thesis using assms(1,3,4) G unfolding holds_def by metis
qed

lemma Pop_entry:
  assumes "stored deser st ts" "Pop st = (Inr data, c)"
  shows "\<exists>t ts'. deser data = Some t \<and> ts = ts' @ [t] \<and> stored deser c ts'"
proof -
  obtain ds where ds: "stack_repr st ds" "map deser ds = map Some ts" using assms(1) by (auto simp: stored_def)
  have "ds \<noteq> []" using assms(2) file_stack.pop_empty [of st] ds(1) by auto
  then obtain ds' d where d: "ds = ds' @ [d]" by (metis rev_exhaust)
  then obtain st' where "Pop st = (Inr d, st')" "stack_repr st' ds'" using file_stack.pop_newest [of st ds' d] ds(1) by blast
  then have c: "data = d" "stack_repr c ds'" using assms(2) by auto
  obtain ts' t where "ts = ts' @ [t]" "map deser ds' = map Some ts'" "deser d = Some t"
    using ds(2) d by (cases ts rule: rev_cases) auto
  then show ?thesis using c by (auto simp: stored_def)
qed

lemma Pop_error: "Pop st = (Inl e, c) \<Longrightarrow> c = st"
  by (auto simp: Pop_def Let_def split: if_splits)

lemma Pop_full: "Pop st = (r, c) \<Longrightarrow> stack_full c \<Longrightarrow> stack_full st"
  by (auto simp: Pop_def Let_def stack_full_def split: if_splits)

lemma set_pool_crash: "crash (set_pool s r) = None \<Longrightarrow> crash s = None \<Longrightarrow> \<exists>wp. r = Inr wp \<and> set_pool s r = s\<lparr>pool := wp\<rparr>"
  by (cases r) (auto simp: set_pool_def)

lemma Submit_cap: "Submit pr ser push wp t = Inr wp' \<Longrightarrow> buf_cap wp' = buf_cap wp"
  by (auto simp: Submit_def split: if_splits option.splits dest!: spill_result(1))

lemma slot_has_task: "accounting s \<Longrightarrow> 0 < buf_cap (pool s) \<Longrightarrow> buf (pool s) = buf_cap (pool s) \<longrightarrow> heap_len (heap (pool s)) \<noteq> 0"
proof -
  assume a: "accounting s" "0 < buf_cap (pool s)"
  then have "int (heap_len (heap (pool s))) = int (buf (pool s)) + took (workers s)" by (simp add: accounting_def pool_ok_def)
  then show ?thesis using counts_nonneg(1) [of "workers s"] a(2) by linarith
qed

lemma nothing_left:
  assumes "accounting s" "wg (pool s) = 0"
  shows "heap_len (heap (pool s)) = 0" "buf (pool s) = 0" "took (workers s) = 0" "popped (workers s) = 0"
proof -
  have "int (heap_len (heap (pool s))) = int (buf (pool s)) + took (workers s)" "int (heap_len (heap (pool s))) + popped (workers s) = 0"
    using assms by (simp_all add: accounting_def pool_ok_def)
  then show "heap_len (heap (pool s)) = 0" "buf (pool s) = 0" "took (workers s) = 0" "popped (workers s) = 0"
    using counts_nonneg [of "workers s"] by linarith+
qed

lemma submit_step_holds:
  assumes law: "ser_law G ser deser" and acc: "accounting s" "crash s = None" "0 < buf_cap (pool s)"
    and p: "pending deser ((pool s)\<lparr>collection := c\<rparr>) P" and s': "s' = set_pool s (Submit pr ser Push ((pool s)\<lparr>collection := c\<rparr>) t)" "crash s' = None"
    and G: "set_mset (add_mset t P + held (workers s)) \<subseteq> G"
  shows "\<exists>P'. holds G deser s' (P' + held (workers s)) \<and> buf_cap (pool s') = buf_cap (pool s) \<and>
    (\<not> stack_full c \<longrightarrow> storable ser (add_mset t P) \<subseteq># P')"
proof -
  obtain wp' where wp': "Submit pr ser Push ((pool s)\<lparr>collection := c\<rparr>) t = Inr wp'" "s' = s\<lparr>pool := wp'\<rparr>"
    using set_pool_crash [of s] s' acc(2) by metis
  have b: "buf (pool s) \<le> buf_cap (pool s)" using acc(1) by (simp add: accounting_def pool_ok_def)
  obtain P' where P': "pending deser wp' P'" "P' \<subseteq># add_mset t P" "\<not> stack_full c \<longrightarrow> storable ser (add_mset t P) \<subseteq># P'"
    using Submit_pending [OF law wp'(1) p] slot_has_task [OF acc(1,3)] b G by auto
  have "set_mset (P' + held (workers s)) \<subseteq> G" using G set_mset_mono [OF P'(2)] by auto
  then show ?thesis using wp'(2) P' Submit_cap [OF wp'(1)] by (auto simp: holds_def)
qed

lemma keeps_after_submit:
  assumes "storable ser P0 \<subseteq># P'" "M = P0 + held (workers s)"
  shows "keeps_tasks ser s M s' (P' + held (workers s))"
  unfolding keeps_tasks_def assms(2) storable_add using assms(1) by (simp add: subset_mset.add_mono)

lemma holds_step:
  assumes law: "ser_law G ser deser" and acc: "accounting s" "crash s = None" "0 < buf_cap (pool s)" and M: "holds G deser s M"
    and step: "pool_step G pr ser deser Push Pop s s'" and live: "crash s' = None"
  shows "\<exists>M'. holds G deser s' M' \<and> buf_cap (pool s') = buf_cap (pool s) \<and> (\<not> stack_full (collection (pool s)) \<longrightarrow> keeps_tasks ser s M s' M')"
proof -
  obtain P where P: "pending deser (pool s) P" "M = P + held (workers s)" and G: "set_mset (P + held (workers s)) \<subseteq> G" using M by (auto simp: holds_def)
  have sub: "storable ser P \<subseteq># P'" if "storable ser (add_mset t P) \<subseteq># P'" for P P' and t
  proof (rule subset_mset.order_trans [OF _ that])
    show "storable ser P \<subseteq># storable ser (add_mset t P)" by (simp add: storable_add(2))
  qed
  have same: "\<exists>M'. holds G deser s' M' \<and> buf_cap (pool s') = buf_cap (pool s) \<and> (\<not> stack_full (collection (pool s)) \<longrightarrow> keeps_tasks ser s M s' M')"
    if "holds G deser s' M" "buf_cap (pool s') = buf_cap (pool s)" using that keeps_same by blast
  have submitted: ?thesis if "s' = set_pool s (Submit pr ser Push (pool s) t)" "t \<in> G" for t
  proof -
    have "pending deser ((pool s)\<lparr>collection := collection (pool s)\<rparr>) P" using P(1) by simp
    from submit_step_holds [OF law acc this, of s' pr t] that live G show ?thesis
      using sub [THEN keeps_after_submit, OF _ P(2)] by auto
  qed
  show ?thesis using step
  proof (cases rule: pool_step.cases)
    case (dispatch t)
    then show ?thesis using submitted by blast
  next
    case (act_submit i x t)
    then show ?thesis using submitted by blast
  next
    case (tick_token data c t)
    obtain ts where ts: "stored deser (collection (pool s)) ts" "P = heap_items (heap (pool s)) + mset ts" "heap_sized (heap (pool s))"
      using P(1) by (auto simp: pending_def)
    obtain ts' where ts': "ts = ts' @ [t]" "stored deser c ts'" using Pop_entry [OF ts(1) tick_token(5)] tick_token(6) by auto
    have p0: "pending deser ((pool s)\<lparr>collection := c\<rparr>) (heap_items (heap (pool s)) + mset ts')" using ts(3) ts'(2) by (auto simp: pending_def)
    have e: "add_mset t (heap_items (heap (pool s)) + mset ts') = P" using ts(2) ts'(1) by simp
    show ?thesis using submit_step_holds [OF law acc p0 tick_token(1) live G [folded e]] Pop_full [OF tick_token(5)] keeps_after_submit [OF _ P(2)]
      unfolding e by blast
  next
    case (tick_nothing r c)
    obtain ts where ts: "stored deser (collection (pool s)) ts" using P(1) by (auto simp: pending_def)
    obtain e where "r = Inl e" using tick_nothing(5,6) Pop_entry [OF ts] by (cases r) auto
    then have "c = collection (pool s)" using tick_nothing(5) Pop_error by auto
    then show ?thesis using same M tick_nothing(1) by (simp add: holds_def)
  next
    case (take_slot i)
    have "holds G deser s' (P + held (workers s))"
      by (rule holds_worker [OF iffD2 [OF pending_pool P(1)], where w = WTook and i = i]) (use take_slot G in \<open>auto simp: worker_at_def set_worker_def\<close>)
    then show ?thesis using same P(2) take_slot(1) by (simp add: set_worker_def)
  next
    case (worker_exit i)
    have "holds G deser s' (P + held (workers s))"
      by (rule holds_worker [OF P(1), where w = WExited and i = i]) (use worker_exit G in \<open>auto simp: worker_at_def set_worker_def\<close>)
    then show ?thesis using same P(2) worker_exit(1) by (simp add: set_worker_def)
  next
    case (pop_task i x)
    obtain ts where ts: "stored deser (collection (pool s)) ts" "P = heap_items (heap (pool s)) + mset ts" "heap_sized (heap (pool s))"
      using P(1) by (auto simp: pending_def)
    let ?h = "snd (DeleteMax pr (heap (pool s)))"
    have "pending deser ((pool s)\<lparr>heap := ?h\<rparr>) (heap_items ?h + mset ts)"
      using ts(1) heap_sized_ops(5) [OF ts(3)] by (auto simp: pending_def)
    moreover have "heap_items ?h + mset ts + hand (WPopped x) = P + {#}" using ts(2) heap_items_DeleteMax [OF ts(3) pop_task(3)] by simp
    ultimately have "holds G deser s' (P + held (workers s))"
      by (rule_tac holds_worker [where w = "WPopped x" and i = i]) (use pop_task G in \<open>auto simp: worker_at_def set_worker_def\<close>)
    then show ?thesis using same P(2) pop_task(1) by (simp add: set_worker_def)
  next
    case (pop_empty i)
    then show ?thesis using GetMax_after_slot [OF acc(1)] by blast
  next
    case (task_done i x)
    obtain wp where wp: "wg_done (pool s) = Inr wp" "s' = set_worker (s\<lparr>pool := wp\<rparr>) i (WActing x)"
      using task_done(1) live acc(2) by (cases "wg_done (pool s)") (auto simp: set_pool_def set_worker_def)
    then have w: "heap wp = heap (pool s)" "collection wp = collection (pool s)" "buf_cap wp = buf_cap (pool s)" by (auto simp: wg_done_def split: if_splits)
    have "holds G deser s' (P + held (workers s))"
      by (rule holds_worker [OF iffD2 [OF pending_pool P(1)], where w = "WActing x" and i = i])
        (use task_done(2) wp w G in \<open>auto simp: worker_at_def set_worker_def\<close>)
    then show ?thesis using same P(2) wp w by (simp add: set_worker_def)
  next
    case (act_end i x st)
    then have i: "i < length (workers s)" "workers s ! i = WActing x" by (auto simp: worker_at_def)
    then obtain Q where "held (workers s) = add_mset x Q" "held ((workers s)[i := WIdle]) = Q"
      using held_update [OF i(1), of WIdle] by (simp add: i(2) eq_commute)
    then have "holds G deser s' (P + Q)" "M = add_mset x (P + Q)" using P G act_end(1) by (auto simp: holds_def set_worker_def)
    then show ?thesis using act_end by (auto simp: keeps_tasks_def set_worker_def intro!: exI [of _ "P + Q"])
  next
    case (act_canceled i x)
    then have i: "i < length (workers s)" "workers s ! i = WActing x" by (auto simp: worker_at_def)
    then obtain Q where Q: "held (workers s) = add_mset x Q" "held ((workers s)[i := WIdle]) = Q"
      using held_update [OF i(1), of WIdle] by (simp add: i(2) eq_commute)
    show ?thesis
    proof (cases "stage s = Stopped")
      case True
      then have "s' = set_worker s i WIdle" using act_canceled by (simp add: set_pool_def)
      moreover from this have "holds G deser s' (P + Q)" "M = add_mset x (P + Q)" using P Q G by (auto simp: holds_def set_worker_def)
      ultimately show ?thesis using act_canceled(2) by (auto simp: keeps_tasks_def set_worker_def intro!: exI [of _ "P + Q"])
    next
      case False
      then obtain wp where wp: "spill ser Push (pool s) x = Inr wp" "s' = set_worker (s\<lparr>pool := wp\<rparr>) i WIdle"
        using act_canceled(1) live acc(2) by (cases "spill ser Push (pool s) x") (auto simp: set_pool_def set_worker_def)
      have "x \<in> G" using G Q(1) by auto
      then obtain P' where P': "pending deser wp P'" "P \<subseteq># P'" "P' \<subseteq># add_mset x P" "ser x \<noteq> None \<and> \<not> stack_full (collection (pool s)) \<longrightarrow> P' = add_mset x P"
        using spill_pending [OF law wp(1) P(1)] by blast
      have G': "set_mset (P' + Q) \<subseteq> G" using G Q(1) set_mset_mono [OF P'(3)] by auto
      have "storable ser M \<subseteq># P' + Q" if "\<not> stack_full (collection (pool s))"
      proof (cases "ser x = None")
        case True
        then have "storable ser M = storable ser P + storable ser Q" by (simp add: P(2) Q(1) storable_add)
        also have "\<dots> \<subseteq># P' + Q" using P'(2) storable_sub subset_mset.order_trans by (blast intro: subset_mset.add_mono)
        finally show ?thesis .
      next
        case False
        then have "M = P' + Q" using P'(4) that by (simp add: P(2) Q(1))
        then show ?thesis by simp
      qed
      moreover have "holds G deser s' (P' + Q)" "buf_cap (pool s') = buf_cap (pool s)"
        using P'(1) Q(2) G' wp spill_result(1) [OF wp(1)] by (auto simp: holds_def set_worker_def)
      ultimately show ?thesis unfolding keeps_tasks_def by blast
    qed
  next
    case stop_backup
    then have "heap_len (heap (pool s)) = 0" using nothing_left(1) [OF acc(1)] by simp
    then have "backup ser Push (pool s) = Inr (pool s)" by (simp add: backup_def tokens_empty)
    then show ?thesis using stop_backup same M by (simp add: set_pool_def holds_def)
  qed (use same M in \<open>auto simp: holds_def pending_def\<close>)
qed

section \<open>Runs\<close>

lemma step_alive: "pool_step G pr ser deser push pop s s' \<Longrightarrow> crash s = None"
  by (cases rule: pool_step.cases) (auto simp: worker_at_def)

lemma accounting_step:
  assumes "pool_step G pr ser deser push pop s s'" "accounting s" "crash s' = None"
  shows "accounting s'"
  using pool_step_inv [OF assms(1)] assms(2,3) step_alive [OF assms(1)] by (simp add: pool_inv_def)

lemma init_accounting: "accounting (init_sys st n cap)" "crash (init_sys st n cap) = None"
  using init_inv [of _ st n cap] by (simp_all add: pool_inv_def init_sys_def)

lemma stopped_step:
  assumes step: "pool_step G pr ser deser push pop s s'" and acc: "accounting s" and live: "crash s' = None"
    and stop: "stage s = Stopped \<longrightarrow> wg (pool s) = 0"
  shows "stage s' = Stopped \<longrightarrow> wg (pool s') = 0"
proof (cases "stage s = Stopped")
  case True
  then have z: "buf_closed (pool s)" "wg (pool s) = 0" "buf (pool s) = 0" "took (workers s) = 0" "popped (workers s) = 0"
    using acc stop True nothing_left [OF acc] by (auto simp: accounting_def)
  show ?thesis using step True z live
  proof (cases rule: pool_step.cases)
    case (act_submit i x t)
    then show ?thesis using z live by (auto simp: Submit_def set_pool_def)
  next
    case (pop_task i x)
    then show ?thesis using took_pos z by fastforce
  next
    case (task_done i x)
    then show ?thesis using popped_pos z by fastforce
  next
    case (pop_empty i)
    then show ?thesis using took_pos z by fastforce
  qed (auto simp: set_worker_def set_pool_def)
next
  case False
  show ?thesis using step
  proof (cases rule: pool_step.cases)
    case stop_backup
    then have "heap_len (heap (pool s)) = 0" using nothing_left(1) [OF acc] by simp
    then have "backup ser push (pool s) = Inr (pool s)" by (simp add: backup_def tokens_empty)
    then show ?thesis using stop_backup by (simp add: set_pool_def)
  qed (use False in \<open>auto simp: set_worker_def set_pool_def split: sum.splits\<close>)
qed

lemma run_invariant:
  assumes law: "ser_law G ser deser" and start: "stored deser st ts0" "set ts0 \<subseteq> G" "0 < cap"
    and reach: "pool_reachable G pr ser deser Push Pop (init_sys st n cap) s"
  shows "crash s = None \<longrightarrow> accounting s \<and> buf_cap (pool s) = cap \<and> (stage s = Stopped \<longrightarrow> wg (pool s) = 0) \<and> (\<exists>M. holds G deser s M)"
  using reach
proof (induction rule: pool_reachable.induct)
  case reach_start
  have "pending deser (pool (init_sys st n cap)) (mset ts0)"
    using start(1) by (auto simp: pending_def init_sys_def NewWorkerPool_def NewMinMaxHeap_def heap_sized_def heap_items_def)
  moreover have "held (workers (init_sys st n cap)) = {#}" by (induction n) (simp_all add: held_def init_sys_def)
  ultimately have "holds G deser (init_sys st n cap) (mset ts0)" using start(2) by (auto simp: holds_def)
  then show ?case using init_accounting(1) by (auto simp: init_sys_def NewWorkerPool_def)
next
  case (reach_step s s')
  show ?case
  proof
    assume live: "crash s' = None"
    have i: "accounting s" "buf_cap (pool s) = cap" "stage s = Stopped \<longrightarrow> wg (pool s) = 0" "\<exists>M. holds G deser s M"
      using reach_step.IH step_alive [OF reach_step.hyps(2)] by auto
    obtain M where "holds G deser s M" using i(4) by blast
    from holds_step [OF law i(1) step_alive [OF reach_step.hyps(2)] _ this reach_step.hyps(2) live]
    obtain M' where "holds G deser s' M'" "buf_cap (pool s') = cap" using i(2) start(3) by auto
    then show "accounting s' \<and> buf_cap (pool s') = cap \<and> (stage s' = Stopped \<longrightarrow> wg (pool s') = 0) \<and> (\<exists>M. holds G deser s' M)"
      using accounting_step [OF reach_step.hyps(2) i(1) live] stopped_step [OF reach_step.hyps(2) i(1) live i(3)] by blast
  qed
qed

lemma no_task_lost:
  assumes law: "ser_law G ser deser" and start: "stored deser st ts0" "set ts0 \<subseteq> G" "0 < cap"
    and reach: "pool_reachable G pr ser deser Push Pop (init_sys st n cap) s" "crash s = None" "\<not> stack_full (collection (pool s))"
  shows "\<exists>M. holds G deser s M \<and>
    (\<forall>s'. pool_step G pr ser deser Push Pop s s' \<and> crash s' = None \<longrightarrow>
      (\<exists>M'. holds G deser s' M' \<and> (storable ser M \<subseteq># M' \<or> (\<exists>i x. worker_at s i (WActing x) \<and> s' = set_worker s i WIdle \<and> M = add_mset x M')))) \<and>
    (\<forall>i x d. worker_at s i (WActing x) \<and> stage s \<noteq> Stopped \<and> ser x = Some d \<longrightarrow>
      (\<exists>s'. pool_step G pr ser deser Push Pop s s' \<and> workers s' = (workers s)[i := WIdle] \<and> holds G deser s' M)) \<and>
    (stage s = Stopped \<longrightarrow> heap_items (heap (pool s)) = {#})"
proof -
  have i: "accounting s" "buf_cap (pool s) = cap" "stage s = Stopped \<longrightarrow> wg (pool s) = 0" "\<exists>M. holds G deser s M"
    using run_invariant [OF law start reach(1)] reach(2) by auto
  obtain M where M: "holds G deser s M" using i(4) by blast
  have steps: "\<exists>M'. holds G deser s' M' \<and> (storable ser M \<subseteq># M' \<or> (\<exists>i x. worker_at s i (WActing x) \<and> s' = set_worker s i WIdle \<and> M = add_mset x M'))"
    if "pool_step G pr ser deser Push Pop s s'" "crash s' = None" for s'
    using holds_step [OF law i(1) reach(2) _ M that] i(2) start(3) reach(3) unfolding keeps_tasks_def by auto
  have returned: "\<exists>s'. pool_step G pr ser deser Push Pop s s' \<and> workers s' = (workers s)[j := WIdle] \<and> holds G deser s' M"
    if a: "worker_at s j (WActing x)" "stage s \<noteq> Stopped" "ser x = Some d" for j x d
  proof -
    have j: "j < length (workers s)" "workers s ! j = WActing x" using a(1) by (auto simp: worker_at_def)
    obtain P where P: "pending deser (pool s) P" "M = P + held (workers s)" "set_mset M \<subseteq> G" using M by (auto simp: holds_def)
    obtain ds ts where ds: "stack_repr (collection (pool s)) ds" "map deser ds = map Some ts" using P(1) by (auto simp: pending_def stored_def)
    obtain Q where Q: "held (workers s) = add_mset x Q" "held ((workers s)[j := WIdle]) = Q"
      using held_update [OF j(1), of WIdle] by (simp add: j(2) eq_commute)
    have x: "x \<in> G" using P(2,3) Q(1) by auto
    then have d: "entry_fits d" using law a(3) by (auto simp: ser_law_def)
    obtain c where "Push (collection (pool s)) d = Inr c" using file_stack.push_stored [OF ds(1) d reach(3)] by blast
    then have sp: "spill ser Push (pool s) x = Inr ((pool s)\<lparr>collection := c\<rparr>)" using a(3) by (simp add: spill_def)
    obtain P' where P': "pending deser ((pool s)\<lparr>collection := c\<rparr>) P'" "P' = add_mset x P"
      using spill_pending [OF law sp P(1) x] a(3) reach(3) by auto
    have "pool_step G pr ser deser Push Pop s (set_worker (s\<lparr>pool := (pool s)\<lparr>collection := c\<rparr>\<rparr>) j WIdle)"
      using pool_step.act_canceled [OF a(1), of G pr ser deser Push Pop] a(2) sp by (simp add: set_pool_def)
    moreover have "holds G deser (set_worker (s\<lparr>pool := (pool s)\<lparr>collection := c\<rparr>\<rparr>) j WIdle) M"
      unfolding holds_def using P' P(2,3) Q by (auto simp: set_worker_def)
    ultimately show ?thesis by (intro exI conjI) (auto simp: set_worker_def)
  qed
  have "heap_items (heap (pool s)) = {#}" if "stage s = Stopped"
  proof -
    have "heap_len (heap (pool s)) = 0" using that i(3) nothing_left(1) [OF i(1)] by simp
    then show ?thesis using i(1) by (simp add: heap_items_def accounting_def pool_ok_def heap_sized_def)
  qed
  then show ?thesis using M steps returned by blast
qed

end
