(* ===== verification/PoolProgress.thy ===== *)
theory PoolProgress
  imports PoolTasks
begin

text \<open>
  Progress of the worker pool: left to themselves the workers run every queued task, and what can go wrong when
  the pool is stopped.
\<close>

section \<open>Worker steps\<close>

text \<open>A step of a worker that changes its state; submissions, the ticker and the main goroutine do not.\<close>

definition worker_step :: "'v set \<Rightarrow> ('v \<Rightarrow> f64) \<Rightarrow> ('v \<Rightarrow> bytes option) \<Rightarrow> (bytes \<Rightarrow> 'v option) \<Rightarrow> ('s \<Rightarrow> bytes \<Rightarrow> 's go) \<Rightarrow>
    ('s \<Rightarrow> (stack_error + bytes) \<times> 's) \<Rightarrow> ('v, 's) sys \<Rightarrow> ('v, 's) sys \<Rightarrow> bool" where
  "worker_step G pr ser deser push pop s s' \<longleftrightarrow> pool_step G pr ser deser push pop s s' \<and> workers s' \<noteq> workers s"

text \<open>How many steps the workers can make at most.\<close>

fun worker_rank :: "'v wstate \<Rightarrow> nat" where
  "worker_rank WExited = 0"
| "worker_rank WIdle = 1"
| "worker_rank (WActing x) = 2"
| "worker_rank (WPopped x) = 3"
| "worker_rank WTook = 4"

definition work :: "('v, 's) sys \<Rightarrow> nat" where
  "work s = 4 * buf (pool s) + sum_list (map worker_rank (workers s))"

lemma sum_rank_update:
  "i < length ws \<Longrightarrow> sum_list (map worker_rank (ws[i := w])) + worker_rank (ws ! i) = sum_list (map worker_rank ws) + worker_rank w"
  by (induction ws arbitrary: i) (auto simp: nth_Cons' list_update_code split: nat.splits)

lemma work_drops:
  assumes "i < length (workers s)" "workers s' = (workers s)[i := w]" "4 * buf (pool s') + worker_rank w < 4 * buf (pool s) + worker_rank (workers s ! i)"
  shows "work s' < work s"
  using sum_rank_update [OF assms(1), of w] assms(2,3) by (simp add: work_def)

lemma spill_buf: "buf (pool (set_pool s (spill ser push (pool s) x))) = buf (pool s)"
  by (cases "spill ser push (pool s) x") (auto simp: set_pool_def dest!: spill_result(1))

lemma set_pool_workers [simp]: "workers (set_pool s r) = workers s" "stage (set_pool s r) = stage s"
  by (auto simp: set_pool_def split: sum.splits)

lemma worker_step_work:
  assumes step: "worker_step G pr ser deser push pop s s'" and acc: "accounting s"
  shows "work s' < work s \<and> stage s' = stage s \<and> length (workers s') = length (workers s)"
  using step unfolding worker_step_def
proof (elim conjE)
  assume "pool_step G pr ser deser push pop s s'" and ne: "workers s' \<noteq> workers s"
  then show ?thesis
  proof (cases rule: pool_step.cases)
    case (take_slot i)
    then show ?thesis
      using work_drops [of i s s' WTook] by (auto simp: worker_at_def set_worker_def)
  next
    case (worker_exit i)
    then show ?thesis using work_drops [of i s s' WExited] by (auto simp: worker_at_def set_worker_def)
  next
    case (pop_task i x)
    then show ?thesis using work_drops [of i s s' "WPopped x"] by (auto simp: worker_at_def set_worker_def)
  next
    case (pop_empty i)
    then show ?thesis using GetMax_after_slot [OF acc] by blast
  next
    case (task_done i x)
    then have "buf (pool (set_pool s (wg_done (pool s)))) = buf (pool s)" by (auto simp: wg_done_def set_pool_def)
    then show ?thesis using task_done work_drops [of i s s' "WActing x"] by (auto simp: worker_at_def set_worker_def)
  next
    case (act_end i x st)
    then show ?thesis using work_drops [of i s s' WIdle] by (auto simp: worker_at_def set_worker_def)
  next
    case (act_canceled i x)
    have "buf (pool (set_pool s (if stage s = Stopped then Inr (pool s) else spill ser push (pool s) x))) = buf (pool s)"
      by (simp add: spill_buf) (simp add: set_pool_def)
    then show ?thesis using act_canceled work_drops [of i s s' WIdle] by (auto simp: worker_at_def set_worker_def)
  qed (use ne in auto)
qed

section \<open>A worker can always go on\<close>

lemma count_pos:
  assumes "int (length (filter P ws)) > 0"
  shows "\<exists>i < length ws. P (ws ! i)"
proof -
  have "filter P ws \<noteq> []" using assms by auto
  then show ?thesis by (auto simp: filter_empty_conv in_set_conv_nth)
qed

lemma worker_can_step:
  assumes acc: "accounting s" "crash s = None" and w: "workers s \<noteq> []" "WExited \<notin> set (workers s)" and busy: "wg (pool s) > 0"
  shows "\<exists>s'. worker_step G pr ser deser push pop s s'"
proof -
  have at: "worker_at s i (workers s ! i)" if "i < length (workers s)" for i using that acc(2) by (simp add: worker_at_def)
  have changes: "workers (set_worker s' i w) \<noteq> workers s" if "i < length (workers s)" "workers s' = workers s" "w \<noteq> workers s ! i" for s' i w
    using that by (simp add: set_worker_def) (metis nth_list_update_eq)
  show ?thesis
  proof (cases "\<exists>i < length (workers s). \<exists>x. workers s ! i = WPopped x \<or> workers s ! i = WActing x \<or> workers s ! i = WTook")
    case True
    then obtain i x where i: "i < length (workers s)" "workers s ! i = WPopped x \<or> workers s ! i = WActing x \<or> workers s ! i = WTook" by blast
    from i(2) show ?thesis
    proof (elim disjE)
      assume p: "workers s ! i = WPopped x"
      have "pool_step G pr ser deser push pop s (set_worker (set_pool s (wg_done (pool s))) i (WActing x))"
        by (rule pool_step.task_done) (use at [OF i(1)] p in simp_all)
      moreover have "workers (set_worker (set_pool s (wg_done (pool s))) i (WActing x)) \<noteq> workers s" by (rule changes [OF i(1)]) (simp_all add: p)
      ultimately show ?thesis unfolding worker_step_def by blast
    next
      assume p: "workers s ! i = WActing x"
      have "pool_step G pr ser deser push pop s (set_worker (s) i WIdle)"
        by (rule pool_step.act_end [where x = x and st = Done]) (use at [OF i(1)] p in simp_all)
      moreover have "workers (set_worker (s) i WIdle) \<noteq> workers s" by (rule changes [OF i(1)]) (simp_all add: p)
      ultimately show ?thesis unfolding worker_step_def by blast
    next
      assume p: "workers s ! i = WTook"
      then have "worker_at s i WTook" using at [OF i(1)] by simp
      then obtain y where y: "GetMax pr (heap (pool s)) = Some y" using GetMax_after_slot [OF acc(1), of i pr] by blast
      have "pool_step G pr ser deser push pop s (set_worker (s\<lparr>pool := (pool s)\<lparr>heap := snd (DeleteMax pr (heap (pool s)))\<rparr>\<rparr>) i (WPopped y))"
        by (rule pool_step.pop_task) (use at [OF i(1)] p y in simp_all)
      moreover have "workers (set_worker (s\<lparr>pool := (pool s)\<lparr>heap := snd (DeleteMax pr (heap (pool s)))\<rparr>\<rparr>) i (WPopped y)) \<noteq> workers s" by (rule changes [OF i(1)]) (simp_all add: p)
      ultimately show ?thesis unfolding worker_step_def by blast
    qed
  next
    case False
    have idle: "workers s ! i = WIdle" if "i < length (workers s)" for i
      using False that w(2) nth_mem [OF that] by (cases "workers s ! i") auto
    have "took (workers s) = 0" "popped (workers s) = 0"
      using idle by (auto simp: took_def popped_def filter_empty_conv in_set_conv_nth split: wstate.splits)
    then have "buf (pool s) > 0" using acc(1) busy by (auto simp: accounting_def pool_ok_def)
    moreover have i: "0 < length (workers s)" using w(1) by simp
    ultimately have "pool_step G pr ser deser push pop s (set_worker (s\<lparr>pool := (pool s)\<lparr>buf := buf (pool s) - 1\<rparr>\<rparr>) 0 WTook)"
      by (intro pool_step.take_slot) (use at [OF i] idle [OF i] in simp_all)
    moreover have "workers (set_worker (s\<lparr>pool := (pool s)\<lparr>buf := buf (pool s) - 1\<rparr>\<rparr>) 0 WTook) \<noteq> workers s"
      by (rule changes [OF i]) (simp_all add: idle [OF i])
    ultimately show ?thesis unfolding worker_step_def by blast
  qed
qed

text \<open>Workers exit only when the pool is stopped.\<close>

lemma exited_after_quit:
  assumes "pool_reachable G pr ser deser push pop (init_sys st n cap) s"
  shows "crash s = None \<longrightarrow> length (workers s) = n \<and> (WExited \<in> set (workers s) \<longrightarrow> quit_closed (pool s))"
  using assms
proof (induction rule: pool_reachable.induct)
  case reach_start
  then show ?case by (auto simp: init_sys_def)
next
  case (reach_step s s')
  show ?case
  proof
    assume live: "crash s' = None"
    have i: "length (workers s) = n" "WExited \<in> set (workers s) \<longrightarrow> quit_closed (pool s)" "accounting s"
      using reach_step.IH step_alive [OF reach_step.hyps(2)] init_reachable_inv [OF reach_step.hyps(1)] by (auto simp: pool_inv_def)
    have acc: "accounting s'" by (rule accounting_step [OF reach_step.hyps(2) i(3) live])
    have new: "WExited \<in> set ((workers s)[j := w]) \<Longrightarrow> w = WExited \<or> WExited \<in> set (workers s)" for j w
      using set_update_subset_insert [of "workers s" j w] by auto
    have quit: "quit_closed (pool s) \<Longrightarrow> stage s' = stage s \<Longrightarrow> quit_closed (pool s')" using i(3) acc by (auto simp: accounting_def)
    show "length (workers s') = n \<and> (WExited \<in> set (workers s') \<longrightarrow> quit_closed (pool s'))"
      using reach_step.hyps(2)
    proof (cases rule: pool_step.cases)
      case (worker_exit j)
      then show ?thesis using i acc by (auto simp: set_worker_def accounting_def)
    next
      case stop_backup
      then show ?thesis using i acc by (auto simp: accounting_def)
    qed (use i quit new in \<open>auto simp: set_worker_def\<close>)
  qed
qed

lemma worker_run:
  assumes start: "pool_reachable G pr ser deser push pop (init_sys st n cap) s"
    and run: "(worker_step G pr ser deser push pop ^^ k) s t"
  shows "pool_reachable G pr ser deser push pop (init_sys st n cap) t \<and> stage t = stage s \<and> k + work t \<le> work s"
  using run
proof (induction k arbitrary: t)
  case 0
  then show ?case using start by simp
next
  case (Suc k)
  obtain u where u: "(worker_step G pr ser deser push pop ^^ k) s u" "worker_step G pr ser deser push pop u t" using Suc.prems by auto
  have step: "pool_step G pr ser deser push pop u t" using u(2) by (simp add: worker_step_def)
  note ih = Suc.IH [OF u(1)]
  then have "accounting u" using init_reachable_inv [of G pr ser deser push pop st n cap u] step_alive [OF step] by (auto simp: pool_inv_def)
  from worker_step_work [OF u(2) this] ih show ?case using pool_reachable.reach_step [OF _ step] by auto
qed

section \<open>Properties\<close>

text \<open>
  C10: The pool makes progress: from every state that a run reaches before it is stopped, the workers can make only
  finitely many steps on their own, at most \<open>work s\<close>, and they are never stuck before the queue is empty: when no
  worker can step, no task is queued or popped, and \<open>Wait\<close> returns.
\<close>

theorem pool_drains:
  assumes "pool_reachable G pr ser deser push pop (init_sys st n cap) s" "0 < n" "stage s \<in> {Dispatching, Draining}"
    and "(worker_step G pr ser deser push pop ^^ k) s t"
  shows "k \<le> work s \<and>
    (crash t = None \<and> (\<forall>t'. \<not> worker_step G pr ser deser push pop t t') \<longrightarrow> wg (pool t) = 0 \<and> heap_items (heap (pool t)) = {#})"
proof -
  note r = worker_run [OF assms(1,4)]
  have "wg (pool t) = 0 \<and> heap_items (heap (pool t)) = {#}"
    if live: "crash t = None" and stuck: "\<forall>t'. \<not> worker_step G pr ser deser push pop t t'"
  proof -
    have acc: "accounting t" using init_reachable_inv [of G pr ser deser push pop st n cap t] r live by (auto simp: pool_inv_def)
    have w: "length (workers t) = n" "WExited \<in> set (workers t) \<longrightarrow> quit_closed (pool t)" using exited_after_quit [OF conjunct1 [OF r]] live by auto
    have "\<not> quit_closed (pool t)" using acc r assms(3) by (auto simp: accounting_def)
    then have "\<not> wg (pool t) > 0" using worker_can_step [OF acc live, of G pr ser deser push pop] stuck w assms(2) by auto
    moreover have "wg (pool t) \<ge> 0" using acc counts_nonneg(2) [of "workers t"] by (simp add: accounting_def pool_ok_def)
    ultimately have "wg (pool t) = 0" by simp
    then show ?thesis using nothing_left(1) [OF acc] acc by (simp add: heap_items_def accounting_def pool_ok_def heap_sized_def)
  qed
  then show ?thesis using r by auto
qed

text \<open>The run of \<open>WorkerPool\<close>, from its popped task on.\<close>

lemma demo_quit: "demo_reachable (demo_sys 0 1 NewMinMaxHeap 0 (WActing 5) QuitClosed)"
proof -
  note demo_popped
  then have "demo_reachable (demo_sys 0 1 NewMinMaxHeap 0 (WActing 5) Dispatching)"
    by (rule demo_next) (rule task_done [where i = 0 and x = 5], simp_all add: demo_simps)
  then have "demo_reachable (demo_sys 0 1 NewMinMaxHeap 0 (WActing 5) Draining)"
    by (rule demo_next) (rule cancel, simp_all add: demo_simps)
  then show ?thesis
    by (rule demo_next) (rule close_quit, simp_all add: demo_simps)
qed

theorem pool_drains_witness:
  "(worker_step UNIV Fin demo_ser demo_deser demo_push demo_pop ^^ 2) (demo_sys 0 1 NewMinMaxHeap 1 (WPopped 5) Dispatching) (demo_sys 0 1 NewMinMaxHeap 0 WIdle Dispatching) \<and>
   2 \<le> work (demo_sys 0 1 NewMinMaxHeap 1 (WPopped 5) Dispatching)"
proof -
  let ?s = "demo_sys 0 1 NewMinMaxHeap 1 (WPopped 5) Dispatching" and ?t = "demo_sys 0 1 NewMinMaxHeap 0 (WActing 5) Dispatching"
  let ?u = "demo_sys 0 1 NewMinMaxHeap 0 WIdle Dispatching"
  have "pool_step UNIV Fin demo_ser demo_deser demo_push demo_pop ?s (set_worker (set_pool ?s (wg_done (pool ?s))) 0 (WActing 5))"
    by (rule task_done) (simp add: demo_simps)
  then have 1: "worker_step UNIV Fin demo_ser demo_deser demo_push demo_pop ?s ?t" by (simp add: worker_step_def demo_simps)
  have "pool_step UNIV Fin demo_ser demo_deser demo_push demo_pop ?t (set_worker ?t 0 WIdle)"
    by (rule act_end [where x = 5 and st = Done]) (simp_all add: demo_simps)
  then have 2: "worker_step UNIV Fin demo_ser demo_deser demo_push demo_pop ?t ?u" by (simp add: worker_step_def demo_simps)
  have run: "(worker_step UNIV Fin demo_ser demo_deser demo_push demo_pop ^^ 2) ?s ?u"
    using 1 2 by (auto simp: numeral_2_eq_2 relcompp_apply)
  have "stage ?s \<in> {Dispatching, Draining}" by (simp add: demo_sys_def)
  then show ?thesis using pool_drains [OF demo_popped _ _ run] run by simp
qed

text \<open>
  C36: Stopping can hang: a task that is still acting when \<open>quit\<close> is closed submits a link, its worker leaves on
  \<open>quit\<close>, and \<open>Stop\<close> waits for a task that nobody will take: no goroutine can make any step.
\<close>

theorem stop_can_hang:
  "\<exists>s. demo_reachable s \<and> crash s = None \<and> stage s = BufClosed \<and> wg (pool s) = 1 \<and>
     (\<forall>s'. \<not> pool_step UNIV Fin demo_ser demo_deser demo_push demo_pop s s')"
proof -
  let ?t = "demo_sys 1 1 demo_heap 1 WExited QuitClosed"
  have "demo_reachable (demo_sys 1 1 demo_heap 1 (WActing 5) QuitClosed)"
    by (rule demo_next [OF demo_quit]) (rule act_submit [where i = 0 and x = 5 and t = 5], simp_all add: demo_simps)
  then have "demo_reachable (demo_sys 1 1 demo_heap 1 WIdle QuitClosed)"
    by (rule demo_next) (rule act_end [where i = 0 and x = 5 and st = Done], simp_all add: demo_simps)
  then have "demo_reachable ?t"
    by (rule demo_next) (rule worker_exit [where i = 0], simp_all add: demo_simps)
  then have "demo_reachable (?t\<lparr>ticker := False\<rparr>)"
    by (rule demo_next) (rule ticker_quit, simp_all add: demo_simps)
  then have r: "demo_reachable (demo_sys 1 1 demo_heap 1 WExited BufClosed\<lparr>ticker := False\<rparr>)"
    by (rule demo_next) (rule close_buf, simp_all add: demo_simps)
  have "\<not> pool_step UNIV Fin demo_ser demo_deser demo_push demo_pop (demo_sys 1 1 demo_heap 1 WExited BufClosed\<lparr>ticker := False\<rparr>) s'" for s'
    by (auto simp: demo_simps elim!: pool_stepE)
  then show ?thesis using r by (intro exI [of _ "demo_sys 1 1 demo_heap 1 WExited BufClosed\<lparr>ticker := False\<rparr>"]) (auto simp: demo_sys_def)
qed

end
