(* ===== verification/PebbleStore.thy ===== *)
theory PebbleStore
  imports GoStrings "HOL-Library.List_Lexorder" "HOL-Library.Char_ord" "HOL-Library.AList"
begin

text \<open>
  What the repository uses of the pebble database, as a parameter with its documented laws; the range
  bound \<open>prefixUpperBound\<close> of \<open>indexRepos.go\<close>; and the formats \<open>%d\<close> and \<open>%x\<close> of its keys. Keys are Go
  strings, values are byte lists. Only \<open>ErrNotFound\<close> is modelled of the errors of the database.
\<close>

section \<open>The database as a parameter\<close>

record 'db pebble =
  db_get :: "'db \<Rightarrow> string \<Rightarrow> bytes option"
  db_set :: "'db \<Rightarrow> string \<Rightarrow> bytes \<Rightarrow> 'db"
  db_range :: "'db \<Rightarrow> string \<Rightarrow> string option \<Rightarrow> (string \<times> bytes) list"

definition below :: "string \<Rightarrow> string option \<Rightarrow> bool" where
  "below k hi \<longleftrightarrow> (case hi of None \<Rightarrow> True | Some h \<Rightarrow> k < h)"

text \<open>
  A read returns the last value set; an iterator visits each key between its bounds once and in the order of
  the keys (the lower bound included, the upper one not, none meaning no bound).
\<close>

definition pebble_laws :: "'db pebble \<Rightarrow> bool" where
  "pebble_laws kv \<longleftrightarrow>
     (\<forall>d k v k'. db_get kv (db_set kv d k v) k' = (if k' = k then Some v else db_get kv d k')) \<and>
     (\<forall>d lo hi. sorted (map fst (db_range kv d lo hi)) \<and> distinct (map fst (db_range kv d lo hi)) \<and>
        set (db_range kv d lo hi) = {(k, v). db_get kv d k = Some v \<and> lo \<le> k \<and> below k hi})"

lemma get_set: "pebble_laws kv \<Longrightarrow> db_get kv (db_set kv d k v) k' = (if k' = k then Some v else db_get kv d k')"
  by (simp add: pebble_laws_def)

lemma in_range: "pebble_laws kv \<Longrightarrow> (k, v) \<in> set (db_range kv d lo hi) \<longleftrightarrow> db_get kv d k = Some v \<and> lo \<le> k \<and> below k hi"
  by (simp add: pebble_laws_def)

lemma distinct_range: "pebble_laws kv \<Longrightarrow> distinct (map fst (db_range kv d lo hi))"
  by (simp add: pebble_laws_def)

text \<open>A database with these laws, for the concrete instances: an association list.\<close>

definition list_db :: "(string \<times> bytes) list pebble" where
  "list_db = \<lparr>db_get = map_of, db_set = (\<lambda>d k v. AList.update k v d),
     db_range = (\<lambda>d lo hi. sort_key fst (filter (\<lambda>e. lo \<le> fst e \<and> below (fst e) hi) (AList.clearjunk d)))\<rparr>"

lemma list_db_laws: "pebble_laws list_db"
proof -
  have "distinct (map fst (filter P (AList.clearjunk d)))" for P and d :: "(string \<times> bytes) list"
    by (rule distinct_map_filter) (rule distinct_clearjunk)
  then have "distinct (map fst (sort_key fst (filter P (AList.clearjunk d))))" for P and d :: "(string \<times> bytes) list"
    by (metis mset_map mset_sort mset_eq_imp_distinct_iff)
  moreover have "(k, v) \<in> set (AList.clearjunk d) \<longleftrightarrow> map_of d k = Some v" for k v and d :: "(string \<times> bytes) list"
    using map_of_eq_Some_iff [OF distinct_clearjunk, of d k v] by (simp add: map_of_clearjunk)
  ultimately show ?thesis by (auto simp: pebble_laws_def list_db_def update_conv')
qed

text \<open>Databases with the same keys in a range are iterated alike.\<close>

lemma range_eq:
  assumes laws: "pebble_laws kv" and same: "\<And>k. lo \<le> k \<Longrightarrow> below k hi \<Longrightarrow> db_get kv d' k = db_get kv d k"
  shows "db_range kv d' lo hi = db_range kv d lo hi"
proof (rule map_sorted_distinct_set_unique [where f = fst])
  have set: "set (db_range kv d' lo hi) = set (db_range kv d lo hi)" using laws same by (auto simp: pebble_laws_def)
  show "inj_on fst (set (db_range kv d' lo hi) \<union> set (db_range kv d lo hi))"
    using distinct_range [OF laws, of d lo hi] by (simp add: set distinct_map)
  show "set (db_range kv d' lo hi) = set (db_range kv d lo hi)" by (rule set)
qed (use laws in \<open>simp_all add: pebble_laws_def\<close>)

section \<open>prefixUpperBound\<close>

definition inc_char :: "char \<Rightarrow> char" where
  "inc_char c = char_of (of_char c + 1 :: nat)"

fun upper_loop :: "string \<Rightarrow> nat \<Rightarrow> string option" where
  "upper_loop upper 0 = None"
| "upper_loop upper (Suc i) =
     (let upper' = upper[i := inc_char (upper ! i)]
      in if upper' ! i \<noteq> CHR 0x00 then Some (take (i + 1) upper') else upper_loop upper' i)"

definition prefixUpperBound :: "string \<Rightarrow> string option" where
  "prefixUpperBound pre = upper_loop pre (length pre)"

lemma upper_loop_take: "i \<le> n \<Longrightarrow> n \<le> length u \<Longrightarrow> upper_loop (take n u) i = upper_loop u i"
proof (induction i arbitrary: u)
  case (Suc i)
  have "(take n u)[i := x] = take n (u[i := x])" for x by (simp add: take_update_swap)
  then show ?case using Suc by (simp add: Let_def min_def)
qed simp

lemma of_inc_char: "(of_char (inc_char c) :: nat) = (of_char c + 1) mod 256"
  by (simp add: inc_char_def)

lemma char_eq_nat: "c = d \<longleftrightarrow> (of_char c :: nat) = of_char d"
  by simp

lemma char_bound: "(of_char c :: nat) < 256"
  by simp

lemma mod_zero_255: "n < 256 \<Longrightarrow> (n + 1) mod 256 = 0 \<longleftrightarrow> n = (255 :: nat)"
  by (auto dest: dvd_imp_le simp: mod_eq_0_iff_dvd)

lemma inc_char_zero: "inc_char c = CHR 0x00 \<longleftrightarrow> c = CHR 0xFF"
proof -
  have "(of_char (CHR 0x00) :: nat) = 0" "(of_char (CHR 0xFF) :: nat) = 255" by simp_all
  then show ?thesis
    unfolding char_eq_nat [of "inc_char c"] char_eq_nat [of c] of_inc_char using mod_zero_255 [OF char_bound [of c]] by simp
qed

lemma less_inc_char: "c \<noteq> CHR 0xFF \<Longrightarrow> d < inc_char c \<longleftrightarrow> d \<le> c"
proof -
  assume "c \<noteq> CHR 0xFF"
  moreover have "(of_char (CHR 0xFF) :: nat) = 255" by simp
  ultimately have "(of_char c :: nat) \<noteq> 255" unfolding char_eq_nat [of c] by simp
  then have "(of_char c :: nat) < 255" using char_bound [of c] by linarith
  then show ?thesis by (simp add: of_inc_char less_char_def less_eq_char_def less_Suc_eq_le)
qed

lemma prefixUpperBound_snoc:
  "prefixUpperBound (xs @ [c]) = (if c = CHR 0xFF then prefixUpperBound xs else Some (xs @ [inc_char c]))"
proof -
  have "upper_loop ((xs @ [c])[length xs := x]) (length xs) = upper_loop xs (length xs)" for x
    using upper_loop_take [of "length xs" "length xs" "(xs @ [c])[length xs := x]"] by simp
  then show ?thesis by (simp add: prefixUpperBound_def Let_def inc_char_zero)
qed


lemma char_le_FF: "(c :: char) \<le> CHR 0xFF"
proof -
  have "(of_char (CHR 0xFF) :: nat) = 255" by simp
  then show ?thesis unfolding less_eq_char_def using char_bound [of c] by linarith
qed

lemma prefix_between: "xs @ a \<le> k \<Longrightarrow> k < xs @ b \<Longrightarrow> prefix xs (k :: string)"
proof (induction xs arbitrary: k)
  case (Cons x xs)
  then show ?case by (cases k) auto
qed simp

lemma app_le_cancel: "xs @ a \<le> xs @ b \<longleftrightarrow> a \<le> (b :: string)" "xs @ a < xs @ b \<longleftrightarrow> a < (b :: string)"
  by (induction xs) auto

lemma app_le_self: "xs @ a \<le> xs \<longleftrightarrow> a = ([] :: string)"
  by (induction xs) auto

lemma prefixUpperBound_range: "p \<le> k \<and> below k (prefixUpperBound p) \<longleftrightarrow> prefix p k"
proof (induction p rule: rev_induct)
  case Nil
  show ?case by (simp add: prefixUpperBound_def below_def)
next
  case (snoc c xs)
  have le: "xs \<le> xs @ [c]" using app_le_cancel(1) [of xs "[]" "[c]"] by simp
  show ?case
  proof (cases "prefix xs k")
    case True
    then obtain r where r: "k = xs @ r" by (auto simp: prefix_def)
    have "xs \<le> k" using r app_le_cancel(1) [of xs "[]" r] by simp
    then have "below k (prefixUpperBound xs)" using snoc True by simp
    then show ?thesis
      using r less_inc_char [of c] char_le_FF
      by (cases r) (auto simp: prefixUpperBound_snoc app_le_cancel app_le_self below_def order.antisym)
  next
    case False
    have "\<not> (xs @ [c] \<le> k \<and> below k (prefixUpperBound (xs @ [c])))"
    proof
      assume h: "xs @ [c] \<le> k \<and> below k (prefixUpperBound (xs @ [c]))"
      show False
      proof (cases "c = CHR 0xFF")
        case True
        then show False using h snoc False le by (auto simp: prefixUpperBound_snoc intro: order_trans)
      next
        case c: False
        then show False using h prefix_between [of xs "[c]" k "[inc_char c]"] \<open>\<not> prefix xs k\<close> by (simp add: prefixUpperBound_snoc below_def)
      qed
    qed
    then show ?thesis using False by (auto dest: append_prefixD)
  qed
qed

lemma range_prefix:
  assumes "pebble_laws kv"
  shows "(k, v) \<in> set (db_range kv d p (prefixUpperBound p)) \<longleftrightarrow> db_get kv d k = Some v \<and> prefix p k"
  using in_range [OF assms, of k v d p "prefixUpperBound p"] prefixUpperBound_range [of p k] by blast

section \<open>Numbers and bytes in keys\<close>

text \<open>\<open>%d\<close> of a number that is not negative.\<close>

fun fmt_d :: "nat \<Rightarrow> string" where
  "fmt_d n = (if n < 10 then [char_of (48 + n)] else fmt_d (n div 10) @ [char_of (48 + n mod 10)])"

declare fmt_d.simps [simp del]

definition read_d :: "string \<Rightarrow> nat" where
  "read_d s = foldl (\<lambda>n c. 10 * n + (of_char c - 48)) 0 s"

lemma read_fmt_d: "read_d (fmt_d n) = n"
proof (induction n rule: fmt_d.induct)
  case (1 n)
  have "read_d (fmt_d n) = (if n < 10 then n else 10 * read_d (fmt_d (n div 10)) + n mod 10)"
    by (subst fmt_d.simps) (auto simp: read_d_def)
  then show ?case using 1 by auto
qed

lemma fmt_d_inject [simp]: "fmt_d m = fmt_d n \<longleftrightarrow> m = n"
  by (metis read_fmt_d)

lemma fmt_d_digits: "c \<in> set (fmt_d n) \<Longrightarrow> 48 \<le> (of_char c :: nat) \<and> (of_char c :: nat) < 58"
proof (induction n rule: fmt_d.induct)
  case (1 n)
  then show ?case by (subst (asm) (2) fmt_d.simps) (auto split: if_splits)
qed

lemma fmt_d_no_colon: "CHR '':'' \<notin> set (fmt_d n)"
  using fmt_d_digits [of "CHR '':''" n] by auto

text \<open>\<open>%x\<close> of a byte array, and \<open>hex.DecodeString\<close> (upper case digits are accepted too).\<close>

definition hex_digit :: "nat \<Rightarrow> char" where
  "hex_digit n = char_of (if n < 10 then 48 + n else 87 + n)"

definition fmt_x :: "bytes \<Rightarrow> string" where
  "fmt_x bs = concat (map (\<lambda>b. [hex_digit (unat b div 16), hex_digit (unat b mod 16)]) bs)"

definition from_hex :: "char \<Rightarrow> nat option" where
  "from_hex c =
     (let n = (of_char c :: nat) in
      if 48 \<le> n \<and> n \<le> 57 then Some (n - 48)
      else if 97 \<le> n \<and> n \<le> 102 then Some (n - 87)
      else if 65 \<le> n \<and> n \<le> 70 then Some (n - 55) else None)"

fun hex_decode :: "string \<Rightarrow> bytes option" where
  "hex_decode [] = Some []"
| "hex_decode [c] = None"
| "hex_decode (c # d # cs) =
     (case (from_hex c, from_hex d, hex_decode cs) of
        (Some a, Some b, Some bs) \<Rightarrow> Some (of_nat (16 * a + b) # bs) | _ \<Rightarrow> None)"

lemma from_hex_digit: "n < 16 \<Longrightarrow> from_hex (hex_digit n) = Some n"
  by (auto simp: from_hex_def hex_digit_def Let_def)

lemma hex_decode_fmt_x [simp]: "hex_decode (fmt_x bs) = Some bs"
proof (induction bs)
  case (Cons b bs)
  have "unat b < 256" using unsigned_less [where w = b and 'a = nat] by simp
  then have "unat b div 16 < 16" "unat b mod 16 < 16" by auto
  moreover have "(of_nat (16 * (unat b div 16) + unat b mod 16) :: byte) = b" by simp
  ultimately show ?case using Cons by (simp add: fmt_x_def from_hex_digit)
qed (simp add: fmt_x_def)

lemma length_fmt_x [simp]: "length (fmt_x bs) = 2 * length bs"
  by (induction bs) (auto simp: fmt_x_def)

lemma fmt_x_inject [simp]: "fmt_x a = fmt_x b \<longleftrightarrow> a = b"
  by (metis hex_decode_fmt_x option.inject)

lemma fmt_x_no_underscore: "CHR ''_'' \<notin> set (fmt_x bs)"
proof -
  have "hex_digit n \<noteq> CHR ''_''" if "n < 16" for n
  proof
    assume "hex_digit n = CHR ''_''"
    then have "from_hex (CHR ''_'') = Some n" using from_hex_digit [OF that] by simp
    then show False by (simp add: from_hex_def)
  qed
  moreover have "\<exists>n < 16. c = hex_digit n" if "c \<in> set (fmt_x bs)" for c
  proof -
    have "\<exists>b \<in> set bs. c = hex_digit (unat b div 16) \<or> c = hex_digit (unat b mod 16)"
      using that by (auto simp: fmt_x_def)
    then obtain b :: byte where "c = hex_digit (unat b div 16) \<or> c = hex_digit (unat b mod 16)" by blast
    moreover have "unat b div 16 < 16" "unat b mod 16 < 16"
      using unsigned_less [where w = b and 'a = nat] by simp_all
    ultimately show ?thesis by blast
  qed
  ultimately show ?thesis by metis
qed

section \<open>Properties\<close>

text \<open>
  The bounds the repository gives an iterator select exactly the keys with the prefix: a key lies
  between a prefix and its \<open>prefixUpperBound\<close> iff it starts with the prefix, also when the bound is
  absent because the prefix is all \<open>0xFF\<close>.
\<close>

theorem prefix_range_exact:
  "p \<le> k \<and> (case prefixUpperBound p of None \<Rightarrow> True | Some u \<Rightarrow> k < u) \<longleftrightarrow> prefix p k"
  using prefixUpperBound_range [of p k] by (simp add: below_def)

end
