(* ===== verification/WordIndex.thy ===== *)
theory WordIndex
  imports PebbleStore Binary Model
begin

unbundle bit_operations_syntax

text \<open>
  The inverted index (\<open>internal/repository/indexRepos.go\<close>): the binary form of a word's count and
  positions in a document, \<open>IndexDocumentWords\<close> and \<open>GetDocumentsByWord\<close> over the database parameter.
\<close>

section \<open>Encoding of counts and positions\<close>

datatype repo_error = ShortData | HexError | ErrNotFound | InvalidIdLength nat | InvalidWordId u32 | JsonError

definition encPosEntry :: "byte \<Rightarrow> int \<Rightarrow> u32" where
  "encPosEntry a p = word_of_int (push_bit 1 p OR uint a)"

definition decPosEntry :: "u32 \<Rightarrow> byte \<times> int" where
  "decPosEntry d = (ucast (d AND 1), uint (drop_bit 1 d))"

text \<open>\<open>binary.LittleEndian.PutUint16\<close> and \<open>PutUint32\<close> into \<open>buf[i:]\<close>.\<close>

definition put_at :: "bytes \<Rightarrow> nat \<Rightarrow> bytes \<Rightarrow> bytes go" where
  "put_at buf i xs =
     (if i > length buf then Inl SliceOutOfRange
      else if i + length xs > length buf then Inl IndexOutOfRange
      else Inr (take i buf @ xs @ drop (i + length xs) buf))"

fun put_positions :: "bytes \<Rightarrow> nat \<Rightarrow> Position list \<Rightarrow> bytes go" where
  "put_positions buf i [] = Inr buf"
| "put_positions buf i (p # ps) =
     (case put_at buf (2 + i * 4) (le_bytes 4 (encPosEntry (Type p) (I p))) of
        Inl e \<Rightarrow> Inl e | Inr buf' \<Rightarrow> put_positions buf' (i + 1) ps)"

definition marshalWCP :: "WordCountAndPositions \<Rightarrow> bytes go" where
  "marshalWCP wcp =
     (let size = 2 + length (Positions wcp) * 8 in
      case put_at (replicate size 0) 0 (le_bytes 2 (word_of_int (Count wcp) :: u16)) of
        Inl e \<Rightarrow> Inl e | Inr buf \<Rightarrow> put_positions buf 0 (Positions wcp))"

definition read_u32 :: "bytes \<Rightarrow> nat \<Rightarrow> u32 go" where
  "read_u32 data i =
     (if i > length data then Inl SliceOutOfRange
      else if i + 4 > length data then Inl IndexOutOfRange
      else Inr (le_word (take 4 (drop i data))))"

fun read_positions :: "bytes \<Rightarrow> nat list \<Rightarrow> Position list go" where
  "read_positions data [] = Inr []"
| "read_positions data (i # is) =
     (case read_u32 data (2 + i * 4) of
        Inl e \<Rightarrow> Inl e
      | Inr d \<Rightarrow>
          (case read_positions data is of
             Inl e \<Rightarrow> Inl e
           | Inr ps \<Rightarrow> Inr (\<lparr>I = snd (decPosEntry d), Type = fst (decPosEntry d)\<rparr> # ps)))"

definition unmarshalWCP :: "bytes \<Rightarrow> (repo_error + WordCountAndPositions) go" where
  "unmarshalWCP data =
     (if length data < 2 then Inr (Inl ShortData)
      else
        let count = (le_word (take 2 data) :: u16) in
        case read_positions data [0..<unat (min count 500)] of
          Inl e \<Rightarrow> Inl e
        | Inr ps \<Rightarrow> Inr (Inr \<lparr>Count = uint count, Positions = ps\<rparr>))"

section \<open>Indexing and lookup\<close>

definition word_prefix :: "string \<Rightarrow> string" where
  "word_prefix w = ''ri:'' @ w @ ''_''"

definition word_doc_key :: "string \<Rightarrow> bytes \<Rightarrow> string" where
  "word_doc_key w docID = word_prefix w @ fmt_x docID"

definition index_entry :: "'db pebble \<Rightarrow> bytes \<Rightarrow> (string \<Rightarrow> Position list) \<Rightarrow> 'db \<Rightarrow> string \<times> int \<Rightarrow> 'db go" where
  "index_entry kv docID pos db = (\<lambda>(word, freq).
     let key = word_doc_key word docID;
         positions = (if length (pos word) > 500 then take 500 (pos word) else pos word)
     in case marshalWCP \<lparr>Count = freq, Positions = positions\<rparr> of
          Inl e \<Rightarrow> Inl e
        | Inr val \<Rightarrow> if length val > 1024 * 1024 then Inr db else Inr (db_set kv db key val))"

text \<open>\<open>entries\<close> is the map \<open>sequence\<close> in the order in which Go happens to iterate it.\<close>

fun IndexDocumentWords :: "'db pebble \<Rightarrow> 'db \<Rightarrow> bytes \<Rightarrow> (string \<times> int) list \<Rightarrow> (string \<Rightarrow> Position list) \<Rightarrow> 'db go" where
  "IndexDocumentWords kv db docID [] pos = Inr db"
| "IndexDocumentWords kv db docID (e # es) pos =
     (case index_entry kv docID pos db e of Inl p \<Rightarrow> Inl p | Inr db' \<Rightarrow> IndexDocumentWords kv db' docID es pos)"

fun collect_docs :: "nat \<Rightarrow> (string \<times> bytes) list \<Rightarrow> (bytes \<rightharpoonup> WordCountAndPositions) \<Rightarrow>
    (repo_error + (bytes \<rightharpoonup> WordCountAndPositions)) go" where
  "collect_docs n [] m = Inr (Inr m)"
| "collect_docs n ((k, v) # es) m =
     (case hex_decode (drop n k) of
        None \<Rightarrow> Inr (Inl HexError)
      | Some decoded \<Rightarrow>
          let docID = take 32 (decoded @ replicate 32 0) in
          (case unmarshalWCP v of
             Inl p \<Rightarrow> Inl p
           | Inr (Inl e) \<Rightarrow> Inr (Inl e)
           | Inr (Inr wcp) \<Rightarrow> collect_docs n es (m(docID \<mapsto> wcp))))"

definition GetDocumentsByWord :: "'db pebble \<Rightarrow> 'db \<Rightarrow> string \<Rightarrow> (repo_error + (bytes \<rightharpoonup> WordCountAndPositions)) go" where
  "GetDocumentsByWord kv db word =
     (let wprefix = word_prefix word in
      collect_docs (length wprefix) (db_range kv db wprefix (prefixUpperBound wprefix)) Map.empty)"

section \<open>Round trip of the encoding\<close>

lemma put_at_append: "length old = length new \<Longrightarrow> put_at (xs @ old @ ys) (length xs) new = Inr (xs @ new @ ys)"
  by (simp add: put_at_def)

definition enc_bytes :: "Position list \<Rightarrow> bytes" where
  "enc_bytes ps = concat (map (\<lambda>p. le_bytes 4 (encPosEntry (Type p) (I p))) ps)"

lemma length_enc_bytes [simp]: "length (enc_bytes ps) = 4 * length ps"
  by (induction ps) (auto simp: enc_bytes_def)

lemma put_positions_bytes:
  "length pre = 2 + i * 4 \<Longrightarrow> length old = 4 * length ps \<Longrightarrow>
   put_positions (pre @ old @ rest) i ps = Inr (pre @ enc_bytes ps @ rest)"
proof (induction ps arbitrary: pre i old)
  case (Cons p ps)
  let ?new = "le_bytes 4 (encPosEntry (Type p) (I p))"
  have old: "pre @ old @ rest = pre @ take 4 old @ (drop 4 old @ rest)" by simp
  have "put_at (pre @ old @ rest) (2 + i * 4) ?new = Inr (pre @ ?new @ drop 4 old @ rest)"
    unfolding old using put_at_append [of "take 4 old" ?new pre "drop 4 old @ rest"] Cons.prems by simp
  moreover have "put_positions ((pre @ ?new) @ drop 4 old @ rest) (i + 1) ps = Inr ((pre @ ?new) @ enc_bytes ps @ rest)"
    by (rule Cons.IH) (use Cons.prems in auto)
  ultimately show ?case by (simp add: enc_bytes_def)
qed (simp add: enc_bytes_def)

lemma marshalWCP_bytes:
  "marshalWCP wcp = Inr (le_bytes 2 (word_of_int (Count wcp) :: u16) @ enc_bytes (Positions wcp) @
     replicate (4 * length (Positions wcp)) 0)"
proof -
  let ?n = "length (Positions wcp)" and ?c = "le_bytes 2 (word_of_int (Count wcp) :: u16)"
  have split: "replicate (2 + ?n * 8) (0::byte) = [] @ replicate 2 0 @ (replicate (4 * ?n) 0 @ replicate (4 * ?n) 0)"
    by (simp flip: replicate_add)
  have "put_at (replicate (2 + ?n * 8) 0) 0 ?c = Inr (?c @ replicate (4 * ?n) 0 @ replicate (4 * ?n) 0)"
    unfolding split using put_at_append [of "replicate 2 0" ?c "[]"] by simp
  then show ?thesis using put_positions_bytes [of ?c 0 "replicate (4 * ?n) 0" "Positions wcp"]
    by (simp add: marshalWCP_def Let_def)
qed

text \<open>What a position becomes: the type byte is written over the bits of the position.\<close>

definition stored_position :: "Position \<Rightarrow> Position" where
  "stored_position p = (let d = decPosEntry (encPosEntry (Type p) (I p)) in \<lparr>I = snd d, Type = fst d\<rparr>)"

lemma drop_enc_bytes:
  "i < length ps \<Longrightarrow> take 4 (drop (4 * i) (enc_bytes ps @ rest)) = le_bytes 4 (encPosEntry (Type (ps ! i)) (I (ps ! i)))"
proof (induction ps arbitrary: i)
  case (Cons p ps)
  show ?case
  proof (cases i)
    case (Suc k)
    have "drop (4 * Suc k) (enc_bytes (p # ps) @ rest) = drop (4 * k) (enc_bytes ps @ rest)"
      by (simp add: enc_bytes_def)
    then show ?thesis using Suc Cons by simp
  qed (simp add: enc_bytes_def)
qed simp

lemma read_positions_enc:
  assumes "length pre = 2"
  shows "\<forall>i \<in> set is. i < length ps \<Longrightarrow>
    read_positions (pre @ enc_bytes ps @ rest) is = Inr (map (\<lambda>i. stored_position (ps ! i)) is)"
proof (induction "is")
  case (Cons i "is")
  have "drop (2 + i * 4) (pre @ enc_bytes ps @ rest) = drop (4 * i) (enc_bytes ps @ rest)"
    using assms by (simp add: mult.commute)
  then have "read_u32 (pre @ enc_bytes ps @ rest) (2 + i * 4) = Inr (encPosEntry (Type (ps ! i)) (I (ps ! i)))"
    using Cons.prems assms drop_enc_bytes [of i ps rest] by (simp add: read_u32_def)
  then show ?case using Cons by (simp add: stored_position_def Let_def)
qed simp

lemma unmarshal_marshal:
  assumes "marshalWCP \<lparr>Count = c, Positions = ps\<rparr> = Inr val" "nat (min (c mod 65536) 500) \<le> length ps"
  shows "unmarshalWCP val = Inr (Inr \<lparr>Count = c mod 65536, Positions = map stored_position (take (nat (min (c mod 65536) 500)) ps)\<rparr>)"
proof -
  let ?w = "word_of_int c :: u16"
  have val: "val = le_bytes 2 ?w @ enc_bytes ps @ replicate (4 * length ps) 0"
    using assms(1) by (simp add: marshalWCP_bytes)
  have u: "uint ?w = c mod 65536" by (simp add: uint_word_of_int)
  have "uint (min ?w 500) = min (c mod 65536) 500" using u by (auto simp: min_def word_le_def)
  then have n: "unat (min ?w 500) = nat (min (c mod 65536) 500)" by (metis unat_eq_nat_uint)
  have "read_positions val [0..<nat (min (c mod 65536) 500)] = Inr (map (\<lambda>i. stored_position (ps ! i)) [0..<nat (min (c mod 65536) 500)])"
    unfolding val by (rule read_positions_enc) (use assms(2) in auto)
  moreover have "map (\<lambda>i. stored_position (ps ! i)) [0..<n] = map stored_position (take n ps)" if "n \<le> length ps" for n
    by (rule nth_equalityI) (use that in auto)
  moreover have "(le_word (take 2 val) :: u16) = ?w" "\<not> length val < 2" by (simp_all add: val)
  ultimately show ?thesis using assms(2) u n by (simp add: unmarshalWCP_def Let_def)
qed


lemma drop_enc_bits:
  assumes "even (uint a)"
  shows "decPosEntry (encPosEntry a i) = (0, (i OR uint (drop_bit 1 a)) mod 2 ^ 31)"
proof -
  have "encPosEntry a i AND 1 = (0 :: u32)"
    using assms by (intro bit_eqI) (auto simp: encPosEntry_def bit_and_iff bit_or_iff bit_1_iff bit_word_of_int_iff
      bit_push_bit_iff bit_0)
  moreover have "uint (drop_bit 1 (encPosEntry a i)) = take_bit 31 (i OR uint (drop_bit 1 a))"
  proof (rule bit_eqI)
    fix n
    show "bit (uint (drop_bit 1 (encPosEntry a i))) n \<longleftrightarrow> bit (take_bit 31 (i OR uint (drop_bit 1 a))) n"
      unfolding encPosEntry_def bit_uint_iff bit_drop_bit_eq bit_word_of_int_iff bit_or_iff bit_push_bit_iff bit_take_bit_iff
      by (auto dest: bit_imp_le_length)
  qed
  ultimately show ?thesis by (simp add: decPosEntry_def take_bit_eq_mod)
qed


lemma stored_position_loss:
  assumes "Type p = BodyType \<or> Type p = HeaderType"
  shows "stored_position p = \<lparr>I = (I p OR (if Type p = BodyType then 49 else 52)) mod 2 ^ 31, Type = 0\<rparr>"
proof -
  have "even (uint (Type p))" "uint (drop_bit 1 (Type p)) = (if Type p = BodyType then 49 else 52)"
    using assms by (auto simp: BodyType_def HeaderType_def drop_bit_eq_div)
  then show ?thesis using drop_enc_bits [of "Type p" "I p"] by (simp add: stored_position_def)
qed

section \<open>What a lookup returns\<close>

text \<open>Every key under the word's prefix ends in a document id and holds a readable entry.\<close>

definition wf_word :: "'db pebble \<Rightarrow> 'db \<Rightarrow> string \<Rightarrow> bool" where
  "wf_word kv db w \<longleftrightarrow> (\<forall>k v. db_get kv db k = Some v \<and> prefix (word_prefix w) k \<longrightarrow>
     (\<exists>docID wcp. length docID = 32 \<and> k = word_doc_key w docID \<and> unmarshalWCP v = Inr (Inr wcp)))"

definition entry_of :: "'db pebble \<Rightarrow> 'db \<Rightarrow> string \<Rightarrow> bytes \<rightharpoonup> WordCountAndPositions" where
  "entry_of kv db w docID =
     (if length docID \<noteq> 32 then None
      else case db_get kv db (word_doc_key w docID) of
        None \<Rightarrow> None | Some v \<Rightarrow> (case unmarshalWCP v of Inr (Inr wcp) \<Rightarrow> Some wcp | _ \<Rightarrow> None))"

lemma word_doc_key_inject [simp]: "word_doc_key w a = word_doc_key w b \<longleftrightarrow> a = b"
  by (simp add: word_doc_key_def)

definition good_entry :: "string \<Rightarrow> string \<times> bytes \<Rightarrow> bool" where
  "good_entry w e \<longleftrightarrow> (\<exists>docID wcp. length docID = 32 \<and> fst e = word_doc_key w docID \<and> unmarshalWCP (snd e) = Inr (Inr wcp))"

lemma collect_docs_good:
  assumes "\<forall>e \<in> set es. good_entry w e" "distinct (map fst es)"
  shows "\<exists>m'. collect_docs (length (word_prefix w)) es m = Inr (Inr m') \<and>
    (\<forall>docID. m' docID = (if length docID = 32 then
        (case map_of es (word_doc_key w docID) of None \<Rightarrow> m docID
         | Some v \<Rightarrow> (case unmarshalWCP v of Inr (Inr wcp) \<Rightarrow> Some wcp | _ \<Rightarrow> m docID)) else m docID))"
  using assms
proof (induction es arbitrary: m)
  case (Cons e es)
  obtain k v where e: "e = (k, v)" by (cases e)
  obtain d wcp where d: "length d = 32" "k = word_doc_key w d" "unmarshalWCP v = Inr (Inr wcp)"
    using Cons.prems(1) e by (auto simp: good_entry_def)
  have step: "collect_docs (length (word_prefix w)) (e # es) m = collect_docs (length (word_prefix w)) es (m(d \<mapsto> wcp))"
    using d by (simp add: e word_doc_key_def)
  have "map_of es (word_doc_key w d) = None" using Cons.prems(2) e d by (simp add: map_of_eq_None_iff)
  moreover have "\<exists>m'. collect_docs (length (word_prefix w)) es (m(d \<mapsto> wcp)) = Inr (Inr m') \<and>
    (\<forall>docID. m' docID = (if length docID = 32 then
        (case map_of es (word_doc_key w docID) of None \<Rightarrow> (m(d \<mapsto> wcp)) docID
         | Some v \<Rightarrow> (case unmarshalWCP v of Inr (Inr x) \<Rightarrow> Some x | _ \<Rightarrow> (m(d \<mapsto> wcp)) docID)) else (m(d \<mapsto> wcp)) docID))"
    by (rule Cons.IH) (use Cons.prems in auto)
  then obtain m' where "collect_docs (length (word_prefix w)) es (m(d \<mapsto> wcp)) = Inr (Inr m')"
    "\<And>docID. m' docID = (if length docID = 32 then
        (case map_of es (word_doc_key w docID) of None \<Rightarrow> (m(d \<mapsto> wcp)) docID
         | Some v \<Rightarrow> (case unmarshalWCP v of Inr (Inr x) \<Rightarrow> Some x | _ \<Rightarrow> (m(d \<mapsto> wcp)) docID)) else (m(d \<mapsto> wcp)) docID)"
    by blast
  ultimately show ?case
    unfolding step using d by (intro exI [of _ m']) (auto simp: e split: option.splits sum.splits)
qed simp

lemma GetDocumentsByWord_wf:
  assumes laws: "pebble_laws kv" and wf: "wf_word kv db w"
  shows "GetDocumentsByWord kv db w = Inr (Inr (entry_of kv db w))"
proof -
  let ?p = "word_prefix w" and ?es = "db_range kv db (word_prefix w) (prefixUpperBound (word_prefix w))"
  have mem: "(k, v) \<in> set ?es \<longleftrightarrow> db_get kv db k = Some v \<and> prefix ?p k" for k v by (rule range_prefix [OF laws])
  then have good: "\<forall>e \<in> set ?es. good_entry w e" using wf by (fastforce simp: wf_word_def good_entry_def)
  have lookup: "map_of ?es (word_doc_key w d) = db_get kv db (word_doc_key w d)" for d
    using mem [of "word_doc_key w d"] map_of_eq_Some_iff [OF distinct_range [OF laws], of db ?p "prefixUpperBound ?p"]
    by (cases "db_get kv db (word_doc_key w d)") (auto simp: word_doc_key_def map_of_eq_None_iff)
  obtain m' where m': "collect_docs (length ?p) ?es Map.empty = Inr (Inr m')"
    "\<forall>d. m' d = (if length d = 32 then (case map_of ?es (word_doc_key w d) of None \<Rightarrow> Map.empty d
       | Some v \<Rightarrow> (case unmarshalWCP v of Inr (Inr x) \<Rightarrow> Some x | _ \<Rightarrow> Map.empty d)) else Map.empty d)"
    using collect_docs_good [OF good distinct_range [OF laws], of Map.empty] by blast
  have "m' = entry_of kv db w"
    using m'(2) lookup by (auto simp: fun_eq_iff entry_of_def split: option.splits sum.splits)
  then show ?thesis using m'(1) by (simp add: GetDocumentsByWord_def Let_def)
qed

lemma word_prefix_key:
  assumes "prefix (word_prefix w) (word_doc_key w' d)"
  shows "w' = w \<or> prefix (w @ ''_'') w'"
proof -
  obtain r where "w' @ ''_'' @ fmt_x d = w @ ''_'' @ r"
    using assms by (auto simp: word_prefix_def word_doc_key_def prefix_def)
  then have "\<exists>us. w' = w @ us \<and> us @ ''_'' @ fmt_x d = ''_'' @ r \<or> w' @ us = w \<and> ''_'' @ fmt_x d = us @ ''_'' @ r"
    by (simp only: append_eq_append_conv2)
  then obtain us where "w' = w @ us \<and> us @ ''_'' @ fmt_x d = ''_'' @ r \<or> w' @ us = w \<and> ''_'' @ fmt_x d = us @ ''_'' @ r"
    by (rule exE)
  then show ?thesis using fmt_x_no_underscore [of d] by (cases us) (auto simp: prefix_def)
qed

section \<open>What indexing a document does\<close>

definition stored_entry :: "Position list \<Rightarrow> WordCountAndPositions" where
  "stored_entry ps = \<lparr>Count = int (length ps) mod 65536,
     Positions = map stored_position (take (min (length ps mod 65536) 500) ps)\<rparr>"

lemma index_entry_stores:
  assumes "f = int (length (pos w))"
  shows "\<exists>v. index_entry kv d pos db (w, f) = Inr (db_set kv db (word_doc_key w d) v) \<and>
    unmarshalWCP v = Inr (Inr (stored_entry (pos w)))"
proof -
  let ?ps = "take 500 (pos w)"
  obtain v where v: "marshalWCP \<lparr>Count = f, Positions = ?ps\<rparr> = Inr v" by (simp add: marshalWCP_bytes)
  have n: "nat (min (f mod 65536) 500) = min (length (pos w) mod 65536) 500"
  proof -
    have "min (f mod 65536) 500 = int (min (length (pos w) mod 65536) 500)"
      using assms by (simp add: zmod_int of_nat_min)
    then show ?thesis by simp
  qed
  have "nat (min (f mod 65536) 500) \<le> length ?ps" unfolding n by (auto simp: min_def intro: order_trans [OF mod_less_eq_dividend])
  from unmarshal_marshal [OF v this] have "unmarshalWCP v = Inr (Inr (stored_entry (pos w)))"
    using assms n by (simp add: stored_entry_def min.assoc)
  moreover have "length v \<le> 1024 * 1024" using v by (auto simp: marshalWCP_bytes)
  moreover have "(if length (pos w) > 500 then take 500 (pos w) else pos w) = ?ps" by simp
  ultimately show ?thesis using v by (auto simp: index_entry_def Let_def)
qed

lemma entry_of_set:
  assumes "pebble_laws kv" "w' \<noteq> w \<Longrightarrow> \<not> prefix (w @ ''_'') w'" "length d = 32" "unmarshalWCP v = Inr (Inr wcp)"
  shows "entry_of kv (db_set kv db (word_doc_key w' d) v) w = (if w' = w then (entry_of kv db w)(d \<mapsto> wcp) else entry_of kv db w)"
proof -
  have "word_doc_key w x \<noteq> word_doc_key w' d" if "w' \<noteq> w" for x
    using word_prefix_key [of w w' d] assms(2) [OF that] that by (metis prefixI word_doc_key_def)
  then show ?thesis using assms(3,4) by (auto simp: entry_of_def fun_eq_iff get_set [OF assms(1)])
qed

lemma wf_word_set:
  assumes "pebble_laws kv" "wf_word kv db w" "w' \<noteq> w \<Longrightarrow> \<not> prefix (w @ ''_'') w'" "length d = 32" "unmarshalWCP v = Inr (Inr wcp)"
  shows "wf_word kv (db_set kv db (word_doc_key w' d) v) w"
  using assms(2-5) word_prefix_key [of w w' d] by (auto simp: wf_word_def get_set [OF assms(1)])

lemma index_words:
  assumes laws: "pebble_laws kv" and d: "length d = 32"
  shows "wf_word kv db w \<Longrightarrow> \<forall>(w', f) \<in> set es. f = int (length (pos w')) \<and> \<not> prefix (w @ ''_'') w' \<Longrightarrow>
    \<exists>db'. IndexDocumentWords kv db d es pos = Inr db' \<and> wf_word kv db' w \<and>
      entry_of kv db' w = (if w \<in> fst ` set es then (entry_of kv db w)(d \<mapsto> stored_entry (pos w)) else entry_of kv db w)"
proof (induction es arbitrary: db)
  case (Cons e es)
  obtain w' f where e: "e = (w', f)" by (cases e)
  have f: "f = int (length (pos w'))" "\<not> prefix (w @ ''_'') w'" using Cons.prems(2) e by auto
  obtain v where v: "index_entry kv d pos db (w', f) = Inr (db_set kv db (word_doc_key w' d) v)"
    "unmarshalWCP v = Inr (Inr (stored_entry (pos w')))" using index_entry_stores [where pos = pos and kv = kv and d = d and db = db, OF f(1)] by blast
  have wf: "wf_word kv (db_set kv db (word_doc_key w' d) v) w"
    by (rule wf_word_set [OF laws Cons.prems(1) f(2) d v(2)])
  have entry: "entry_of kv (db_set kv db (word_doc_key w' d) v) w =
      (if w' = w then (entry_of kv db w)(d \<mapsto> stored_entry (pos w')) else entry_of kv db w)"
    by (rule entry_of_set [OF laws f(2) d v(2)])
  have "\<forall>(w', f) \<in> set es. f = int (length (pos w')) \<and> \<not> prefix (w @ ''_'') w'" using Cons.prems(2) by simp
  from Cons.IH [OF wf this] show ?case using v(1) entry e by (auto split: if_splits)
qed simp

lemma hex_decode_no_underscore: "hex_decode s = Some bs \<Longrightarrow> CHR ''_'' \<notin> set s"
proof (induction s arbitrary: bs rule: hex_decode.induct)
  case (3 c d cs)
  then show ?case by (auto split: option.splits simp: from_hex_def)
qed auto

lemma collect_docs_collision:
  assumes "\<forall>e \<in> set es. good_entry w e \<or> hex_decode (drop (length (word_prefix w)) (fst e)) = None"
    and "\<exists>e \<in> set es. hex_decode (drop (length (word_prefix w)) (fst e)) = None"
  shows "collect_docs (length (word_prefix w)) es m = Inr (Inl HexError)"
  using assms
proof (induction es arbitrary: m)
  case (Cons e es)
  obtain k v where e: "e = (k, v)" by (cases e)
  show ?case
  proof (cases "hex_decode (drop (length (word_prefix w)) k)")
    case (Some bs)
    then obtain wcp where "unmarshalWCP v = Inr (Inr wcp)" using Cons.prems(1) e by (auto simp: good_entry_def)
    then show ?thesis using Some Cons e by simp
  qed (simp add: e)
qed simp

section \<open>Properties\<close>

text \<open>
  Indexing a document's words and looking a word up again: the document's entry is added to (or
  replaced in) the result, with the count modulo 65536 and at most 500 positions, and the entries of all
  other documents are unchanged; this needs that no indexed word starts with the word and an underscore.
\<close>

theorem index_then_lookup:
  assumes "pebble_laws kv" "wf_word kv db w" "GetDocumentsByWord kv db w = Inr (Inr m)" "length d = 32"
    and "\<forall>(w', f) \<in> set es. f = int (length (pos w')) \<and> \<not> prefix (w @ ''_'') w'"
  shows "\<exists>db'. IndexDocumentWords kv db d es pos = Inr db' \<and> wf_word kv db' w \<and>
    GetDocumentsByWord kv db' w = Inr (Inr (if w \<in> fst ` set es then m(d \<mapsto> stored_entry (pos w)) else m))"
proof -
  have m: "m = entry_of kv db w" using GetDocumentsByWord_wf [OF assms(1,2)] assms(3) by simp
  obtain db' where db': "IndexDocumentWords kv db d es pos = Inr db'" "wf_word kv db' w"
    "entry_of kv db' w = (if w \<in> fst ` set es then (entry_of kv db w)(d \<mapsto> stored_entry (pos w)) else entry_of kv db w)"
    using index_words [OF assms(1,4,2,5)] by blast
  then show ?thesis using GetDocumentsByWord_wf [OF assms(1) db'(2)] m by auto
qed

lemma empty_db_wf: "wf_word list_db [] w"
  by (simp add: wf_word_def list_db_def)

lemma empty_db_lookup: "GetDocumentsByWord list_db [] w = Inr (Inr Map.empty)"
  by (simp add: GetDocumentsByWord_def list_db_def Let_def)

theorem index_then_lookup_witness:
  "\<exists>db'. IndexDocumentWords list_db [] (replicate 32 7) [(''go'', 1)] (\<lambda>_. [\<lparr>I = 3, Type = BodyType\<rparr>]) = Inr db' \<and>
     GetDocumentsByWord list_db db' ''go'' = Inr (Inr [replicate 32 7 \<mapsto> stored_entry [\<lparr>I = 3, Type = BodyType\<rparr>]])"
  using index_then_lookup [OF list_db_laws empty_db_wf empty_db_lookup,
      of "replicate 32 7" "[(''go'', 1)]" "\<lambda>_. [\<lparr>I = 3, Type = BodyType\<rparr>]" "''go''"]
  by (auto simp: prefix_def)

text \<open>
  The type of a position does not survive storage: a body or header position comes back with type 0
  and with its number combined with bits of the type byte, so a header word is never recognised.
\<close>

theorem position_type_is_lost:
  assumes "Type p = BodyType \<or> Type p = HeaderType"
  shows "stored_position p = \<lparr>I = (I p OR (if Type p = BodyType then 49 else 52)) mod 2 ^ 31, Type = 0\<rparr> \<and>
    Type (stored_position p) \<noteq> HeaderType"
  using stored_position_loss [OF assms] by (simp add: HeaderType_def)

theorem position_type_is_lost_witness:
  "stored_position \<lparr>I = 0, Type = HeaderType\<rparr> = \<lparr>I = 52, Type = 0\<rparr>"
  using position_type_is_lost [of "\<lparr>I = 0, Type = HeaderType\<rparr>"] by (simp add: HeaderType_def BodyType_def)

text \<open>
  A token that contains an underscore breaks lookups of the part before it: after a document with
  the token \<open>w_x\<close> is indexed, \<open>GetDocumentsByWord w\<close> fails with a decoding error.
\<close>

theorem underscore_breaks_lookup:
  assumes laws: "pebble_laws kv" and wf: "wf_word kv db w" and d: "length d = 32"
    and f: "f = int (length (pos (w @ ''_'' @ x)))"
  shows "\<exists>db'. IndexDocumentWords kv db d [(w @ ''_'' @ x, f)] pos = Inr db' \<and>
    GetDocumentsByWord kv db' w = Inr (Inl HexError)"
proof -
  let ?k = "word_doc_key (w @ ''_'' @ x) d" and ?n = "length (word_prefix w)"
  obtain v where v: "index_entry kv d pos db (w @ ''_'' @ x, f) = Inr (db_set kv db ?k v)"
    using index_entry_stores [where pos = pos and kv = kv and d = d and db = db, OF f] by blast
  let ?db = "db_set kv db ?k v"
  let ?es = "db_range kv ?db (word_prefix w) (prefixUpperBound (word_prefix w))"
  have k: "prefix (word_prefix w) ?k" "hex_decode (drop ?n ?k) = None"
    using hex_decode_no_underscore [of "drop ?n ?k"]
    by (cases "hex_decode (drop ?n ?k)"; auto simp: word_doc_key_def word_prefix_def)+
  have "\<forall>e \<in> set ?es. good_entry w e \<or> hex_decode (drop ?n (fst e)) = None"
  proof
    fix e assume "e \<in> set ?es"
    then have e: "db_get kv ?db (fst e) = Some (snd e)" "prefix (word_prefix w) (fst e)"
      using range_prefix [OF laws, of "fst e" "snd e"] by auto
    show "good_entry w e \<or> hex_decode (drop ?n (fst e)) = None"
    proof (cases "fst e = ?k")
      case False
      then have "db_get kv db (fst e) = Some (snd e)" using e(1) by (simp add: get_set [OF laws])
      then show ?thesis using wf e(2) by (auto simp: wf_word_def good_entry_def)
    qed (use k in simp)
  qed
  moreover have "(?k, v) \<in> set ?es" using k(1) range_prefix [OF laws, of ?k v ?db] by (simp add: get_set [OF laws])
  ultimately have "collect_docs ?n ?es Map.empty = Inr (Inl HexError)"
    using k(2) by (intro collect_docs_collision) (auto intro!: bexI [of _ "(?k, v)"])
  then have "GetDocumentsByWord kv ?db w = Inr (Inl HexError)"
    by (simp add: GetDocumentsByWord_def Let_def)
  then show ?thesis using v by simp
qed

theorem underscore_breaks_lookup_witness:
  "\<exists>db'. IndexDocumentWords list_db [] (replicate 32 7) [(''my_page'', 0)] (\<lambda>_. []) = Inr db' \<and>
     GetDocumentsByWord list_db db' ''my'' = Inr (Inl HexError)"
  using underscore_breaks_lookup [OF list_db_laws empty_db_wf, of "replicate 32 7" 0 "\<lambda>_. []" "''my''" "''page''"] by simp

end
