(* ===== verification/MinHash.thy ===== *)
theory MinHash
  imports GoStrings
begin

text \<open>
  Near-duplicate detection (\<open>indexer/minHash.go\<close> and \<open>calcSim\<close> of \<open>wordHandling.go\<close>): a document's
  signature is the pointwise minimum of 128 hash functions over its shingles of four words. The
  arrays \<open>a\<close> and \<open>b\<close> have 128 elements; \<open>math/rand\<close>, which fills them, is a parameter.
\<close>

definition nGramSize :: nat where "nGramSize = 4"
definition prime61 :: u64 where "prime61 = 2 ^ 61 - 1"

record minHash =
  mh_a :: "u64 list"
  mh_b :: "u64 list"

text \<open>\<open>rnd n\<close> stands for the \<open>n\<close>-th value of the seeded generator: \<open>Int63n\<close> reduces it.\<close>

definition NewHasher :: "(nat \<Rightarrow> nat \<Rightarrow> nat) \<Rightarrow> u64 list \<Rightarrow> u64 list \<Rightarrow> bool \<Rightarrow> minHash" where
  "NewHasher int63n a b reCreateF =
     (if reCreateF
      then \<lparr>mh_a = map (\<lambda>i. of_nat (int63n (2 * i) (unat (prime61 - 1))) + 1) [0..<128],
            mh_b = map (\<lambda>i. of_nat (int63n (2 * i + 1) (unat prime61))) [0..<128]\<rparr>
      else \<lparr>mh_a = a, mh_b = b\<rparr>)"

definition Hash64 :: "string \<Rightarrow> u64" where
  "Hash64 s = fnv64a (string_bytes s)"

definition getWordNGrams :: "string list \<Rightarrow> string list" where
  "getWordNGrams rawTokens =
     map (\<lambda>i. str_join '' '' (take nGramSize (drop i rawTokens))) [0..<length rawTokens + 1 - nGramSize]"

definition mix :: "minHash \<Rightarrow> string \<Rightarrow> nat \<Rightarrow> u64" where
  "mix mh shingle i = (mh_a mh ! i * Hash64 shingle + mh_b mh ! i) mod prime61"

definition fold_shingle :: "minHash \<Rightarrow> u64 list \<Rightarrow> string \<Rightarrow> u64 list" where
  "fold_shingle mh sign shingle =
     map (\<lambda>i. let x = mix mh shingle i in if x < sign ! i then x else sign ! i) [0..<128]"

definition CreateSignature :: "minHash \<Rightarrow> string list \<Rightarrow> u64 list" where
  "CreateSignature mh rawTokens = foldl (fold_shingle mh) (replicate 128 (- 1)) (getWordNGrams rawTokens)"

text \<open>\<open>float64(sum) / 128.0\<close> is exact, so the similarity is the rational it denotes.\<close>

definition agreement :: "u64 list \<Rightarrow> u64 list \<Rightarrow> nat" where
  "agreement s t = length (filter (\<lambda>j. s ! j = t ! j) [0..<128])"

definition calcSim :: "u64 list \<Rightarrow> u64 list list \<Rightarrow> real" where
  "calcSim curSign condidates = foldl (\<lambda>result c. max result (real (agreement curSign c) / 128)) 0 condidates"

section \<open>The signature as a minimum\<close>

lemma length_fold_shingle [simp]: "length (fold_shingle mh sign g) = 128"
  by (simp add: fold_shingle_def)

lemma length_fold_shingles: "length sign = 128 \<Longrightarrow> length (foldl (fold_shingle mh) sign gs) = 128"
  by (induction gs arbitrary: sign) auto

lemma length_CreateSignature [simp]: "length (CreateSignature mh ts) = 128"
  by (simp add: CreateSignature_def length_fold_shingles)

lemma fold_shingle_nth: "i < 128 \<Longrightarrow> fold_shingle mh sign g ! i = min (mix mh g i) (sign ! i)"
  by (auto simp: fold_shingle_def min_def Let_def)

lemma fold_shingles_nth:
  "i < 128 \<Longrightarrow> foldl (fold_shingle mh) sign gs ! i = Min (insert (sign ! i) ((\<lambda>g. mix mh g i) ` set gs))"
proof (induction gs arbitrary: sign)
  case (Cons g gs)
  have "foldl (fold_shingle mh) sign (g # gs) ! i = Min (insert (min (mix mh g i) (sign ! i)) ((\<lambda>g. mix mh g i) ` set gs))"
    using Cons by (simp add: fold_shingle_nth)
  also have "\<dots> = Min (insert (sign ! i) (insert (mix mh g i) ((\<lambda>g. mix mh g i) ` set gs)))"
    by (cases "set gs = {}") (auto simp: ac_simps)
  finally show ?case by simp
qed simp

lemma signature_nth:
  "i < 128 \<Longrightarrow> CreateSignature mh ts ! i = Min (insert (- 1) ((\<lambda>g. mix mh g i) ` set (getWordNGrams ts)))"
  by (simp add: CreateSignature_def fold_shingles_nth)

lemma max_word_min: "finite A \<Longrightarrow> A \<noteq> {} \<Longrightarrow> Min (insert (- 1 :: 'a::len word) A) = Min A"
  by (simp add: min_absorb2)

lemma foldl_max: "foldl (\<lambda>r c. max r (f c)) r0 cs = Max (insert (r0 :: real) (f ` set cs))"
proof (induction cs arbitrary: r0)
  case (Cons c cs)
  have "Max (insert (max r0 (f c)) (f ` set cs)) = Max (insert r0 (insert (f c) (f ` set cs)))"
    by (cases "set cs = {}") (auto simp: ac_simps)
  then show ?case using Cons by simp
qed simp

lemma calcSim_Max: "calcSim s cs = Max (insert 0 ((\<lambda>c. real (agreement s c) / 128) ` set cs))"
  by (simp add: calcSim_def foldl_max)

definition agree_upto :: "nat \<Rightarrow> u64 list \<Rightarrow> u64 list \<Rightarrow> nat" where
  "agree_upto n s t = length (filter (\<lambda>j. s ! j = t ! j) [0..<n])"

lemma agreement_upto: "agreement s t = agree_upto 128 s t"
  by (simp only: agreement_def agree_upto_def)

lemma agree_upto_full: "agree_upto n s t \<le> n" "agree_upto n s t = n \<longleftrightarrow> (\<forall>j < n. s ! j = t ! j)"
  by (induction n) (auto simp: agree_upto_def less_Suc_eq)

lemma agreement_le: "agreement s t \<le> 128"
  unfolding agreement_upto by (rule agree_upto_full)

lemma agreement_full:
  assumes "length s = 128" "length t = 128"
  shows "agreement s t = 128 \<longleftrightarrow> s = t"
  unfolding agreement_upto agree_upto_full using assms by (auto intro: nth_equalityI)

lemma calcSim_bounds:
  assumes "length s = 128" "\<forall>c \<in> set cs. length c = 128"
  shows "0 \<le> calcSim s cs \<and> calcSim s cs \<le> 1 \<and> (calcSim s cs = 1 \<longleftrightarrow> s \<in> set cs) \<and>
    (calcSim s cs > 0.8 \<longleftrightarrow> (\<exists>c \<in> set cs. agreement s c \<ge> 103))"
proof -
  let ?A = "insert 0 ((\<lambda>c. real (agreement s c) / 128) ` set cs)"
  have fin: "finite ?A" "?A \<noteq> {}" by simp_all
  have le: "x \<le> 1" if "x \<in> ?A" for x using that agreement_le [of s] by auto
  have "Max ?A \<in> ?A" by (rule Max_in [OF fin])
  moreover have "Max ?A = 1 \<longleftrightarrow> 1 \<in> ?A"
    using Max_in [OF fin] Max_eqI [OF fin(1), of 1] le by metis
  moreover have "(1::real) \<in> ?A \<longleftrightarrow> s \<in> set cs"
    using assms agreement_full [OF assms(1)] by (force simp: image_iff)
  moreover have "Max ?A > 0.8 \<longleftrightarrow> (\<exists>x \<in> ?A. x > 0.8)" by (rule Max_gr_iff [OF fin])
  moreover have "(\<exists>x \<in> ?A. x > 0.8) \<longleftrightarrow> (\<exists>c \<in> set cs. agreement s c \<ge> 103)"
  proof -
    have "real n / 128 > 0.8 \<longleftrightarrow> n \<ge> 103" for n :: nat by (simp add: field_simps) linarith
    then show ?thesis by auto
  qed
  ultimately show ?thesis using le Max_ge [OF fin(1), of 0] unfolding calcSim_Max by (metis insertI1)
qed

lemma calcSim_one: "length s = 128 \<Longrightarrow> \<forall>c \<in> set cs. length c = 128 \<Longrightarrow> s \<in> set cs \<Longrightarrow> calcSim s cs = 1"
  using calcSim_bounds by blast

section \<open>Properties\<close>

text \<open>
  Entry \<open>i\<close> of a signature is the least value of the \<open>i\<close>-th hash function over the document's
  four-word shingles, and all ones for a document without one; so the signature depends only on the
  set of shingles, not on their order or repetition.
\<close>

theorem signature_is_minimum:
  assumes "i < 128"
  shows "CreateSignature mh ts ! i =
    (if length ts < 4 then - 1 else Min ((\<lambda>g. mix mh g i) ` set (getWordNGrams ts)))"
proof -
  have "set (getWordNGrams ts) = {} \<longleftrightarrow> length ts < 4"
    by (auto simp: getWordNGrams_def nGramSize_def)
  then show ?thesis using assms by (cases "length ts < 4") (simp_all add: signature_nth max_word_min)
qed

theorem signature_is_minimum_witness:
  "CreateSignature \<lparr>mh_a = replicate 128 1, mh_b = replicate 128 0\<rparr> [''a'', ''b'', ''c''] ! 5 = - 1"
  using signature_is_minimum [of 5 "\<lparr>mh_a = replicate 128 1, mh_b = replicate 128 0\<rparr>" "[''a'', ''b'', ''c'']"] by simp

text \<open>
  The similarity of a signature to a list of candidates lies between 0 and 1 and is 1 exactly if one
  of them is the signature itself; it exceeds 0.8, the bound for rejecting a page, exactly if a candidate
  agrees in at least 103 of the 128 entries.
\<close>

theorem calcSim_spec:
  assumes "length s = 128" "\<forall>c \<in> set cs. length c = 128"
  shows "0 \<le> calcSim s cs \<and> calcSim s cs \<le> 1 \<and> (calcSim s cs = 1 \<longleftrightarrow> s \<in> set cs) \<and>
    (calcSim s cs > 0.8 \<longleftrightarrow> (\<exists>c \<in> set cs. agreement s c \<ge> 103))"
  using calcSim_bounds [OF assms] .

theorem calcSim_spec_witness:
  "calcSim (replicate 128 7) [replicate 128 3, replicate 128 7] = 1"
  using calcSim_spec [of "replicate 128 7" "[replicate 128 3, replicate 128 7]"] by simp

end
