(* ===== verification/ShingleRepo.thy ===== *)
theory ShingleRepo
  imports Binary MinHash
begin

text \<open>
  The store of signatures (\<open>internal/repository/shingleRepo.go\<close>): 512 chunk files, each a byte list
  or absent. A record is 64 bytes of chunk followed by the 1024 bytes of the whole signature, in the
  little-endian order of the machine. The channels and workers only append whole records in order.
\<close>

section \<open>The chunk files\<close>

type_synonym chunk_files = "nat \<Rightarrow> bytes option"

definition words_bytes :: "u64 list \<Rightarrow> bytes" where
  "words_bytes ws = concat (map (le_bytes 8) ws)"

fun bytes_words :: "nat \<Rightarrow> bytes \<Rightarrow> u64 list" where
  "bytes_words 0 bs = []"
| "bytes_words (Suc n) bs = le_word (take 8 bs) # bytes_words n (drop 8 bs)"

definition makeShingleKey :: "u64 list \<Rightarrow> u16" where
  "makeShingleKey sign = foldl (\<lambda>key i. key + ucast (sign ! i mod 512)) 0 [0..<8] mod 512"

definition chunk_at :: "u64 list \<Rightarrow> nat \<Rightarrow> u64 list" where
  "chunk_at sign i = take 8 (drop i sign)"

text \<open>The loop \<open>for i := 0; i <= 128 - 8; i += 8\<close>.\<close>

definition chunk_starts :: "nat list" where
  "chunk_starts = map (\<lambda>j. 8 * j) [0..<16]"

text \<open>\<open>shingleWorker i\<close> creates its file when it starts and appends what it receives.\<close>

definition shingleWorker :: "chunk_files \<Rightarrow> nat \<Rightarrow> bytes \<Rightarrow> chunk_files" where
  "shingleWorker files i toWrite =
     files(i \<mapsto> (case files i of None \<Rightarrow> [] | Some old \<Rightarrow> old) @ toWrite)"

definition shingle_record :: "u64 list \<Rightarrow> nat \<Rightarrow> bytes" where
  "shingle_record sign i = words_bytes (chunk_at sign i) @ words_bytes sign"

definition IndexDocShingles :: "chunk_files \<Rightarrow> u64 list \<Rightarrow> chunk_files" where
  "IndexDocShingles files sign =
     foldl (\<lambda>fs i. shingleWorker fs (unat (makeShingleKey (chunk_at sign i))) (shingle_record sign i)) files chunk_starts"

datatype read_error = UnexpectedEOF

text \<open>The reading loop over one file, from the current offset on.\<close>

function scan_chunk :: "u64 list \<Rightarrow> bytes \<Rightarrow> read_error + u64 list list" where
  "scan_chunk signChunk bs =
     (if length bs < 64 then Inr []
      else
        let key = bytes_words 8 (take 64 bs); rest = drop 64 bs in
        if key \<noteq> signChunk then scan_chunk signChunk (drop 1024 rest)
        else if length rest < 1024 then Inl UnexpectedEOF
        else (case scan_chunk signChunk (drop 1024 rest) of
                Inl e \<Rightarrow> Inl e
              | Inr signs \<Rightarrow> Inr (bytes_words 128 (take 1024 rest) # signs)))"
  by pat_completeness auto
termination
  by (relation "measure (\<lambda>(c, bs). length bs)") auto

declare scan_chunk.simps [simp del]

fun get_similar :: "chunk_files \<Rightarrow> u64 list \<Rightarrow> nat list \<Rightarrow> read_error + u64 list list" where
  "get_similar files sign [] = Inr []"
| "get_similar files sign (i # is) =
     (case files (unat (makeShingleKey (chunk_at sign i))) of
        None \<Rightarrow> get_similar files sign is
      | Some file \<Rightarrow>
          (case scan_chunk (chunk_at sign i) file of
             Inl e \<Rightarrow> Inl e
           | Inr ss \<Rightarrow> (case get_similar files sign is of Inl e \<Rightarrow> Inl e | Inr rs \<Rightarrow> Inr (ss @ rs))))"

definition GetSimilarSigns :: "chunk_files \<Rightarrow> u64 list \<Rightarrow> read_error + u64 list list" where
  "GetSimilarSigns files sign = get_similar files sign chunk_starts"

section \<open>Records round-trip\<close>

lemma length_words_bytes [simp]: "length (words_bytes ws) = 8 * length ws"
  by (induction ws) (auto simp: words_bytes_def)

lemma bytes_words_words_bytes [simp]: "length ws = n \<Longrightarrow> bytes_words n (words_bytes ws @ bs) = ws"
  by (induction ws arbitrary: n) (auto simp: words_bytes_def)

lemma makeShingleKey_bound: "unat (makeShingleKey c) < 512"
proof -
  have "x mod 512 < 512" for x :: u16 by (rule word_mod_less_divisor) simp
  then show ?thesis by (simp add: makeShingleKey_def word_less_nat_alt)
qed

definition record_of :: "u64 list \<times> u64 list \<Rightarrow> bytes" where
  "record_of r = words_bytes (fst r) @ words_bytes (snd r)"

definition sized_record :: "u64 list \<times> u64 list \<Rightarrow> bool" where
  "sized_record r \<longleftrightarrow> length (fst r) = 8 \<and> length (snd r) = 128"

lemma scan_chunk_records:
  "\<forall>r \<in> set rs. sized_record r \<Longrightarrow>
   scan_chunk c (concat (map record_of rs)) = Inr (map snd (filter (\<lambda>r. fst r = c) rs))"
proof (induction rs)
  case Nil
  show ?case by (simp add: scan_chunk.simps)
next
  case (Cons r rs)
  let ?rest = "concat (map record_of rs)"
  have len: "length (words_bytes (fst r)) = 64" "length (words_bytes (snd r)) = 1024"
    using Cons.prems by (auto simp: sized_record_def)
  have keys: "bytes_words 8 (words_bytes (fst r)) = fst r" "bytes_words 128 (words_bytes (snd r)) = snd r"
    using Cons.prems bytes_words_words_bytes [of "fst r" 8 "[]"] bytes_words_words_bytes [of "snd r" 128 "[]"]
    by (auto simp: sized_record_def)
  have split: "concat (map record_of (r # rs)) = words_bytes (fst r) @ words_bytes (snd r) @ ?rest"
    by (simp add: record_of_def)
  show ?case
    unfolding split
    by (subst scan_chunk.simps) (use Cons len keys in \<open>auto simp: Let_def\<close>)
qed

text \<open>The records file \<open>k\<close> holds after indexing the signatures \<open>ss\<close> in turn.\<close>

definition doc_records :: "u64 list \<Rightarrow> (u64 list \<times> u64 list) list" where
  "doc_records sign = map (\<lambda>i. (chunk_at sign i, sign)) chunk_starts"

definition in_file :: "nat \<Rightarrow> u64 list \<times> u64 list \<Rightarrow> bool" where
  "in_file k r \<longleftrightarrow> unat (makeShingleKey (fst r)) = k"

definition file_bytes :: "nat \<Rightarrow> (u64 list \<times> u64 list) list \<Rightarrow> bytes" where
  "file_bytes k rs = concat (map record_of (filter (in_file k) rs))"

definition holds_records :: "chunk_files \<Rightarrow> (u64 list \<times> u64 list) list \<Rightarrow> bool" where
  "holds_records files rs \<longleftrightarrow>
     (\<forall>k. (files k = None \<longrightarrow> filter (in_file k) rs = []) \<and> (\<forall>bs. files k = Some bs \<longrightarrow> bs = file_bytes k rs))"

lemma holds_append:
  assumes "holds_records files rs"
  shows "holds_records (shingleWorker files (unat (makeShingleKey (fst r))) (record_of r)) (rs @ [r])"
proof -
  let ?k = "unat (makeShingleKey (fst r))"
  have "(case files ?k of None \<Rightarrow> [] | Some old \<Rightarrow> old) = file_bytes ?k rs"
    using assms by (auto simp: holds_records_def file_bytes_def split: option.splits)
  moreover have "in_file ?k r" by (simp add: in_file_def)
  moreover have "k \<noteq> ?k \<Longrightarrow> \<not> in_file k r" for k by (simp add: in_file_def)
  ultimately show ?thesis
    using assms by (auto simp: holds_records_def shingleWorker_def file_bytes_def)
qed

lemma holds_doc:
  "holds_records files rs \<Longrightarrow> holds_records (IndexDocShingles files sign) (rs @ doc_records sign)"
proof -
  have "holds_records files rs \<Longrightarrow> holds_records (foldl (\<lambda>fs i. shingleWorker fs (unat (makeShingleKey (chunk_at sign i)))
      (shingle_record sign i)) files is) (rs @ map (\<lambda>i. (chunk_at sign i, sign)) is)" for "is"
  proof (induction "is" arbitrary: files rs)
    case (Cons i "is")
    show ?case using Cons.IH [OF holds_append [OF Cons.prems, of "(chunk_at sign i, sign)"]]
      by (simp add: shingle_record_def record_of_def)
  qed simp
  then show "holds_records files rs \<Longrightarrow> holds_records (IndexDocShingles files sign) (rs @ doc_records sign)"
    by (simp only: IndexDocShingles_def doc_records_def)
qed

lemma holds_docs: "holds_records (foldl IndexDocShingles (\<lambda>_. None) ss) (concat (map doc_records ss))"
proof (induction ss rule: rev_induct)
  case Nil
  show ?case by (simp add: holds_records_def)
next
  case (snoc s ss)
  then show ?case using holds_doc [OF snoc] by simp
qed

lemma get_similar_holds:
  assumes "holds_records files rs" "\<forall>r \<in> set rs. sized_record r"
  shows "get_similar files sign is = Inr (concat (map (\<lambda>i. map snd (filter (\<lambda>r. fst r = chunk_at sign i) rs)) is))"
proof (induction "is")
  case (Cons i "is")
  let ?k = "unat (makeShingleKey (chunk_at sign i))"
  have f: "filter (\<lambda>r. fst r = chunk_at sign i) (filter (in_file ?k) rs) = filter (\<lambda>r. fst r = chunk_at sign i) rs"
    by (auto simp: in_file_def intro!: filter_cong)
  show ?case
  proof (cases "files ?k")
    case None
    then have "filter (in_file ?k) rs = []" using assms(1) by (simp add: holds_records_def)
    then show ?thesis using None Cons f by simp
  next
    case (Some bs)
    then have bs: "bs = concat (map record_of (filter (in_file ?k) rs))"
      using assms(1) by (auto simp: holds_records_def file_bytes_def split: option.splits)
    have "scan_chunk (chunk_at sign i) bs = Inr (map snd (filter (\<lambda>r. fst r = chunk_at sign i) (filter (in_file ?k) rs)))"
      unfolding bs by (rule scan_chunk_records) (use assms(2) in auto)
    then show ?thesis using Some Cons f by simp
  qed
qed simp

lemma chunk_starts_bound: "i \<in> set chunk_starts \<Longrightarrow> i + 8 \<le> 128"
  by (auto simp: chunk_starts_def simp del: upt_rec_numeral)

lemma doc_records_sized: "length s = 128 \<Longrightarrow> r \<in> set (doc_records s) \<Longrightarrow> sized_record r"
  using chunk_starts_bound by (fastforce simp: doc_records_def sized_record_def chunk_at_def)

lemma GetSimilarSigns_docs:
  assumes "\<forall>s \<in> set ss. length s = 128"
  shows "\<exists>rs. GetSimilarSigns (foldl IndexDocShingles (\<lambda>_. None) ss) sign = Inr rs \<and>
    set rs = {s \<in> set ss. \<exists>i \<in> set chunk_starts. \<exists>j \<in> set chunk_starts. chunk_at s j = chunk_at sign i}"
proof -
  have sized: "\<forall>r \<in> set (concat (map doc_records ss)). sized_record r" using assms doc_records_sized by auto
  show ?thesis
    unfolding GetSimilarSigns_def get_similar_holds [OF holds_docs sized]
    by (auto simp: doc_records_def image_iff) metis+
qed

section \<open>Properties\<close>

text \<open>
  C27: after indexing any signatures into empty files a lookup returns, without an error, exactly the
  indexed signatures that share a chunk of eight entries with the query.
\<close>

theorem lookup_returns_sharing_signatures:
  assumes "\<forall>s \<in> set ss. length s = 128"
  shows "\<exists>rs. GetSimilarSigns (foldl IndexDocShingles (\<lambda>_. None) ss) sign = Inr rs \<and>
    set rs = {s \<in> set ss. \<exists>i \<in> set chunk_starts. \<exists>j \<in> set chunk_starts. chunk_at s j = chunk_at sign i}"
  using GetSimilarSigns_docs [OF assms] .

theorem lookup_returns_sharing_signatures_witness:
  "\<exists>rs. GetSimilarSigns (foldl IndexDocShingles (\<lambda>_. None) [replicate 128 3]) (replicate 128 3) = Inr rs \<and> set rs \<subseteq> {replicate 128 3}"
  using lookup_returns_sharing_signatures [of "[replicate 128 3]" "replicate 128 3"] by auto

text \<open>
  C28: a page with the same four-word shingles as an indexed one, in any order, is found again with
  similarity 1, above the bound 0.8 at which the indexer rejects it as already indexed.
\<close>

theorem duplicate_page_is_rejected:
  assumes "set (getWordNGrams ts) = set (getWordNGrams us)" and "ts \<in> set docs"
  shows "\<exists>rs. GetSimilarSigns (foldl IndexDocShingles (\<lambda>_. None) (map (CreateSignature mh) docs)) (CreateSignature mh us) = Inr rs \<and>
    calcSim (CreateSignature mh us) rs = 1"
proof -
  let ?s = "CreateSignature mh us" and ?ss = "map (CreateSignature mh) docs"
  have "CreateSignature mh ts = ?s"
    by (rule nth_equalityI) (simp_all add: signature_nth assms(1))
  then have mem: "?s \<in> set ?ss" using assms(2) by (metis image_eqI set_map)
  have len: "\<forall>s \<in> set ?ss. length s = 128" by auto
  obtain rs where rs: "GetSimilarSigns (foldl IndexDocShingles (\<lambda>_. None) ?ss) ?s = Inr rs"
    "set rs = {s \<in> set ?ss. \<exists>i \<in> set chunk_starts. \<exists>j \<in> set chunk_starts. chunk_at s j = chunk_at ?s i}"
    using GetSimilarSigns_docs [OF len] by blast
  have "0 \<in> set chunk_starts" by (simp add: chunk_starts_def)
  then have "?s \<in> set rs" using mem rs(2) by auto
  then have "calcSim ?s rs = 1" using calcSim_one [of ?s rs] len rs(2) by auto
  then show ?thesis using rs(1) by blast
qed

theorem duplicate_page_is_rejected_witness:
  "\<exists>rs. GetSimilarSigns (foldl IndexDocShingles (\<lambda>_. None)
      (map (CreateSignature \<lparr>mh_a = replicate 128 1, mh_b = replicate 128 0\<rparr>) [[''a'', ''b'', ''c'', ''d'', ''a'', ''b'', ''c'']]))
      (CreateSignature \<lparr>mh_a = replicate 128 1, mh_b = replicate 128 0\<rparr> [''a'', ''b'', ''c'', ''d'', ''a'', ''b'', ''c'', ''d'']) = Inr rs \<and>
    calcSim (CreateSignature \<lparr>mh_a = replicate 128 1, mh_b = replicate 128 0\<rparr> [''a'', ''b'', ''c'', ''d'', ''a'', ''b'', ''c'', ''d'']) rs = 1"
proof (rule duplicate_page_is_rejected)
  show "set (getWordNGrams [''a'', ''b'', ''c'', ''d'', ''a'', ''b'', ''c'']) =
      set (getWordNGrams [''a'', ''b'', ''c'', ''d'', ''a'', ''b'', ''c'', ''d''])"
    by (auto simp: getWordNGrams_def nGramSize_def)
qed simp

end
