(* ===== verification/IndexStore.thy ===== *)
theory IndexStore
  imports WordIndex ShingleRepo
begin

text \<open>
  The other tables of the index repository (\<open>indexRepos.go\<close>, \<open>documentRepos.go\<close>, \<open>urlsRepos.go\<close>):
  frequencies of word pairs, visited URLs, documents, page links, and the file of hash salts; with the
  average document length of \<open>indexer.go\<close>.
\<close>

section \<open>Counters\<close>

definition encCount :: "int \<Rightarrow> bytes" where
  "encCount n = be_bytes 4 (word_of_int n :: u32)"

definition decCount :: "bytes \<Rightarrow> int go" where
  "decCount c = (if length c < 4 then Inl IndexOutOfRange else Inr (uint (be_word (take 4 c) :: u32)))"

lemma decCount_encCount [simp]: "decCount (encCount n) = Inr (n mod 2 ^ 32)"
  by (simp add: decCount_def encCount_def uint_word_of_int)

section \<open>Frequencies of word pairs\<close>

definition bi_key :: "u64 \<times> u64 \<Rightarrow> string" where
  "bi_key lr = ''big:'' @ fmt_d (unat (fst lr)) @ '':'' @ fmt_d (unat (snd lr))"

definition commit :: "'db pebble \<Rightarrow> (string \<times> bytes) list \<Rightarrow> 'db \<Rightarrow> 'db" where
  "commit kv b db = foldl (\<lambda>d (k, v). db_set kv d k v) db b"

text \<open>\<open>biS\<close> in the order in which Go iterates the map; the batch is committed every 20 entries.\<close>

fun bi_loop :: "'db pebble \<Rightarrow> 'db \<Rightarrow> (string \<times> bytes) list \<Rightarrow> nat \<Rightarrow> ((u64 \<times> u64) \<times> int) list \<Rightarrow> 'db go" where
  "bi_loop kv db b c [] = Inr (commit kv b db)"
| "bi_loop kv db b c ((lr, freq) # es) =
     (case (case db_get kv db (bi_key lr) of None \<Rightarrow> Inr freq
            | Some val \<Rightarrow> (case decCount val of Inl p \<Rightarrow> Inl p | Inr old \<Rightarrow> Inr (freq + old))) of
        Inl p \<Rightarrow> Inl p
      | Inr freq' \<Rightarrow>
          let b' = b @ [(bi_key lr, encCount freq')] in
          if c + 1 = 20 then bi_loop kv (commit kv b' db) [] 0 es else bi_loop kv db b' (c + 1) es)"

definition UpdateBiFreq :: "'db pebble \<Rightarrow> 'db \<Rightarrow> ((u64 \<times> u64) \<times> int) list \<Rightarrow> 'db go" where
  "UpdateBiFreq kv db biS = bi_loop kv db [] 0 biS"

definition GetFreq :: "'db pebble \<Rightarrow> 'db \<Rightarrow> u64 \<Rightarrow> u64 \<Rightarrow> int go" where
  "GetFreq kv db l r = (case db_get kv db (bi_key (l, r)) of None \<Rightarrow> Inr 0 | Some val \<Rightarrow> decCount val)"

section \<open>Visited URLs\<close>

definition SaveVisitedUrls :: "'db pebble \<Rightarrow> 'db \<Rightarrow> (string \<times> int) list \<Rightarrow> 'db" where
  "SaveVisitedUrls kv db urls = foldl (\<lambda>d (u, depth). db_set kv d (''visited:'' @ u) (encCount depth)) db urls"

fun load_visited :: "(string \<times> bytes) list \<Rightarrow> (string \<rightharpoonup> int) \<Rightarrow> (string \<rightharpoonup> int) go" where
  "load_visited [] m = Inr m"
| "load_visited ((k, v) # es) m =
     (case decCount v of Inl p \<Rightarrow> Inl p
      | Inr depth \<Rightarrow> load_visited es (m((if has_prefix k ''visited:'' then drop 8 k else k) \<mapsto> depth)))"

definition LoadVisitedUrls :: "'db pebble \<Rightarrow> 'db \<Rightarrow> (string \<rightharpoonup> int) \<Rightarrow> (string \<rightharpoonup> int) go" where
  "LoadVisitedUrls kv db visited = load_visited (db_range kv db ''visited:'' (prefixUpperBound ''visited:'')) visited"

section \<open>Documents and page links\<close>

text \<open>\<open>encoding/json\<close> is a parameter: \<open>None\<close> is its error.\<close>

definition raw :: "bytes \<Rightarrow> string" where
  "raw bs = map (\<lambda>b. char_of (unat b)) bs"

definition documentToBytes :: "(bytes \<times> string \<times> int \<Rightarrow> bytes option) \<Rightarrow> Document \<Rightarrow> repo_error + bytes" where
  "documentToBytes to_json doc =
     (case to_json (DocId doc, DocURL doc, TokenCount doc) of None \<Rightarrow> Inl JsonError | Some b \<Rightarrow> Inr b)"

definition bytesToDocument :: "(bytes \<Rightarrow> (bytes \<times> string \<times> int) option) \<Rightarrow> bytes \<Rightarrow> repo_error + Document" where
  "bytesToDocument from_json body =
     (case from_json body of
        None \<Rightarrow> Inl JsonError
      | Some (ident, u, n) \<Rightarrow>
          if length ident \<noteq> 32 then Inl (InvalidIdLength (length ident))
          else Inr \<lparr>DocId = ident, DocURL = u, TokenCount = n\<rparr>)"

definition SaveDocument :: "'db pebble \<Rightarrow> (bytes \<times> string \<times> int \<Rightarrow> bytes option) \<Rightarrow> 'db \<Rightarrow> Document \<Rightarrow> repo_error + 'db" where
  "SaveDocument kv to_json db doc =
     (case documentToBytes to_json doc of
        Inl e \<Rightarrow> Inl e | Inr b \<Rightarrow> Inr (db_set kv db (''doc:'' @ raw (DocId doc)) b))"

definition GetDocumentByID :: "'db pebble \<Rightarrow> (bytes \<Rightarrow> (bytes \<times> string \<times> int) option) \<Rightarrow> 'db \<Rightarrow> bytes \<Rightarrow> repo_error + Document" where
  "GetDocumentByID kv from_json db docID =
     (case db_get kv db (''doc:'' @ raw docID) of None \<Rightarrow> Inl ErrNotFound | Some v \<Rightarrow> bytesToDocument from_json v)"

fun read_documents :: "(bytes \<Rightarrow> (bytes \<times> string \<times> int) option) \<Rightarrow> (string \<times> bytes) list \<Rightarrow> repo_error + Document list" where
  "read_documents from_json [] = Inr []"
| "read_documents from_json ((k, v) # es) =
     (case bytesToDocument from_json v of
        Inl e \<Rightarrow> Inl e
      | Inr doc \<Rightarrow> (case read_documents from_json es of Inl e \<Rightarrow> Inl e | Inr docs \<Rightarrow> Inr (doc # docs)))"

definition GetAllDocuments :: "'db pebble \<Rightarrow> (bytes \<Rightarrow> (bytes \<times> string \<times> int) option) \<Rightarrow> 'db \<Rightarrow> repo_error + Document list" where
  "GetAllDocuments kv from_json db = read_documents from_json (db_range kv db ''doc:'' (prefixUpperBound ''doc:''))"

definition GetDocumentsCount :: "'db pebble \<Rightarrow> 'db \<Rightarrow> nat" where
  "GetDocumentsCount kv db = length (db_range kv db ''doc:'' (prefixUpperBound ''doc:''))"

text \<open>Without documents the quotient is \<open>0.0 / 0.0\<close>.\<close>

definition GetAVGLen :: "'db pebble \<Rightarrow> (bytes \<Rightarrow> (bytes \<times> string \<times> int) option) \<Rightarrow> 'db \<Rightarrow> repo_error + f64" where
  "GetAVGLen kv from_json db =
     (case GetAllDocuments kv from_json db of
        Inl e \<Rightarrow> Inl e
      | Inr docs \<Rightarrow>
          let tokens = sum_list (map TokenCount docs) in
          Inr (if docs = [] then NaN else Fin (real_of_int tokens / real (length docs))))"

definition IndexUrlsByHash :: "'db pebble \<Rightarrow> 'db \<Rightarrow> bytes \<Rightarrow> bytes \<Rightarrow> 'db" where
  "IndexUrlsByHash kv db hash urlsStruct = db_set kv db (''hashKey:'' @ raw hash) urlsStruct"

definition GetPageUrlsByHash :: "'db pebble \<Rightarrow> 'db \<Rightarrow> bytes \<Rightarrow> repo_error + bytes" where
  "GetPageUrlsByHash kv db hash =
     (case db_get kv db (''hashKey:'' @ raw hash) of None \<Rightarrow> Inl ErrNotFound | Some v \<Rightarrow> Inr v)"

section \<open>Hash salts\<close>

text \<open>The content of \<open>salt.bin\<close>; \<open>None\<close> is a missing file.\<close>

definition SaveSaltArrays :: "u64 list \<Rightarrow> u64 list \<Rightarrow> bytes" where
  "SaveSaltArrays a b = words_bytes (a @ b)"

definition UploadSaltArrays :: "bytes option \<Rightarrow> read_error + (u64 list \<times> u64 list) option" where
  "UploadSaltArrays file =
     (case file of
        None \<Rightarrow> Inr None
      | Some bs \<Rightarrow>
          if length bs < 128 * 8 then Inl UnexpectedEOF
          else if length (drop (128 * 8) bs) < 128 * 8 then Inl UnexpectedEOF
          else Inr (Some (bytes_words 128 (take (128 * 8) bs), bytes_words 128 (take (128 * 8) (drop (128 * 8) bs)))))"

section \<open>Lemmas\<close>

lemma split_at_colon: "CHR '':'' \<notin> set a \<Longrightarrow> CHR '':'' \<notin> set c \<Longrightarrow> a @ CHR '':'' # b = c @ CHR '':'' # d \<Longrightarrow> a = c \<and> b = d"
  by (auto simp: append_eq_append_conv2 append_eq_Cons_conv Cons_eq_append_conv)

lemma bi_key_inject [simp]: "bi_key p = bi_key q \<longleftrightarrow> p = q"
proof
  assume "bi_key p = bi_key q"
  then have "fmt_d (unat (fst p)) @ CHR '':'' # fmt_d (unat (snd p)) = fmt_d (unat (fst q)) @ CHR '':'' # fmt_d (unat (snd q))"
    by (simp add: bi_key_def)
  from split_at_colon [OF fmt_d_no_colon fmt_d_no_colon this] show "p = q" by (simp add: prod_eq_iff word_unat_eq_iff)
qed simp

text \<open>The frequencies as a total function: the abstract state of the table.\<close>

definition freq_of :: "'db pebble \<Rightarrow> 'db \<Rightarrow> u64 \<times> u64 \<Rightarrow> int" where
  "freq_of kv db lr = (case GetFreq kv db (fst lr) (snd lr) of Inl _ \<Rightarrow> 0 | Inr n \<Rightarrow> n)"

definition wf_freqs :: "'db pebble \<Rightarrow> 'db \<Rightarrow> bool" where
  "wf_freqs kv db \<longleftrightarrow> (\<forall>lr v. db_get kv db (bi_key lr) = Some v \<longrightarrow> 4 \<le> length v)"

definition add_freqs :: "((u64 \<times> u64) \<times> int) list \<Rightarrow> (u64 \<times> u64 \<Rightarrow> int) \<Rightarrow> u64 \<times> u64 \<Rightarrow> int" where
  "add_freqs es f lr = (case map_of es lr of None \<Rightarrow> f lr | Some n \<Rightarrow> (n + f lr) mod 2 ^ 32)"

lemma wf_freqsD: "wf_freqs kv db \<Longrightarrow> db_get kv db (bi_key lr) = Some v \<Longrightarrow> \<not> length v < 4"
  unfolding wf_freqs_def by (meson not_less)

lemma GetFreq_freq_of: "wf_freqs kv db \<Longrightarrow> GetFreq kv db l r = Inr (freq_of kv db (l, r))"
  by (auto simp: freq_of_def GetFreq_def decCount_def split: option.splits dest: wf_freqsD)

lemma freq_of_set:
  assumes "pebble_laws kv"
  shows "freq_of kv (db_set kv db (bi_key lr) (encCount n)) = (freq_of kv db)(lr := n mod 2 ^ 32)"
    and "wf_freqs kv db \<Longrightarrow> wf_freqs kv (db_set kv db (bi_key lr) (encCount n))"
  by (auto simp: freq_of_def GetFreq_def wf_freqs_def get_set [OF assms] encCount_def decCount_def uint_word_of_int fun_eq_iff
      split: option.splits)

lemma commit_snoc: "commit kv (b @ [(k, v)]) db = db_set kv (commit kv b db) k v"
  by (simp add: commit_def)

lemma commit_other: "pebble_laws kv \<Longrightarrow> k \<notin> fst ` set b \<Longrightarrow> db_get kv (commit kv b db) k = db_get kv db k"
  by (induction b arbitrary: db) (auto simp: commit_def get_set)

text \<open>Reading from the database without the pending batch is harmless, since the keys of a map are distinct.\<close>

lemma bi_loop_adds:
  assumes laws: "pebble_laws kv"
  shows "wf_freqs kv (commit kv b db) \<Longrightarrow> distinct (map fst es) \<Longrightarrow> \<forall>lr \<in> fst ` set es. bi_key lr \<notin> fst ` set b \<Longrightarrow>
    \<exists>db'. bi_loop kv db b c es = Inr db' \<and> wf_freqs kv db' \<and> freq_of kv db' = add_freqs es (freq_of kv (commit kv b db))"
proof (induction es arbitrary: db b c)
  case Nil
  then show ?case by (auto simp: add_freqs_def)
next
  case (Cons e es)
  obtain lr n where e: "e = (lr, n)" by (cases e)
  let ?db = "commit kv b db" and ?n = "n + freq_of kv (commit kv b db) lr"
  let ?b = "b @ [(bi_key lr, encCount ?n)]"
  have same: "db_get kv db (bi_key lr) = db_get kv ?db (bi_key lr)"
    using commit_other [OF laws, of "bi_key lr" b db] Cons.prems(3) e by simp
  have freq: "(case db_get kv db (bi_key lr) of None \<Rightarrow> Inr n
      | Some val \<Rightarrow> (case decCount val of Inl p \<Rightarrow> Inl p | Inr old \<Rightarrow> Inr (n + old))) = (Inr ?n :: int go)"
    unfolding same using Cons.prems(1)
    by (auto simp: freq_of_def GetFreq_def decCount_def split: option.splits dest: wf_freqsD)
  have step: "freq_of kv (commit kv ?b db) = (freq_of kv ?db)(lr := ?n mod 2 ^ 32)" "wf_freqs kv (commit kv ?b db)"
    using freq_of_set [OF laws] Cons.prems(1) by (simp_all add: commit_snoc)
  have rest: "distinct (map fst es)" "lr \<notin> fst ` set es" "\<forall>q \<in> fst ` set es. bi_key q \<notin> fst ` set ?b"
    using Cons.prems(2,3) e by auto
  have none: "map_of es lr = None" using rest(2) by (simp add: map_of_eq_None_iff)
  have eq: "add_freqs es (freq_of kv (commit kv ?b db)) = add_freqs ((lr, n) # es) (freq_of kv ?db)"
  proof
    fix q
    show "add_freqs es (freq_of kv (commit kv ?b db)) q = add_freqs ((lr, n) # es) (freq_of kv ?db) q"
      by (cases "q = lr") (simp_all add: step(1) add_freqs_def none split: option.split)
  qed
  show ?case
  proof (cases "c + 1 = 20")
    case True
    have "commit kv [] (commit kv ?b db) = commit kv ?b db" by (simp add: commit_def)
    then show ?thesis
      using Cons.IH [of "[]" "commit kv ?b db" 0] True step(2) rest(1) eq by (simp add: e freq Let_def)
  next
    case False
    then show ?thesis using Cons.IH [OF step(2) rest(1,3), of "c + 1"] eq by (simp add: e freq Let_def)
  qed
qed

lemma raw_inject [simp]: "raw a = raw b \<longleftrightarrow> a = b"
proof -
  have "(char_of (unat x) :: char) = char_of (unat y) \<longleftrightarrow> x = y" for x y :: byte
  proof -
    have "unat x < 256" "unat y < 256"
      using unsigned_less [where w = x and 'a = nat] unsigned_less [where w = y and 'a = nat] by simp_all
    then have "(of_char (char_of (unat x) :: char) :: nat) = unat x" "(of_char (char_of (unat y) :: char) :: nat) = unat y" by simp_all
    then show ?thesis by (metis word_unat_eq_iff)
  qed
  then have "inj (\<lambda>b :: byte. (char_of (unat b) :: char))" by (simp add: inj_def)
  then show ?thesis by (simp add: raw_def inj_map_eq_map)
qed

lemma documents_count:
  assumes "pebble_laws kv"
  shows "GetDocumentsCount kv db = card {k. db_get kv db k \<noteq> None \<and> prefix ''doc:'' k}"
proof -
  let ?es = "db_range kv db ''doc:'' (prefixUpperBound ''doc:'')"
  have "length ?es = card (fst ` set ?es)"
    using distinct_card [OF distinct_range [OF assms], of db "''doc:''" "prefixUpperBound ''doc:''"] by simp
  moreover have "fst ` set ?es = {k. db_get kv db k \<noteq> None \<and> prefix ''doc:'' k}"
    using range_prefix [OF assms] by force
  ultimately show ?thesis by (simp add: GetDocumentsCount_def)
qed

lemma finite_keys: "pebble_laws kv \<Longrightarrow> finite {k. db_get kv db k \<noteq> None \<and> prefix p k}"
proof -
  assume laws: "pebble_laws kv"
  have "{k. db_get kv db k \<noteq> None \<and> prefix p k} = fst ` set (db_range kv db p (prefixUpperBound p))"
    using range_prefix [OF laws] by force
  then show ?thesis by simp
qed

lemma UploadSalt_Save: "length a = 128 \<Longrightarrow> length b = 128 \<Longrightarrow> UploadSaltArrays (Some (SaveSaltArrays a b)) = Inr (Some (a, b))"
  using bytes_words_words_bytes [of a 128 "[]"] bytes_words_words_bytes [of b 128 "[]"]
  by (simp add: UploadSaltArrays_def SaveSaltArrays_def words_bytes_def [of "a @ b"] flip: words_bytes_def)

section \<open>Properties\<close>

text \<open>
  \<open>UpdateBiFreq\<close> adds every pair's count to its stored frequency, modulo \<open>2 ^ 32\<close>, and leaves all
  other pairs alone, although it reads past its own pending batch of 20 writes.
\<close>

theorem UpdateBiFreq_adds:
  assumes "pebble_laws kv" "wf_freqs kv db" "distinct (map fst biS)"
  shows "\<exists>db'. UpdateBiFreq kv db biS = Inr db' \<and>
    (\<forall>l r. GetFreq kv db' l r = Inr (add_freqs biS (freq_of kv db) (l, r)))"
proof -
  have c: "commit kv [] db = db" by (simp add: commit_def)
  then obtain db' where "bi_loop kv db [] 0 biS = Inr db'" "wf_freqs kv db'" "freq_of kv db' = add_freqs biS (freq_of kv db)"
    using bi_loop_adds [OF assms(1), of "[]" db biS 0] assms(2,3) by auto
  then show ?thesis by (auto simp: UpdateBiFreq_def GetFreq_freq_of [of kv db'])
qed

theorem UpdateBiFreq_adds_witness:
  "\<exists>db'. UpdateBiFreq list_db [(bi_key (1, 2), encCount 40)] [((1, 2), 2)] = Inr db' \<and> GetFreq list_db db' 1 2 = Inr 42"
proof -
  let ?db = "[(bi_key (1, 2), encCount 40)]"
  have "wf_freqs list_db ?db" by (simp add: wf_freqs_def list_db_def encCount_def)
  moreover have "freq_of list_db ?db (1, 2) = 40" by (simp add: freq_of_def GetFreq_def list_db_def)
  ultimately show ?thesis
    using UpdateBiFreq_adds [OF list_db_laws, of ?db "[((1, 2), 2)]"] by (auto simp: add_freqs_def)
qed

text \<open>
  A saved document is read back by its id, the other documents stay as they were, and the number of
  documents grows by one exactly if the id was new. \<open>encoding/json\<close> is assumed to decode what it encoded.
\<close>

theorem SaveDocument_roundtrip:
  assumes laws: "pebble_laws kv" and json: "\<forall>p b. to_json p = Some b \<longrightarrow> from_json b = Some p"
    and doc: "length (DocId doc) = 32" "SaveDocument kv to_json db doc = Inr db'"
  shows "GetDocumentByID kv from_json db' (DocId doc) = Inr doc \<and>
    (\<forall>x. x \<noteq> DocId doc \<longrightarrow> GetDocumentByID kv from_json db' x = GetDocumentByID kv from_json db x) \<and>
    GetDocumentsCount kv db' = GetDocumentsCount kv db + (if GetDocumentByID kv from_json db (DocId doc) = Inl ErrNotFound then 1 else 0)"
proof -
  let ?k = "''doc:'' @ raw (DocId doc)"
  obtain b where b: "to_json (DocId doc, DocURL doc, TokenCount doc) = Some b" "db' = db_set kv db ?k b"
    using doc(2) by (auto simp: SaveDocument_def documentToBytes_def split: option.splits)
  have found: "GetDocumentByID kv from_json db (DocId doc) = Inl ErrNotFound \<longleftrightarrow> db_get kv db ?k = None"
    by (auto simp: GetDocumentByID_def bytesToDocument_def split: option.splits)
  let ?keys = "{k. db_get kv db k \<noteq> None \<and> prefix ''doc:'' k}"
  have "{k. db_get kv db' k \<noteq> None \<and> prefix ''doc:'' k} = insert ?k ?keys"
    by (auto simp: b(2) get_set [OF laws] split: if_splits)
  then have "GetDocumentsCount kv db' = (if ?k \<in> ?keys then card ?keys else Suc (card ?keys))"
    using card_insert_if [OF finite_keys [OF laws], of ?k] by (simp add: documents_count [OF laws])
  moreover have "?k \<in> ?keys \<longleftrightarrow> db_get kv db ?k \<noteq> None" by simp
  ultimately show ?thesis
    using found b(1) json doc(1)
    by (auto simp: GetDocumentByID_def bytesToDocument_def b(2) get_set [OF laws] documents_count [OF laws])
qed

definition demo_doc :: Document where
  "demo_doc = \<lparr>DocId = replicate 32 1, DocURL = ''https://go.dev/'', TokenCount = 9\<rparr>"

definition demo_json :: "bytes \<times> string \<times> int \<Rightarrow> bytes option" where
  "demo_json p = (if p = (DocId demo_doc, DocURL demo_doc, TokenCount demo_doc) then Some [1] else None)"

theorem SaveDocument_roundtrip_witness:
  "\<exists>db'. SaveDocument list_db demo_json [] demo_doc = Inr db' \<and>
     GetDocumentByID list_db (\<lambda>_. Some (DocId demo_doc, DocURL demo_doc, TokenCount demo_doc)) db' (replicate 32 1) = Inr demo_doc"
proof -
  obtain db' where db': "SaveDocument list_db demo_json [] demo_doc = Inr db'"
    by (simp add: SaveDocument_def documentToBytes_def demo_json_def)
  have json: "\<forall>p b. demo_json p = Some b \<longrightarrow> (\<lambda>_. Some (DocId demo_doc, DocURL demo_doc, TokenCount demo_doc)) b = Some p"
    by (auto simp: demo_json_def)
  have len: "length (DocId demo_doc) = 32" "DocId demo_doc = replicate 32 1" by (simp_all add: demo_doc_def)
  from SaveDocument_roundtrip [OF list_db_laws json len(1) db'] db' show ?thesis unfolding len(2) by blast
qed

text \<open>
  The hash functions survive a restart: reading \<open>salt.bin\<close> returns the two arrays that were saved, so
  signatures computed before and after are comparable.
\<close>

theorem salts_roundtrip:
  assumes "length a = 128" "length b = 128"
  shows "UploadSaltArrays (Some (SaveSaltArrays a b)) = Inr (Some (a, b))"
  by (rule UploadSalt_Save [OF assms])

theorem salts_roundtrip_witness:
  "UploadSaltArrays (Some (SaveSaltArrays (replicate 128 5) (replicate 128 6))) = Inr (Some (replicate 128 5, replicate 128 6))"
  by (rule salts_roundtrip) simp_all

end
