(* ===== verification/LruCache.thy ===== *)
theory LruCache
  imports Prelude
begin

text \<open>
  The LRU cache (\<open>internal/services/wfts/offline/scraper/lruCache/lruCache.go\<close>) over an explicit store
  of nodes, since \<open>remove\<close> and \<open>insert\<close> rewire shared nodes in place. It refines an association list
  with the most recently used entry first; the interface \<open>repository.Cacher\<close> (\<open>indexRepos.go\<close>) is the
  locale \<open>cacher\<close>, interpreted on the cache.
\<close>

section \<open>The cache\<close>

text \<open>A pointer is an address, \<open>None\<close> is nil; the addresses from \<open>fresh\<close> on are not allocated yet.\<close>

record ('k, 'v) node =
  node_prev :: "nat option"
  node_next :: "nat option"
  node_key :: 'k
  node_value :: 'v

record ('k, 'v) LRUCache =
  mp :: "'k \<rightharpoonup> nat"
  head :: nat
  tail :: nat
  capacity :: int
  store :: "nat \<Rightarrow> ('k, 'v) node"
  fresh :: nat

definition newNode :: "'k \<Rightarrow> 'v \<Rightarrow> ('k, 'v) node" where
  "newNode k v = \<lparr>node_prev = None, node_next = None, node_key = k, node_value = v\<rparr>"

text \<open>The sentinels carry the key \<open>[32]byte{}\<close> and the value \<open>nil\<close>, here \<open>k0\<close> and \<open>v0\<close>.\<close>

definition NewLRUCache :: "'k \<Rightarrow> 'v \<Rightarrow> int \<Rightarrow> ('k, 'v) LRUCache" where
  "NewLRUCache k0 v0 cap =
     \<lparr>mp = Map.empty, head = 0, tail = 1, capacity = cap,
      store = (\<lambda>_. newNode k0 v0)(0 := (newNode k0 v0)\<lparr>node_next := Some 1\<rparr>,
                                  1 := (newNode k0 v0)\<lparr>node_prev := Some 0\<rparr>),
      fresh = 2\<rparr>"

definition set_next :: "('k, 'v) LRUCache \<Rightarrow> nat \<Rightarrow> nat option \<Rightarrow> ('k, 'v) LRUCache" where
  "set_next c p q = c\<lparr>store := (store c)(p := (store c p)\<lparr>node_next := q\<rparr>)\<rparr>"

definition set_prev :: "('k, 'v) LRUCache \<Rightarrow> nat \<Rightarrow> nat option \<Rightarrow> ('k, 'v) LRUCache" where
  "set_prev c p q = c\<lparr>store := (store c)(p := (store c p)\<lparr>node_prev := q\<rparr>)\<rparr>"

definition lru_remove :: "('k, 'v) LRUCache \<Rightarrow> nat \<Rightarrow> ('k, 'v) LRUCache go" where
  "lru_remove c p =
     (let c1 = c\<lparr>mp := (mp c)(node_key (store c p) := None)\<rparr> in
      case node_prev (store c1 p) of
        None \<Rightarrow> Inl NilDereference
      | Some a \<Rightarrow>
          let c2 = set_next c1 a (node_next (store c1 p)) in
          (case node_next (store c2 p) of
             None \<Rightarrow> Inl NilDereference
           | Some b \<Rightarrow> Inr (set_prev c2 b (node_prev (store c2 p)))))"

definition lru_insert :: "('k, 'v) LRUCache \<Rightarrow> nat \<Rightarrow> ('k, 'v) LRUCache go" where
  "lru_insert c p =
     (let c1 = c\<lparr>mp := (mp c)(node_key (store c p) \<mapsto> p)\<rparr>;
          nxt = node_next (store c1 (head c1));
          c2 = set_next c1 (head c1) (Some p);
          c3 = set_prev c2 p (Some (head c2))
      in case nxt of
           None \<Rightarrow> Inl NilDereference
         | Some b \<Rightarrow> Inr (set_next (set_prev c3 b (Some p)) p nxt))"

text \<open>\<open>Get\<close> returns \<open>nil\<close> for an absent key, here \<open>None\<close>.\<close>

definition lru_Get :: "('k, 'v) LRUCache \<Rightarrow> 'k \<Rightarrow> ('v option \<times> ('k, 'v) LRUCache) go" where
  "lru_Get c k =
     (case mp c k of
        None \<Rightarrow> Inr (None, c)
      | Some p \<Rightarrow>
          (case lru_remove c p of
             Inl e \<Rightarrow> Inl e
           | Inr c1 \<Rightarrow>
               (case lru_insert c1 p of
                  Inl e \<Rightarrow> Inl e
                | Inr c2 \<Rightarrow> Inr (Some (node_value (store c2 p)), c2))))"

definition put_node :: "('k, 'v) LRUCache \<Rightarrow> 'k \<Rightarrow> 'v \<Rightarrow> ('k, 'v) LRUCache go" where
  "put_node c k v =
     lru_insert (c\<lparr>store := (store c)(fresh c := newNode k v), fresh := fresh c + 1\<rparr>) (fresh c)"

definition lru_Put :: "('k, 'v) LRUCache \<Rightarrow> 'k \<Rightarrow> 'v \<Rightarrow> ('k, 'v) LRUCache go" where
  "lru_Put c k v =
     (case (case mp c k of Some p \<Rightarrow> lru_remove c p | None \<Rightarrow> Inr c) of
        Inl e \<Rightarrow> Inl e
      | Inr c1 \<Rightarrow>
          (case (if int (card (dom (mp c1))) = capacity c1
                 then (case node_prev (store c1 (tail c1)) of None \<Rightarrow> Inl NilDereference | Some q \<Rightarrow> lru_remove c1 q)
                 else Inr c1) of
             Inl e \<Rightarrow> Inl e
           | Inr c2 \<Rightarrow> put_node c2 k v))"

section \<open>The reference: an association list, most recently used first\<close>

definition ref_get :: "('k \<times> 'v) list \<Rightarrow> 'k \<Rightarrow> 'v option \<times> ('k \<times> 'v) list" where
  "ref_get xs k =
     (case map_of xs k of None \<Rightarrow> (None, xs) | Some v \<Rightarrow> (Some v, (k, v) # filter (\<lambda>e. fst e \<noteq> k) xs))"

definition ref_put :: "int \<Rightarrow> ('k \<times> 'v) list \<Rightarrow> 'k \<Rightarrow> 'v \<Rightarrow> ('k \<times> 'v) list" where
  "ref_put cap xs k v =
     (let ys = filter (\<lambda>e. fst e \<noteq> k) xs in (k, v) # (if int (length ys) = cap then butlast ys else ys))"

section \<open>Doubly linked lists in the store\<close>

fun linked :: "(nat \<Rightarrow> ('k, 'v) node) \<Rightarrow> nat list \<Rightarrow> bool" where
  "linked st (p # q # ps) \<longleftrightarrow> node_next (st p) = Some q \<and> node_prev (st q) = Some p \<and> linked st (q # ps)"
| "linked st ps \<longleftrightarrow> True"

lemma linked_append: "linked st (xs @ p # ys) \<longleftrightarrow> linked st (xs @ [p]) \<and> linked st (p # ys)"
proof (induction xs)
  case (Cons x xs)
  then show ?case by (cases xs) auto
qed simp

lemma in_set_tlD: "x \<in> set (tl xs) \<Longrightarrow> x \<in> set xs"
  by (cases xs) auto

lemma linked_frame:
  "(\<And>p. p \<in> set (butlast ps) \<Longrightarrow> node_next (st' p) = node_next (st p)) \<Longrightarrow>
   (\<And>p. p \<in> set (tl ps) \<Longrightarrow> node_prev (st' p) = node_prev (st p)) \<Longrightarrow> linked st ps \<Longrightarrow> linked st' ps"
proof (induction st ps rule: linked.induct)
  case (1 st p q ps)
  have "linked st' (q # ps)"
    by (rule "1.IH") (use "1.prems" in \<open>auto dest: list.set_sel(2)\<close>)
  then show ?case using "1.prems" by simp
qed auto

definition entries :: "(nat \<Rightarrow> ('k, 'v) node) \<Rightarrow> nat list \<Rightarrow> ('k \<times> 'v) list" where
  "entries st ps = map (\<lambda>p. (node_key (st p), node_value (st p))) ps"

text \<open>The nodes \<open>ps\<close> hang in this order between the sentinels, and \<open>mp\<close> finds each by its key.\<close>

definition lru_nodes :: "('k, 'v) LRUCache \<Rightarrow> nat list \<Rightarrow> bool" where
  "lru_nodes c ps \<longleftrightarrow>
     linked (store c) (head c # ps @ [tail c]) \<and> distinct (head c # ps @ [tail c]) \<and>
     (\<forall>p \<in> set (head c # ps @ [tail c]). p < fresh c) \<and>
     distinct (map fst (entries (store c) ps)) \<and>
     (\<forall>k p. mp c k = Some p \<longleftrightarrow> p \<in> set ps \<and> node_key (store c p) = k)"

definition lru_repr :: "('k, 'v) LRUCache \<Rightarrow> ('k \<times> 'v) list \<Rightarrow> bool" where
  "lru_repr c xs \<longleftrightarrow> (\<exists>ps. lru_nodes c ps \<and> entries (store c) ps = xs)"

lemma lru_nodes_remove:
  assumes "lru_nodes c (xs @ p # ys)"
  shows "\<exists>c'. lru_remove c p = Inr c' \<and> lru_nodes c' (xs @ ys) \<and>
    (\<forall>q. node_key (store c' q) = node_key (store c q) \<and> node_value (store c' q) = node_value (store c q)) \<and>
    fresh c' = fresh c \<and> head c' = head c \<and> tail c' = tail c \<and> capacity c' = capacity c"
proof -
  obtain f a where hx: "head c # xs = f @ [a]" by (metis append_butlast_last_id list.distinct(1))
  obtain b g where ty: "ys @ [tail c] = b # g" by (cases "ys @ [tail c]") auto
  have all: "head c # (xs @ p # ys) @ [tail c] = f @ [a, p, b] @ g"
    using hx ty by (metis append.assoc append_Cons append_Nil)
  have new: "head c # (xs @ ys) @ [tail c] = f @ [a, b] @ g"
    using hx ty by (metis append.assoc append_Cons append_Nil)
  have lk: "linked (store c) (f @ [a, p, b] @ g)" and ds: "distinct (f @ [a, p, b] @ g)"
    using assms all by (auto simp only: lru_nodes_def)
  have parts: "linked (store c) (f @ [a])" "linked (store c) (b # g)"
    "node_next (store c p) = Some b" "node_prev (store c p) = Some a"
    using lk linked_append [of "store c" f a "[p, b] @ g"] by auto
  define st' where "st' = (let s = (store c)(a := (store c a)\<lparr>node_next := Some b\<rparr>) in s(b := (s b)\<lparr>node_prev := Some a\<rparr>))"
  define c' where "c' = c\<lparr>mp := (mp c)(node_key (store c p) := None), store := st'\<rparr>"
  have ab: "a \<noteq> b" "a \<noteq> p" "b \<noteq> p" using ds by auto
  have "lru_remove c p = Inr c'"
    using parts ab by (simp add: lru_remove_def set_next_def set_prev_def c'_def st'_def Let_def)
  moreover have keys: "node_key (st' q) = node_key (store c q) \<and> node_value (st' q) = node_value (store c q)" for q
    by (simp add: st'_def Let_def)
  moreover have "linked st' (f @ [a, b] @ g)"
  proof -
    have "linked st' (f @ [a])"
      by (rule linked_frame [OF _ _ parts(1)]) (use ds in \<open>auto simp: st'_def Let_def dest: in_set_tlD\<close>)
    moreover have "linked st' (b # g)"
      by (rule linked_frame [OF _ _ parts(2)]) (use ds in \<open>auto simp: st'_def Let_def dest: in_set_butlastD split: if_splits\<close>)
    ultimately show ?thesis using ab linked_append [of st' f a "b # g"] by (simp add: st'_def Let_def)
  qed
  ultimately have lk': "linked st' (head c # (xs @ ys) @ [tail c])" using new by simp
  have keys: "node_key (st' q) = node_key (store c q) \<and> node_value (st' q) = node_value (store c q)" for q
    by (simp add: st'_def Let_def)
  have m: "mp c k = Some q \<longleftrightarrow> q \<in> set (xs @ p # ys) \<and> node_key (store c q) = k" for k q
    using assms by (simp add: lru_nodes_def)
  have dk: "distinct (map fst (entries (store c) (xs @ p # ys)))" using assms by (simp add: lru_nodes_def)
  have "mp c' k = Some q \<longleftrightarrow> q \<in> set (xs @ ys) \<and> node_key (st' q) = k" for k q
    using m [of k q] m [of "node_key (store c p)" q] dk keys ds all by (auto simp: c'_def entries_def image_iff)
  moreover have "distinct (map fst (entries st' (xs @ ys)))" using dk keys by (auto simp: entries_def)
  ultimately have "lru_nodes c' (xs @ ys)"
    using assms lk' by (auto simp: lru_nodes_def c'_def)
  then show ?thesis using \<open>lru_remove c p = Inr c'\<close> keys by (simp add: c'_def)
qed


lemma lru_nodes_insert:
  assumes "lru_nodes c ps" "p \<notin> set (head c # ps @ [tail c])" "p < fresh c" "mp c (node_key (store c p)) = None"
  shows "\<exists>c'. lru_insert c p = Inr c' \<and> lru_nodes c' (p # ps) \<and>
    (\<forall>q. node_key (store c' q) = node_key (store c q) \<and> node_value (store c' q) = node_value (store c q)) \<and>
    fresh c' = fresh c \<and> head c' = head c \<and> tail c' = tail c \<and> capacity c' = capacity c"
proof -
  obtain b g where bg: "ps @ [tail c] = b # g" by (cases "ps @ [tail c]") auto
  have lk: "node_next (store c (head c)) = Some b" "linked (store c) (b # g)" and
    ds: "distinct (head c # b # g)" "p \<notin> set (head c # b # g)"
    using assms bg by (auto simp: lru_nodes_def simp del: distinct.simps)
  let ?h = "head c"
  define st' where "st' = (let s1 = (store c)(?h := (store c ?h)\<lparr>node_next := Some p\<rparr>);
      s2 = s1(p := (s1 p)\<lparr>node_prev := Some ?h\<rparr>); s3 = s2(b := (s2 b)\<lparr>node_prev := Some p\<rparr>)
    in s3(p := (s3 p)\<lparr>node_next := Some b\<rparr>))"
  define c' where "c' = c\<lparr>mp := (mp c)(node_key (store c p) \<mapsto> p), store := st'\<rparr>"
  have "lru_insert c p = Inr c'"
    using lk by (simp add: lru_insert_def set_next_def set_prev_def c'_def st'_def Let_def)
  moreover have keys: "node_key (st' q) = node_key (store c q) \<and> node_value (st' q) = node_value (store c q)" for q
    by (simp add: st'_def Let_def)
  moreover have "linked st' (?h # p # b # g)"
  proof -
    have "linked st' (b # g)"
      by (rule linked_frame [OF _ _ lk(2)]) (use ds in \<open>auto simp: st'_def Let_def dest: in_set_butlastD split: if_splits\<close>)
    then show ?thesis using ds by (auto simp: st'_def Let_def)
  qed
  moreover have "node_key (store c p) \<notin> (\<lambda>q. node_key (store c q)) ` set ps"
  proof
    assume "node_key (store c p) \<in> (\<lambda>q. node_key (store c q)) ` set ps"
    then obtain q where "q \<in> set ps" "node_key (store c q) = node_key (store c p)" by auto
    then have "mp c (node_key (store c p)) = Some q" using assms(1) by (simp add: lru_nodes_def)
    then show False using assms(4) by simp
  qed
  ultimately have "lru_nodes c' (p # ps)"
    using assms bg by (auto simp: lru_nodes_def c'_def entries_def image_iff)
  then show ?thesis using \<open>lru_insert c p = Inr c'\<close> keys by (simp add: c'_def)
qed

lemma lru_nodes_mp:
  assumes "lru_nodes c ps"
  shows "card (dom (mp c)) = length ps" and "mp c k = None \<longleftrightarrow> map_of (entries (store c) ps) k = None"
    and "mp c k = Some p \<Longrightarrow> map_of (entries (store c) ps) k = Some (node_value (store c p))"
proof -
  have d: "distinct (map fst (entries (store c) ps))" and
    m: "mp c k = Some p \<longleftrightarrow> p \<in> set ps \<and> node_key (store c p) = k" for k p
    using assms by (auto simp: lru_nodes_def)
  have "dom (mp c) = set (map fst (entries (store c) ps))" using m by (fastforce simp: entries_def)
  then show "card (dom (mp c)) = length ps"
    using distinct_card [OF d] by (simp add: entries_def)
  show "mp c k = None \<longleftrightarrow> map_of (entries (store c) ps) k = None"
    using \<open>dom (mp c) = _\<close> by (auto simp: map_of_eq_None_iff domIff simp flip: not_None_eq)
  show "mp c k = Some p \<Longrightarrow> map_of (entries (store c) ps) k = Some (node_value (store c p))"
    using m d by (force simp: entries_def intro!: map_of_is_SomeI)
qed

lemma entries_filter:
  assumes "lru_nodes c (xs @ p # ys)"
  shows "filter (\<lambda>e. fst e \<noteq> node_key (store c p)) (entries (store c) (xs @ p # ys)) = entries (store c) (xs @ ys)"
proof -
  have "node_key (store c p) \<notin> (\<lambda>q. node_key (store c q)) ` (set xs \<union> set ys)"
    using assms by (auto simp: lru_nodes_def entries_def)
  then have "filter (\<lambda>e. fst e \<noteq> node_key (store c p)) (entries (store c) zs) = entries (store c) zs"
    if "set zs \<subseteq> set xs \<union> set ys" for zs
    by (intro filter_True) (use that in \<open>fastforce simp: entries_def image_iff\<close>)
  then show ?thesis by (simp add: entries_def)
qed

lemma lru_Get_refines:
  assumes "lru_repr c xs"
  shows "\<exists>c'. lru_Get c k = Inr (fst (ref_get xs k), c') \<and> lru_repr c' (snd (ref_get xs k)) \<and> capacity c' = capacity c"
proof -
  obtain ps where ps: "lru_nodes c ps" "entries (store c) ps = xs" using assms by (auto simp: lru_repr_def)
  show ?thesis
  proof (cases "mp c k")
    case None
    then have "map_of xs k = None" using lru_nodes_mp(2) [OF ps(1), of k] ps(2) by simp
    then show ?thesis using None assms by (simp add: lru_Get_def ref_get_def)
  next
    case (Some p)
    then have p: "p \<in> set ps" "node_key (store c p) = k" using ps by (auto simp: lru_nodes_def)
    then obtain l r where lr: "ps = l @ p # r" by (meson split_list)
    obtain c1 where c1: "lru_remove c p = Inr c1" "lru_nodes c1 (l @ r)"
      "\<And>q. node_key (store c1 q) = node_key (store c q) \<and> node_value (store c1 q) = node_value (store c q)"
      "fresh c1 = fresh c" "head c1 = head c" "tail c1 = tail c" "capacity c1 = capacity c"
      using lru_nodes_remove ps(1) lr by metis
    have fresh1: "p \<notin> set (head c1 # (l @ r) @ [tail c1])" "p < fresh c1"
      using ps(1) lr c1 by (auto simp: lru_nodes_def)
    have "mp c1 (node_key (store c1 p)) = None"
      using lru_nodes_mp(2) [OF c1(2)] entries_filter [of c l p r] ps(1) lr c1(3) p
      by (force simp: lru_nodes_def entries_def map_of_eq_None_iff)
    from lru_nodes_insert [OF c1(2) fresh1 this] obtain c2 where c2: "lru_insert c1 p = Inr c2" "lru_nodes c2 (p # l @ r)"
      "\<And>q. node_key (store c2 q) = node_key (store c1 q) \<and> node_value (store c2 q) = node_value (store c1 q)"
      "capacity c2 = capacity c1" by auto
    have "map_of xs k = Some (node_value (store c p))" using lru_nodes_mp(3) [OF ps(1) Some] ps(2) by simp
    then have ref: "ref_get xs k = (Some (node_value (store c p)), (k, node_value (store c p)) # entries (store c) (l @ r))"
      using entries_filter [of c l p r] ps lr p by (simp add: ref_get_def)
    have "entries (store c2) (p # l @ r) = snd (ref_get xs k)"
      using ref c1(3) c2(3) p by (simp add: entries_def)
    then show ?thesis using c1 c2 Some ref by (auto simp: lru_Get_def lru_repr_def)
  qed
qed

lemma put_node_refines:
  assumes "lru_nodes c ps" "k \<notin> fst ` set (entries (store c) ps)"
  shows "\<exists>c'. put_node c k v = Inr c' \<and> lru_repr c' ((k, v) # entries (store c) ps) \<and> capacity c' = capacity c"
proof -
  let ?c = "c\<lparr>store := (store c)(fresh c := newNode k v), fresh := fresh c + 1\<rparr>"
  have fr: "fresh c \<notin> set (head c # ps @ [tail c])" using assms(1) by (auto simp: lru_nodes_def)
  then have e: "entries (store ?c) ps = entries (store c) ps" by (auto simp: entries_def)
  have "linked (store ?c) (head c # ps @ [tail c])"
    by (rule linked_frame [where st = "store c"])
      (use fr assms(1) in \<open>auto simp: lru_nodes_def dest: in_set_butlastD in_set_tlD split: if_splits\<close>)
  then have n: "lru_nodes ?c ps"
    using assms(1) fr e by (auto simp: lru_nodes_def less_Suc_eq)
  have "mp ?c k = None"
    using lru_nodes_mp(2) [OF n, of k] e assms(2) by (simp add: map_of_eq_None_iff)
  then obtain c' where c': "lru_insert ?c (fresh c) = Inr c'" "lru_nodes c' (fresh c # ps)"
    "\<And>q. node_key (store c' q) = node_key (store ?c q) \<and> node_value (store c' q) = node_value (store ?c q)"
    "capacity c' = capacity ?c"
    using lru_nodes_insert [OF n, of "fresh c"] fr by (auto simp: newNode_def)
  have "entries (store c') (fresh c # ps) = (k, v) # entries (store c) ps"
    using c'(3) e by (simp add: entries_def newNode_def)
  then show ?thesis using c' by (auto simp: put_node_def lru_repr_def)
qed


lemma lru_Put_refines:
  assumes "lru_repr c xs" "capacity c \<noteq> 0"
  shows "\<exists>c'. lru_Put c k v = Inr c' \<and> lru_repr c' (ref_put (capacity c) xs k v) \<and> capacity c' = capacity c"
proof -
  obtain ps where ps: "lru_nodes c ps" "entries (store c) ps = xs" using assms by (auto simp: lru_repr_def)
  let ?ys = "filter (\<lambda>e. fst e \<noteq> k) xs"
  obtain c1 qs where c1: "(case mp c k of Some p \<Rightarrow> lru_remove c p | None \<Rightarrow> Inr c) = Inr c1" "lru_nodes c1 qs"
    "entries (store c1) qs = ?ys" "capacity c1 = capacity c"
  proof (cases "mp c k")
    case None
    then have "map_of xs k = None" using lru_nodes_mp(2) [OF ps(1), of k] ps(2) by simp
    then have "?ys = xs" by (auto simp: map_of_eq_None_iff filter_id_conv)
    then show ?thesis using that None ps by simp
  next
    case (Some p)
    then have p: "p \<in> set ps" "node_key (store c p) = k" using ps by (auto simp: lru_nodes_def)
    then obtain l r where lr: "ps = l @ p # r" by (meson split_list)
    obtain c1 where r1: "lru_remove c p = Inr c1" "lru_nodes c1 (l @ r)"
      "\<And>q. node_key (store c1 q) = node_key (store c q) \<and> node_value (store c1 q) = node_value (store c q)"
      "capacity c1 = capacity c"
      using lru_nodes_remove ps(1) lr by metis
    have "entries (store c1) (l @ r) = ?ys"
      using entries_filter [of c l p r] ps lr p r1(3) by (auto simp: entries_def)
    then show ?thesis using that r1 Some by simp
  qed
  have cd: "card (dom (mp c1)) = length qs" "length ?ys = length qs"
    using lru_nodes_mp(1) [OF c1(2)] c1(3) by (auto simp: entries_def simp flip: c1(3))
  obtain c2 rs where c2: "(if int (card (dom (mp c1))) = capacity c1
      then (case node_prev (store c1 (tail c1)) of None \<Rightarrow> Inl NilDereference | Some q \<Rightarrow> lru_remove c1 q)
      else Inr c1) = Inr c2" "lru_nodes c2 rs" "capacity c2 = capacity c"
    "entries (store c2) rs = (if int (length ?ys) = capacity c then butlast ?ys else ?ys)"
  proof (cases "int (length qs) = capacity c")
    case False
    then show ?thesis using that c1 cd by simp
  next
    case True
    then have "qs \<noteq> []" using assms(2) by auto
    then obtain l q where lq: "qs = l @ [q]" by (meson rev_exhaust)
    have "linked (store c1) ((head c1 # l) @ q # [tail c1])" using c1(2) lq by (simp add: lru_nodes_def)
    then have tp: "node_prev (store c1 (tail c1)) = Some q" using linked_append [of "store c1" "head c1 # l" q "[tail c1]"] by simp
    obtain c2 where r2: "lru_remove c1 q = Inr c2" "lru_nodes c2 l"
      "\<And>p. node_key (store c2 p) = node_key (store c1 p) \<and> node_value (store c2 p) = node_value (store c1 p)"
      "capacity c2 = capacity c1"
      using lru_nodes_remove [of c1 l q "[]"] c1(2) lq by auto
    have "entries (store c2) l = butlast ?ys" using r2(3) c1(3) lq by (simp add: entries_def flip: c1(3))
    then show ?thesis using that r2 tp True cd c1(4) by simp
  qed
  have "k \<notin> fst ` set (entries (store c2) rs)" using c2(4) by (auto dest: in_set_butlastD)
  from put_node_refines [OF c2(2) this, of v] c2 c1(1) show ?thesis
    by (auto simp: lru_Put_def ref_put_def Let_def)
qed

lemma NewLRUCache_repr: "lru_repr (NewLRUCache k0 v0 cap) []"
  by (auto simp: lru_repr_def lru_nodes_def NewLRUCache_def entries_def intro!: exI [of _ "[]"])

section \<open>The interface the index repository uses\<close>

text \<open>
  What \<open>IndexRepository.alloc\<close> needs of a \<open>Cacher\<close>: nothing is invented. A cache \<open>s\<close> is \<open>honest\<close>
  about a map \<open>M\<close> if every entry it can return is one of \<open>M\<close>.
\<close>

locale cacher =
  fixes honest :: "('k \<rightharpoonup> 'v) \<Rightarrow> 's \<Rightarrow> bool"
    and cget :: "'s \<Rightarrow> 'k \<Rightarrow> ('v option \<times> 's) go" and cput :: "'s \<Rightarrow> 'k \<Rightarrow> 'v \<Rightarrow> 's go"
  assumes get_honest: "honest M s \<Longrightarrow> \<exists>r s'. cget s k = Inr (r, s') \<and> honest M s' \<and> (\<forall>v. r = Some v \<longrightarrow> M k = Some v)"
    and put_honest: "honest M s \<Longrightarrow> M k = Some v \<Longrightarrow> \<exists>s'. cput s k v = Inr s' \<and> honest M s'"
    and honest_mono: "honest M s \<Longrightarrow> M \<subseteq>\<^sub>m M' \<Longrightarrow> honest M' s"
begin

lemma put_new:
  assumes "honest M s" "M k = None"
  shows "\<exists>s'. cput s k v = Inr s' \<and> honest (M(k \<mapsto> v)) s'"
proof -
  have "M \<subseteq>\<^sub>m M(k \<mapsto> v)" using assms(2) by (auto simp: map_le_def)
  then show ?thesis using put_honest [OF honest_mono [OF assms(1)], of "M(k \<mapsto> v)" k v] by simp
qed

end

definition lru_honest :: "('k \<rightharpoonup> 'v) \<Rightarrow> ('k, 'v) LRUCache \<Rightarrow> bool" where
  "lru_honest M c \<longleftrightarrow> capacity c \<noteq> 0 \<and> (\<exists>xs. lru_repr c xs \<and> (\<forall>(k, v) \<in> set xs. M k = Some v))"

interpretation lru: cacher lru_honest lru_Get lru_Put
proof (unfold_locales, goal_cases)
  case (1 M s k)
  then obtain xs where xs: "capacity s \<noteq> 0" "lru_repr s xs" "\<forall>(k, v) \<in> set xs. M k = Some v" by (auto simp: lru_honest_def)
  obtain c' where c': "lru_Get s k = Inr (fst (ref_get xs k), c')" "lru_repr c' (snd (ref_get xs k))" "capacity c' = capacity s"
    using lru_Get_refines [OF xs(2)] by blast
  have "\<forall>(k, v) \<in> set (snd (ref_get xs k)). M k = Some v" "\<And>v. fst (ref_get xs k) = Some v \<Longrightarrow> M k = Some v"
    using xs(3) by (auto simp: ref_get_def split: option.splits dest!: map_of_SomeD)
  then show ?case using c' xs(1) by (auto simp: lru_honest_def)
next
  case (2 M s k v)
  then obtain xs where xs: "capacity s \<noteq> 0" "lru_repr s xs" "\<forall>(k, v) \<in> set xs. M k = Some v" by (auto simp: lru_honest_def)
  have "set (ref_put (capacity s) xs k v) \<subseteq> insert (k, v) (set xs)"
    by (auto simp: ref_put_def Let_def dest!: in_set_butlastD split: if_splits)
  then have "\<forall>(k', v') \<in> set (ref_put (capacity s) xs k v). M k' = Some v'"
    using xs(3) 2(2) by fastforce
  then show ?case using lru_Put_refines [OF xs(2,1), of k v] xs(1) by (auto simp: lru_honest_def)
next
  case (3 M s M')
  then show ?case by (fastforce simp: lru_honest_def map_le_def dom_def)
qed

section \<open>Properties\<close>

datatype ('k, 'v) cache_op = OpGet 'k | OpPut 'k 'v

fun run_lru :: "('k, 'v) LRUCache \<Rightarrow> ('k, 'v) cache_op list \<Rightarrow> ('v option list \<times> ('k, 'v) LRUCache) go" where
  "run_lru c [] = Inr ([], c)"
| "run_lru c (OpGet k # ops) =
     (case lru_Get c k of Inl e \<Rightarrow> Inl e
      | Inr (r, c1) \<Rightarrow> (case run_lru c1 ops of Inl e \<Rightarrow> Inl e | Inr (rs, c2) \<Rightarrow> Inr (r # rs, c2)))"
| "run_lru c (OpPut k v # ops) = (case lru_Put c k v of Inl e \<Rightarrow> Inl e | Inr c1 \<Rightarrow> run_lru c1 ops)"

fun run_ref :: "int \<Rightarrow> ('k \<times> 'v) list \<Rightarrow> ('k, 'v) cache_op list \<Rightarrow> 'v option list \<times> ('k \<times> 'v) list" where
  "run_ref cap xs [] = ([], xs)"
| "run_ref cap xs (OpGet k # ops) =
     (let (r, ys) = ref_get xs k; (rs, zs) = run_ref cap ys ops in (r # rs, zs))"
| "run_ref cap xs (OpPut k v # ops) = run_ref cap (ref_put cap xs k v) ops"

lemma run_lru_refines:
  "lru_repr c xs \<Longrightarrow> capacity c = cap \<Longrightarrow> cap \<noteq> 0 \<Longrightarrow>
   \<exists>c'. run_lru c ops = Inr (fst (run_ref cap xs ops), c') \<and> lru_repr c' (snd (run_ref cap xs ops))"
proof (induction cap xs ops arbitrary: c rule: run_ref.induct)
  case (2 cap xs k ops)
  obtain c1 where c1: "lru_Get c k = Inr (fst (ref_get xs k), c1)" "lru_repr c1 (snd (ref_get xs k))" "capacity c1 = cap"
    using lru_Get_refines [OF 2(2), of k] 2(3) by auto
  obtain c2 where "run_lru c1 ops = Inr (fst (run_ref cap (snd (ref_get xs k)) ops), c2)"
    "lru_repr c2 (snd (run_ref cap (snd (ref_get xs k)) ops))"
    using "2.IH" [OF _ _ c1(2,3) 2(4)] by (metis prod.collapse)
  then show ?case using c1 by (simp add: split_beta Let_def)
next
  case (3 cap xs k v ops)
  obtain c1 where c1: "lru_Put c k v = Inr c1" "lru_repr c1 (ref_put cap xs k v)" "capacity c1 = cap"
    using lru_Put_refines [OF 3(2), of k v] 3(3,4) by auto
  then show ?case using "3.IH" [OF c1(2,3) 3(4)] by simp
qed auto

lemma run_ref_bounded:
  assumes "0 < cap"
  shows "int (length xs) \<le> cap \<Longrightarrow> int (length (snd (run_ref cap xs ops))) \<le> cap"
  using assms
proof (induction cap xs ops rule: run_ref.induct)
  case (2 cap xs k ops)
  have "int (length (snd (ref_get xs k))) \<le> cap"
  proof (cases "map_of xs k")
    case (Some v)
    have "length (filter (\<lambda>e. fst e \<noteq> k) xs) < length xs"
      by (rule length_filter_less [OF map_of_SomeD [OF Some]]) simp
    then show ?thesis using Some 2(2) by (simp add: ref_get_def)
  qed (use 2(2) in \<open>simp add: ref_get_def\<close>)
  then show ?case using "2.IH" [OF refl prod.collapse] 2(3) by (simp add: split_beta Let_def)
next
  case (3 cap xs k v ops)
  have "int (length (ref_put cap xs k v)) \<le> cap"
  proof -
    define n where "n = length (filter (\<lambda>e. fst e \<noteq> k) xs)"
    have "n \<le> length xs" by (simp add: n_def)
    then show ?thesis using 3(2,3) by (auto simp: ref_put_def Let_def simp flip: n_def)
  qed
  then show ?case using 3 by simp
qed simp

text \<open>
  C16: on a cache of positive capacity every sequence of \<open>Get\<close> and \<open>Put\<close> runs without a panic and returns
  what the least-recently-used reference returns, and no more than \<open>capacity\<close> entries are kept.
\<close>

theorem lru_refines_reference:
  assumes "0 < cap"
  shows "\<exists>c'. run_lru (NewLRUCache k0 v0 cap) ops = Inr (fst (run_ref cap [] ops), c') \<and>
    lru_repr c' (snd (run_ref cap [] ops)) \<and> int (card (dom (mp c'))) \<le> cap"
proof -
  have "capacity (NewLRUCache k0 v0 cap) = cap" by (simp add: NewLRUCache_def)
  from run_lru_refines [OF NewLRUCache_repr this] assms obtain c' where
    c': "run_lru (NewLRUCache k0 v0 cap) ops = Inr (fst (run_ref cap [] ops), c')" "lru_repr c' (snd (run_ref cap [] ops))"
    by (metis less_irrefl)
  then obtain ps where "lru_nodes c' ps" "entries (store c') ps = snd (run_ref cap [] ops)" by (auto simp: lru_repr_def)
  then have "card (dom (mp c')) = length (snd (run_ref cap [] ops))"
    using lru_nodes_mp(1) by (metis entries_def length_map)
  then show ?thesis using c' run_ref_bounded [OF assms, of "[]" ops] assms by auto
qed

theorem lru_refines_reference_witness:
  "\<exists>c'. run_lru (NewLRUCache (0::nat) (0::nat) 2) [OpPut 1 11, OpPut 2 12, OpGet 1, OpPut 3 13, OpGet 2, OpGet 1] =
     Inr ([Some 11, None, Some 11], c')"
  using lru_refines_reference [of 2 "0::nat" "0::nat" "[OpPut 1 11, OpPut 2 12, OpGet 1, OpPut 3 13, OpGet 2, OpGet 1]"]
  by (auto simp: ref_get_def ref_put_def)

text \<open>
  With capacity 0 the first \<open>Put\<close> dereferences a nil pointer: the node before \<open>tail\<close> is the sentinel
  \<open>head\<close>, which has no predecessor.
\<close>

theorem lru_capacity_zero_panics:
  "lru_Put (NewLRUCache k0 v0 0) k v = Inl NilDereference"
  by (simp add: lru_Put_def NewLRUCache_def lru_remove_def newNode_def Let_def)

end
