(* ===== verification/NGramRepo.thy ===== *)
theory NGramRepo
  imports IndexStore LruCache
begin

text \<open>
  The trigram index (\<open>internal/repository/nGramRepo.go\<close>) and the allocation of word ids (\<open>alloc\<close> of
  \<open>indexRepos.go\<close>): 676 chunk files keyed by the first two letters of a trigram, each a list of 32-bit
  records of a word id and the third letter; 26 allocator goroutines, one per first letter, that share
  the id counter and the database and have a cache each. Requests are served one at a time.
\<close>

unbundle bit_operations_syntax

section \<open>Trigrams and records\<close>

text \<open>\<open>word\<close> contains lower case letters only, so its runes are its bytes.\<close>

definition letter_byte :: "char \<Rightarrow> byte" where
  "letter_byte c = of_char c"

definition letter_index :: "char \<Rightarrow> byte" where
  "letter_index c = (let a = letter_byte c in if a > 0x5A then a - 0x61 else a - 0x41)"

definition makeBiGramKey :: "string \<Rightarrow> u16" where
  "makeBiGramKey ng = ucast (letter_index (ng ! 0)) * 26 + ucast (letter_index (ng ! 1))"

definition encNGData :: "u32 \<Rightarrow> byte \<Rightarrow> u32" where
  "encNGData wordId lastLet = push_bit 8 wordId OR ucast lastLet"

definition decNGData :: "u32 \<Rightarrow> u32 \<times> byte" where
  "decNGData data = (drop_bit 8 data, ucast (data AND 0xFF))"

text \<open>The loop of \<open>extractTGrams\<close>, with the set \<open>alIn\<close> of trigrams already seen.\<close>

fun tgram_loop :: "string set \<Rightarrow> string \<Rightarrow> string list" where
  "tgram_loop alIn (a # b # c # cs) =
     (let ng = [a, b, c] in
      if ng \<in> alIn then tgram_loop alIn (b # c # cs) else ng # tgram_loop (insert ng alIn) (b # c # cs))"
| "tgram_loop alIn cs = []"

definition extractTGrams :: "string \<Rightarrow> string list" where
  "extractTGrams word = tgram_loop {} word"

definition extractTGramsByBGram :: "string \<Rightarrow> u16 \<Rightarrow> byte list" where
  "extractTGramsByBGram word =
     foldl (\<lambda>out ng. out(makeBiGramKey ng := out (makeBiGramKey ng) @ [letter_byte (ng ! 2)])) (\<lambda>_. []) (tgram_loop {} word)"

section \<open>Allocation of ids\<close>

record ('db, 's) ng_state =
  ng_counter :: u32
  ng_db :: 'db
  ng_caches :: "nat \<Rightarrow> 's"
  ng_files :: "nat \<Rightarrow> bytes option"

definition word_key :: "string \<Rightarrow> string" where
  "word_key w = ''word:'' @ w"

definition num_key :: "u32 \<Rightarrow> string" where
  "num_key n = ''num:'' @ fmt_d (unat n)"

text \<open>One request of shard \<open>i\<close>: the id of the word and whether it was known.\<close>

definition alloc :: "'db pebble \<Rightarrow> ('s \<Rightarrow> string \<Rightarrow> (u32 option \<times> 's) go) \<Rightarrow> ('s \<Rightarrow> string \<Rightarrow> u32 \<Rightarrow> 's go) \<Rightarrow>
    nat \<Rightarrow> ('db, 's) ng_state \<Rightarrow> string \<Rightarrow> ((u32 \<times> bool) \<times> ('db, 's) ng_state) go" where
  "alloc kv cget cput i st word =
     (case cget (ng_caches st i) word of
        Inl p \<Rightarrow> Inl p
      | Inr (Some ident, c) \<Rightarrow> Inr ((ident, True), st\<lparr>ng_caches := (ng_caches st)(i := c)\<rparr>)
      | Inr (None, c) \<Rightarrow>
          (case db_get kv (ng_db st) (word_key word) of
             Some val \<Rightarrow> Inr ((le_word (take 4 val), True), st\<lparr>ng_caches := (ng_caches st)(i := c)\<rparr>)
           | None \<Rightarrow>
               let ident = ng_counter st + 1;
                   db1 = db_set kv (ng_db st) (word_key word) (le_bytes 4 ident);
                   db2 = db_set kv db1 (num_key ident) (string_bytes word)
               in case cput c word ident of
                    Inl p \<Rightarrow> Inl p
                  | Inr c' \<Rightarrow> Inr ((ident, False),
                      st\<lparr>ng_counter := ident, ng_db := db2, ng_caches := (ng_caches st)(i := c')\<rparr>)))"

section \<open>Indexing and lookup\<close>

text \<open>One trigram of a word: its chunk file is created, and extended unless the word was known.\<close>

definition write_gram :: "u32 \<times> bool \<Rightarrow> (nat \<Rightarrow> bytes option) \<Rightarrow> string \<Rightarrow> (nat \<Rightarrow> bytes option) go" where
  "write_gram seq files ng =
     (let k = unat (makeBiGramKey ng) in
      if k \<ge> 676 then Inl IndexOutOfRange
      else
        let old = (case files k of None \<Rightarrow> [] | Some bs \<Rightarrow> bs) in
        Inr (files(k \<mapsto> (if snd seq then old else old @ le_bytes 4 (encNGData (fst seq) (letter_byte (ng ! 2)))))))"

fun write_grams :: "u32 \<times> bool \<Rightarrow> (nat \<Rightarrow> bytes option) \<Rightarrow> string list \<Rightarrow> (nat \<Rightarrow> bytes option) go" where
  "write_grams seq files [] = Inr files"
| "write_grams seq files (ng # ngs) =
     (case write_gram seq files ng of Inl p \<Rightarrow> Inl p | Inr files' \<Rightarrow> write_grams seq files' ngs)"

definition index_word :: "'db pebble \<Rightarrow> ('s \<Rightarrow> string \<Rightarrow> (u32 option \<times> 's) go) \<Rightarrow> ('s \<Rightarrow> string \<Rightarrow> u32 \<Rightarrow> 's go) \<Rightarrow>
    ('db, 's) ng_state \<Rightarrow> string \<Rightarrow> ('db, 's) ng_state go" where
  "index_word kv cget cput st word =
     (if length word < 2 then Inr st
      else
        let shardKey = unat (letter_index (word ! 0)) in
        if shardKey \<ge> 26 then Inl IndexOutOfRange
        else case alloc kv cget cput shardKey st word of
          Inl p \<Rightarrow> Inl p
        | Inr (seq, st') \<Rightarrow>
            (case write_grams seq (ng_files st') (extractTGrams word) of
               Inl p \<Rightarrow> Inl p | Inr files \<Rightarrow> Inr (st'\<lparr>ng_files := files\<rparr>)))"

fun IndexTriGrams :: "'db pebble \<Rightarrow> ('s \<Rightarrow> string \<Rightarrow> (u32 option \<times> 's) go) \<Rightarrow> ('s \<Rightarrow> string \<Rightarrow> u32 \<Rightarrow> 's go) \<Rightarrow>
    ('db, 's) ng_state \<Rightarrow> string list \<Rightarrow> ('db, 's) ng_state go" where
  "IndexTriGrams kv cget cput st [] = Inr st"
| "IndexTriGrams kv cget cput st (w # ws) =
     (case index_word kv cget cput st w of Inl p \<Rightarrow> Inl p | Inr st' \<Rightarrow> IndexTriGrams kv cget cput st' ws)"

text \<open>The records of a chunk file; the reading loop takes \<open>n / 4\<close> records out of every buffer.\<close>

fun file_records :: "bytes \<Rightarrow> u32 list" where
  "file_records (a # b # c # d # bs) = le_word [a, b, c, d] # file_records bs"
| "file_records bs = []"

definition scan_record :: "byte list \<Rightarrow> u32 list \<Rightarrow> u32 \<Rightarrow> u32 list" where
  "scan_record ng result data =
     (let (seq, lastLatter) = decNGData data in
      if lastLatter \<notin> set ng then result else if seq \<in> set result then result else result @ [seq])"

text \<open>\<open>order\<close> is the order in which Go iterates the map of the query's bigrams.\<close>

definition collect_ids :: "(nat \<Rightarrow> bytes option) \<Rightarrow> string \<Rightarrow> u16 list \<Rightarrow> u32 list" where
  "collect_ids files word order =
     foldl (\<lambda>result bkey. case files (unat bkey) of
         None \<Rightarrow> result
       | Some bs \<Rightarrow> foldl (scan_record (extractTGramsByBGram word bkey)) result (file_records bs)) [] order"

fun getWordsFromSeq :: "'db pebble \<Rightarrow> 'db \<Rightarrow> u32 list \<Rightarrow> repo_error + string list" where
  "getWordsFromSeq kv db [] = Inr []"
| "getWordsFromSeq kv db (ident # ids) =
     (case db_get kv db (num_key ident) of
        None \<Rightarrow> Inl (InvalidWordId ident)
      | Some val \<Rightarrow> (case getWordsFromSeq kv db ids of Inl e \<Rightarrow> Inl e | Inr ws \<Rightarrow> Inr (raw val # ws)))"

definition GetWordsByTGrams :: "'db pebble \<Rightarrow> ('db, 's) ng_state \<Rightarrow> string \<Rightarrow> u16 list \<Rightarrow> repo_error + string list" where
  "GetWordsByTGrams kv st word order = getWordsFromSeq kv (ng_db st) (collect_ids (ng_files st) word order)"

text \<open>The counter is loaded at the start and saved only when the context is done.\<close>

definition LoadIndexC :: "'db pebble \<Rightarrow> 'db \<Rightarrow> u32" where
  "LoadIndexC kv db = (case db_get kv db ''inc:'' of None \<Rightarrow> 0 | Some val \<Rightarrow> le_word (take 4 val))"

definition UpdateIndexC :: "'db pebble \<Rightarrow> 'db \<Rightarrow> u32 \<Rightarrow> 'db" where
  "UpdateIndexC kv db ident = db_set kv db ''inc:'' (le_bytes 4 ident)"

section \<open>Lemmas on trigrams and records\<close>

definition tgrams :: "string \<Rightarrow> string set" where
  "tgrams w = {g. length g = 3 \<and> sublist g w}"

lemma sublist_Cons_3: "length g = 3 \<Longrightarrow> sublist g (a # b # c # cs) \<longleftrightarrow> g = [a, b, c] \<or> sublist g (b # c # cs)"
  by (auto simp: sublist_Cons_right prefix_Cons length_Suc_conv numeral_3_eq_3)

lemma tgram_loop_set: "set (tgram_loop S w) = tgrams w - S"
proof (induction S w rule: tgram_loop.induct)
  case (1 S a b c cs)
  have "tgrams (a # b # c # cs) = insert [a, b, c] (tgrams (b # c # cs))"
    by (auto simp: tgrams_def sublist_Cons_3)
  then show ?case using 1 by (auto simp: Let_def)
qed (auto simp: tgrams_def dest: sublist_length_le)

lemma extractTGrams_set: "set (extractTGrams w) = tgrams w"
  by (simp add: extractTGrams_def tgram_loop_set)

lemma foldl_group:
  "set (foldl (\<lambda>out ng. out(f ng := out (f ng) @ [g ng])) m ngs k) = set (m k) \<union> {g ng |ng. ng \<in> set ngs \<and> f ng = k}"
  by (induction ngs arbitrary: m) auto

lemma byBGram_set: "set (extractTGramsByBGram w k) = {letter_byte (ng ! 2) |ng. ng \<in> tgrams w \<and> makeBiGramKey ng = k}"
  by (simp add: extractTGramsByBGram_def foldl_group tgram_loop_set)

lemma dec_enc:
  assumes "unat n < 2 ^ 24"
  shows "decNGData (encNGData n c) = (n, c)"
proof -
  have "unat (take_bit 24 n) = unat n"
    using assms by (simp add: unsigned_take_bit_eq take_bit_nat_eq_self)
  then have "take_bit 24 n = n" by (simp add: word_unat_eq_iff)
  then have high: "bit n k \<Longrightarrow> k < 24" for k by (metis bit_take_bit_iff)
  have "drop_bit 8 (encNGData n c) = n"
    by (rule bit_eqI) (use high in \<open>fastforce simp: encNGData_def bit_simps dest: bit_imp_le_length\<close>)
  moreover have "bit (0xFF :: u32) k \<longleftrightarrow> k < 8" for k
  proof -
    have "(0xFF :: u32) = mask 8" by (simp add: mask_eq_exp_minus_1)
    then show ?thesis by (auto simp only: bit_mask_iff possible_bit_word) auto
  qed
  then have "ucast (encNGData n c AND 0xFF) = c"
    by (intro bit_eqI) (auto simp: encNGData_def bit_simps dest: bit_imp_le_length)
  ultimately show ?thesis by (simp add: decNGData_def)
qed


text \<open>Lower case words: the keys of their trigrams are in range and determine the first two letters.\<close>

lemma unat_letter_byte: "unat (letter_byte c) = of_char c"
proof -
  have "letter_byte c = of_nat (of_char c)" by (simp only: letter_byte_def of_nat_of_char)
  then show ?thesis using char_bound [of c] by (simp only: unat_of_nat) simp
qed

lemma letter_byte_inject [simp]: "letter_byte c = letter_byte d \<longleftrightarrow> c = d"
  by (metis char_eq_nat unat_letter_byte)

lemma letter_index_lower:
  assumes "lower_char c"
  shows "unat (letter_index c) = of_char c - 97" "unat (letter_index c) < 26"
proof -
  have b: "97 \<le> unat (letter_byte c)" "unat (letter_byte c) \<le> 122" using assms by (simp_all add: unat_letter_byte lower_char_def)
  then have "letter_byte c > 0x5A" "0x61 \<le> letter_byte c" by (simp_all add: word_less_nat_alt word_le_nat_alt)
  then have "unat (letter_index c) = unat (letter_byte c) - 97"
    by (simp add: letter_index_def Let_def unat_sub)
  then show "unat (letter_index c) = of_char c - 97" "unat (letter_index c) < 26"
    using b by (simp_all add: unat_letter_byte)
qed

lemma makeBiGramKey_lower:
  assumes "lower_char (ng ! 0)" "lower_char (ng ! 1)"
  shows "unat (makeBiGramKey ng) = (of_char (ng ! 0) - 97) * 26 + (of_char (ng ! 1) - 97)" "unat (makeBiGramKey ng) < 676"
proof -
  let ?a = "letter_index (ng ! 0)" and ?b = "letter_index (ng ! 1)"
  have lt: "unat ?a < 26" "unat ?b < 26" using letter_index_lower(2) assms by blast+
  have u: "unat (ucast x :: u16) = unat x" for x :: byte
  proof -
    have "unat x < 2 ^ 16" using unsigned_less [where w = x and 'a = nat] by simp
    then show ?thesis by (simp add: unsigned_ucast_eq take_bit_nat_eq_self)
  qed
  have "unat (makeBiGramKey ng) = unat ?a * 26 + unat ?b"
    unfolding makeBiGramKey_def using lt u by (simp add: unat_word_ariths)
  then show "unat (makeBiGramKey ng) = (of_char (ng ! 0) - 97) * 26 + (of_char (ng ! 1) - 97)" "unat (makeBiGramKey ng) < 676"
    using lt letter_index_lower(1) [OF assms(1)] letter_index_lower(1) [OF assms(2)] by auto
qed

lemma tgrams_lower: "lower_word w \<Longrightarrow> g \<in> tgrams w \<Longrightarrow> i < 3 \<Longrightarrow> lower_char (g ! i)"
proof -
  assume a: "lower_word w" "g \<in> tgrams w" "i < 3"
  then have "g ! i \<in> set g" "set g \<subseteq> set w" by (auto simp: tgrams_def set_mono_sublist)
  then show ?thesis using a(1) by (auto simp: lower_word_def)
qed

lemma two_digits: "a * 26 + b = c * 26 + (d :: nat) \<Longrightarrow> b < 26 \<Longrightarrow> d < 26 \<Longrightarrow> a = c \<and> b = d"
proof -
  assume eq: "a * 26 + b = c * 26 + d" and lt: "b < 26" "d < 26"
  have "(a * 26 + b) div 26 = a" "(c * 26 + d) div 26 = c" using lt by simp_all
  then have "a = c" using eq by metis
  then show ?thesis using eq by simp
qed

lemma tgram_determined:
  assumes "lower_word v" "lower_word w" "g \<in> tgrams v" "h \<in> tgrams w"
    and "unat (makeBiGramKey g) = unat (makeBiGramKey h)" "g ! 2 = h ! 2"
  shows "g = h"
proof -
  have l: "lower_char (g ! 0)" "lower_char (g ! 1)" "lower_char (h ! 0)" "lower_char (h ! 1)"
    using tgrams_lower [OF assms(1,3)] tgrams_lower [OF assms(2,4)] by auto
  then have n: "97 \<le> (of_char (g ! 0) :: nat)" "97 \<le> (of_char (g ! 1) :: nat)" "of_char (g ! 1) \<le> (122 :: nat)"
    "97 \<le> (of_char (h ! 0) :: nat)" "97 \<le> (of_char (h ! 1) :: nat)" "of_char (h ! 1) \<le> (122 :: nat)"
    by (simp_all only: lower_char_def)
  have "(of_char (g ! 0) - 97) * 26 + (of_char (g ! 1) - 97) = (of_char (h ! 0) - 97) * 26 + (of_char (h ! 1) - 97 :: nat)"
    using assms(5) makeBiGramKey_lower(1) [OF l(1,2)] makeBiGramKey_lower(1) [OF l(3,4)] by simp
  from two_digits [OF this] n have "of_char (g ! 0) = (of_char (h ! 0) :: nat)" "of_char (g ! 1) = (of_char (h ! 1) :: nat)"
    by linarith+
  then have "g ! 0 = h ! 0" "g ! 1 = h ! 1" by simp_all
  moreover have "x = [x ! 0, x ! 1, x ! 2]" if "length x = 3" for x :: string
    using that by (auto simp: length_Suc_conv eval_nat_numeral)
  moreover have "length g = 3" "length h = 3" using assms(3,4) by (auto simp: tgrams_def)
  ultimately show ?thesis using assms(6) by metis
qed

section \<open>The state of the index\<close>

definition recs :: "(nat \<Rightarrow> bytes option) \<Rightarrow> nat \<Rightarrow> u32 list" where
  "recs files k = (case files k of None \<Rightarrow> [] | Some bs \<Rightarrow> file_records bs)"

definition whole_records :: "(nat \<Rightarrow> bytes option) \<Rightarrow> bool" where
  "whole_records files \<longleftrightarrow> (\<forall>k bs. files k = Some bs \<longrightarrow> 4 dvd length bs)"

lemma file_records_4: "length xs = 4 \<Longrightarrow> file_records (xs @ ys) = le_word xs # file_records ys"
  by (auto simp: numeral_eq_Suc length_Suc_conv)

lemma file_records_append: "4 dvd length bs \<Longrightarrow> file_records (bs @ le_bytes 4 d) = file_records bs @ [d]"
proof (induction bs rule: file_records.induct)
  case (1 a b c d bs)
  then have "4 dvd length bs" by (simp add: dvd_def) presburger
  then show ?case using 1 by simp
next
  case "2_1"
  show ?case using file_records_4 [of "le_bytes 4 d" "[]"] by simp
qed (auto dest: dvd_imp_le)

lemma write_gram_known:
  assumes "whole_records files" "unat (makeBiGramKey ng) < 676"
  shows "\<exists>files'. write_gram (n, True) files ng = Inr files' \<and> whole_records files' \<and> recs files' = recs files"
proof -
  let ?k = "unat (makeBiGramKey ng)"
  let ?f = "files(?k \<mapsto> (case files ?k of None \<Rightarrow> [] | Some bs \<Rightarrow> bs))"
  have "write_gram (n, True) files ng = Inr ?f" using assms(2) by (simp add: write_gram_def Let_def)
  moreover have "whole_records ?f" "recs ?f = recs files"
    using assms(1) by (auto simp: whole_records_def recs_def fun_eq_iff split: option.splits)
  ultimately show ?thesis by blast
qed

lemma write_gram_new:
  assumes "whole_records files" "unat (makeBiGramKey ng) < 676"
  shows "\<exists>files'. write_gram (n, False) files ng = Inr files' \<and> whole_records files' \<and>
    recs files' = (recs files)(unat (makeBiGramKey ng) := recs files (unat (makeBiGramKey ng)) @ [encNGData n (letter_byte (ng ! 2))])"
proof -
  let ?k = "unat (makeBiGramKey ng)" and ?d = "encNGData n (letter_byte (ng ! 2))"
  let ?old = "case files ?k of None \<Rightarrow> [] | Some bs \<Rightarrow> bs"
  let ?f = "files(?k \<mapsto> ?old @ le_bytes 4 ?d)"
  have old: "4 dvd length ?old" "file_records ?old = recs files ?k"
    using assms(1) by (auto simp: whole_records_def recs_def split: option.splits)
  have "write_gram (n, False) files ng = Inr ?f" using assms(2) by (simp add: write_gram_def Let_def)
  moreover have "whole_records ?f" using assms(1) old(1) by (auto simp: whole_records_def)
  moreover have "recs ?f = (recs files)(?k := recs files ?k @ [?d])"
    using file_records_append [OF old(1), of ?d] old(2) by (auto simp: recs_def fun_eq_iff)
  ultimately show ?thesis by blast
qed

lemma write_grams_recs:
  "whole_records files \<Longrightarrow> \<forall>ng \<in> set ngs. unat (makeBiGramKey ng) < 676 \<Longrightarrow>
   \<exists>files'. write_grams (n, known) files ngs = Inr files' \<and> whole_records files' \<and>
     (\<forall>k. set (recs files' k) = set (recs files k) \<union>
        (if known then {} else {encNGData n (letter_byte (ng ! 2)) |ng. ng \<in> set ngs \<and> unat (makeBiGramKey ng) = k}))"
proof (induction ngs arbitrary: files)
  case (Cons ng ngs)
  obtain f1 where f1: "write_gram (n, known) files ng = Inr f1" "whole_records f1"
    "recs f1 = (if known then recs files else (recs files)(unat (makeBiGramKey ng) :=
       recs files (unat (makeBiGramKey ng)) @ [encNGData n (letter_byte (ng ! 2))]))"
    using write_gram_known [of files ng n] write_gram_new [of files ng n] Cons.prems by (cases known) auto
  obtain f2 where f2: "write_grams (n, known) f1 ngs = Inr f2" "whole_records f2"
    "\<forall>k. set (recs f2 k) = set (recs f1 k) \<union>
        (if known then {} else {encNGData n (letter_byte (ng ! 2)) |ng. ng \<in> set ngs \<and> unat (makeBiGramKey ng) = k})"
    using Cons.IH [OF f1(2)] Cons.prems(2) by auto
  show ?case using f1 f2 by (intro exI [of _ f2]) auto
qed (auto simp: whole_records_def)

definition ids_ok :: "'db pebble \<Rightarrow> 'db \<Rightarrow> u32 \<Rightarrow> (string \<rightharpoonup> u32) \<Rightarrow> bool" where
  "ids_ok kv db cnt M \<longleftrightarrow>
     (\<forall>w. db_get kv db (word_key w) = map_option (le_bytes 4) (M w)) \<and>
     (\<forall>w n. M w = Some n \<longrightarrow> db_get kv db (num_key n) = Some (string_bytes w) \<and> unat n \<le> unat cnt) \<and>
     inj_on M (dom M) \<and> finite (dom M) \<and> unat cnt = card (dom M)"

definition grams_ok :: "(nat \<Rightarrow> bytes option) \<Rightarrow> (string \<rightharpoonup> u32) \<Rightarrow> bool" where
  "grams_ok files M \<longleftrightarrow> whole_records files \<and>
     (\<forall>k. set (recs files k) = {encNGData n (letter_byte (g ! 2)) |n w g. M w = Some n \<and> g \<in> tgrams w \<and> unat (makeBiGramKey g) = k})"

lemma key_facts [simp]: "word_key v = word_key w \<longleftrightarrow> v = w" "num_key m = num_key n \<longleftrightarrow> m = n"
    "word_key w \<noteq> num_key n" "num_key n \<noteq> word_key w"
  by (auto simp: word_key_def num_key_def word_unat_eq_iff)

lemma ids_ok_new:
  assumes laws: "pebble_laws kv" and ok: "ids_ok kv db cnt M" and new: "M w = None" and room: "unat cnt + 1 < 2 ^ 32"
  shows "ids_ok kv (db_set kv (db_set kv db (word_key w) (le_bytes 4 (cnt + 1))) (num_key (cnt + 1)) (string_bytes w)) (cnt + 1) (M(w \<mapsto> cnt + 1))"
proof -
  have u: "unat (cnt + 1) = unat cnt + 1" using room by (simp add: unat_word_ariths)
  have fresh: "M v \<noteq> Some (cnt + 1)" for v
  proof
    assume "M v = Some (cnt + 1)"
    then have "unat (cnt + 1) \<le> unat cnt" using ok unfolding ids_ok_def by blast
    then show False using u by simp
  qed
  have "inj_on (M(w \<mapsto> cnt + 1)) (dom (M(w \<mapsto> cnt + 1)))"
    using ok fresh new by (auto simp: ids_ok_def inj_on_def dom_def dest!: sym [of "Some (cnt + 1)"])
  moreover have "card (dom (M(w \<mapsto> cnt + 1))) = Suc (card (dom M))" "finite (dom (M(w \<mapsto> cnt + 1)))"
    using ok new by (auto simp: ids_ok_def domIff)
  ultimately show ?thesis
    using ok u fresh by (auto simp: ids_ok_def get_set [OF laws] le_SucI)
qed

section \<open>What a lookup finds\<close>

lemma raw_string_bytes [simp]: "raw (string_bytes w) = w"
proof -
  have "unat (of_char c :: byte) = of_char c" for c using unat_letter_byte [of c] by (simp add: letter_byte_def)
  then show ?thesis by (simp add: raw_def string_bytes_def comp_def)
qed

lemma scan_records:
  "set (foldl (scan_record ng) res ds) = set res \<union> {fst (decNGData d) |d. d \<in> set ds \<and> snd (decNGData d) \<in> set ng}"
  "distinct res \<Longrightarrow> distinct (foldl (scan_record ng) res ds)"
  by (induction ds arbitrary: res) (auto simp: scan_record_def split_beta)

lemma collect_ids_recs:
  "collect_ids files q order = foldl (\<lambda>res k. foldl (scan_record (extractTGramsByBGram q k)) res (recs files (unat k))) [] order"
proof -
  have "(\<lambda>result bkey. case files (unat bkey) of None \<Rightarrow> result
       | Some bs \<Rightarrow> foldl (scan_record (extractTGramsByBGram q bkey)) result (file_records bs)) =
     (\<lambda>res k. foldl (scan_record (extractTGramsByBGram q k)) res (recs files (unat k)))"
    by (auto simp: fun_eq_iff recs_def split: option.splits)
  then show ?thesis by (simp add: collect_ids_def)
qed

lemma collect_ids_set:
  "set (collect_ids files q order) =
     {fst (decNGData d) |d k. k \<in> set order \<and> d \<in> set (recs files (unat k)) \<and> snd (decNGData d) \<in> set (extractTGramsByBGram q k)}"
  "distinct (collect_ids files q order)"
proof -
  have "set (foldl (\<lambda>res k. foldl (scan_record (extractTGramsByBGram q k)) res (recs files (unat k))) res order) = set res \<union>
     {fst (decNGData d) |d k. k \<in> set order \<and> d \<in> set (recs files (unat k)) \<and> snd (decNGData d) \<in> set (extractTGramsByBGram q k)}" for res
    by (induction order arbitrary: res) (auto simp: scan_records)
  then show "set (collect_ids files q order) =
     {fst (decNGData d) |d k. k \<in> set order \<and> d \<in> set (recs files (unat k)) \<and> snd (decNGData d) \<in> set (extractTGramsByBGram q k)}"
    by (simp add: collect_ids_recs)
  have "distinct res \<Longrightarrow> distinct (foldl (\<lambda>res k. foldl (scan_record (extractTGramsByBGram q k)) res (recs files (unat k))) res order)" for res
    by (induction order arbitrary: res) (auto simp: scan_records)
  then show "distinct (collect_ids files q order)" by (simp add: collect_ids_recs)
qed

lemma getWordsFromSeq_ok:
  assumes "ids_ok kv db cnt M"
  shows "\<forall>n \<in> set ids. n \<in> ran M \<Longrightarrow> \<exists>res. getWordsFromSeq kv db ids = Inr res \<and> list_all2 (\<lambda>w n. M w = Some n) res ids"
proof (induction ids)
  case (Cons n ids)
  obtain w where w: "M w = Some n" using Cons.prems by (auto simp: ran_def)
  then have "db_get kv db (num_key n) = Some (string_bytes w)" using assms by (auto simp: ids_ok_def)
  then show ?case using Cons w by auto
qed simp

lemma list_all2_map_words:
  assumes "list_all2 (\<lambda>w n. M w = Some n) res ids" "inj_on M (dom M)" "distinct ids"
  shows "distinct res" "set res = {w. \<exists>n \<in> set ids. M w = Some n}"
proof -
  have "ids = map (\<lambda>w. the (M w)) res" using assms(1) by (induction) auto
  then show "distinct res" using assms(3) distinct_map by blast
  show "set res = {w. \<exists>n \<in> set ids. M w = Some n}"
    using assms(1,2) by (auto simp: list_all2_conv_all_nth in_set_conv_nth inj_on_def dom_def) metis+
qed

lemma lookup_ok:
  assumes ids: "ids_ok kv (ng_db st) (ng_counter st) M" and grams: "grams_ok (ng_files st) M"
    and small: "card (dom M) < 2 ^ 24" and lower: "\<forall>w \<in> dom M. lower_word w" "lower_word q"
    and order: "set order = {k. extractTGramsByBGram q k \<noteq> []}"
  shows "\<exists>res. GetWordsByTGrams kv st q order = Inr res \<and> distinct res \<and> set res = {v \<in> dom M. tgrams v \<inter> tgrams q \<noteq> {}}"
proof -
  let ?ids = "collect_ids (ng_files st) q order"
  have n24: "unat n < 2 ^ 24" if "M w = Some n" for w n
    using ids small that unfolding ids_ok_def by (metis le_less_trans)
  have mem: "n \<in> set ?ids \<longleftrightarrow> (\<exists>v. M v = Some n \<and> tgrams v \<inter> tgrams q \<noteq> {})" for n
  proof
    assume "n \<in> set ?ids"
    then obtain d k where d: "n = fst (decNGData d)" "d \<in> set (recs (ng_files st) (unat k))"
      "snd (decNGData d) \<in> set (extractTGramsByBGram q k)" by (auto simp: collect_ids_set)
    obtain m v g where g: "d = encNGData m (letter_byte (g ! 2))" "M v = Some m" "g \<in> tgrams v" "unat (makeBiGramKey g) = unat k"
      using d(2) grams by (auto simp: grams_ok_def)
    obtain h where h: "letter_byte (g ! 2) = letter_byte (h ! 2)" "h \<in> tgrams q" "makeBiGramKey h = k"
      using d(3) g(1) dec_enc [OF n24 [OF g(2)]] by (auto simp: byBGram_set)
    have "g = h" using tgram_determined [of v q g h] lower g h by (auto simp: dom_def)
    then show "\<exists>v. M v = Some n \<and> tgrams v \<inter> tgrams q \<noteq> {}"
      using g h d(1) dec_enc [OF n24 [OF g(2)]] by auto
  next
    assume "\<exists>v. M v = Some n \<and> tgrams v \<inter> tgrams q \<noteq> {}"
    then obtain v g where g: "M v = Some n" "g \<in> tgrams v" "g \<in> tgrams q" by blast
    let ?d = "encNGData n (letter_byte (g ! 2))"
    have "?d \<in> set (recs (ng_files st) (unat (makeBiGramKey g)))" using grams g by (auto simp: grams_ok_def)
    moreover have "letter_byte (g ! 2) \<in> set (extractTGramsByBGram q (makeBiGramKey g))" using g(3) by (auto simp: byBGram_set)
    moreover have "makeBiGramKey g \<in> set order"
      unfolding order using calculation(2) by (metis empty_iff empty_set mem_Collect_eq)
    moreover have "decNGData ?d = (n, letter_byte (g ! 2))" by (rule dec_enc [OF n24 [OF g(1)]])
    ultimately have "\<exists>d k. n = fst (decNGData d) \<and> k \<in> set order \<and> d \<in> set (recs (ng_files st) (unat k)) \<and>
        snd (decNGData d) \<in> set (extractTGramsByBGram q k)"
      by (metis fst_conv snd_conv)
    then show "n \<in> set ?ids" unfolding collect_ids_set by blast
  qed
  then have "\<forall>n \<in> set ?ids. n \<in> ran M" by (auto simp: ran_def)
  from getWordsFromSeq_ok [OF ids this] obtain res where
    res: "getWordsFromSeq kv (ng_db st) ?ids = Inr res" "list_all2 (\<lambda>w n. M w = Some n) res ?ids" by blast
  have inj: "inj_on M (dom M)" using ids by (simp add: ids_ok_def)
  from list_all2_map_words [OF res(2) inj collect_ids_set(2)]
  have "distinct res" "set res = {w. \<exists>n \<in> set ?ids. M w = Some n}" by blast+
  moreover have "{w. \<exists>n \<in> set ?ids. M w = Some n} = {v \<in> dom M. tgrams v \<inter> tgrams q \<noteq> {}}"
  proof -
    have same: "v = w" if "M v = Some n" "M w = Some n" for v w n using inj that by (metis domI inj_onD)
    show ?thesis
    proof (rule set_eqI)
      fix w
      have "(\<exists>n \<in> set ?ids. M w = Some n) \<longleftrightarrow> (\<exists>n v. M v = Some n \<and> M w = Some n \<and> tgrams v \<inter> tgrams q \<noteq> {})"
        unfolding Bex_def mem by blast
      also have "\<dots> \<longleftrightarrow> (\<exists>n. M w = Some n) \<and> tgrams w \<inter> tgrams q \<noteq> {}" using same by blast
      finally show "w \<in> {w. \<exists>n \<in> set ?ids. M w = Some n} \<longleftrightarrow> w \<in> {v \<in> dom M. tgrams v \<inter> tgrams q \<noteq> {}}"
        by (auto simp: dom_def)
    qed
  qed
  ultimately show ?thesis using res(1) by (auto simp: GetWordsByTGrams_def)
qed

section \<open>Indexing with any honest cache\<close>

locale word_cacher = cacher honest cget cput
  for honest :: "(string \<rightharpoonup> u32) \<Rightarrow> 's \<Rightarrow> bool"
    and cget :: "'s \<Rightarrow> string \<Rightarrow> (u32 option \<times> 's) go" and cput :: "'s \<Rightarrow> string \<Rightarrow> u32 \<Rightarrow> 's go"
begin

definition inv :: "'db pebble \<Rightarrow> (string \<rightharpoonup> u32) \<Rightarrow> ('db, 's) ng_state \<Rightarrow> bool" where
  "inv kv M st \<longleftrightarrow> ids_ok kv (ng_db st) (ng_counter st) M \<and> grams_ok (ng_files st) M \<and> (\<forall>i. honest M (ng_caches st i))"

lemma alloc_ok:
  assumes laws: "pebble_laws kv" and inv: "inv kv M st" and room: "card (dom M) + 1 < 2 ^ 32"
  shows "\<exists>n known st'. alloc kv cget cput i st w = Inr ((n, known), st') \<and> ng_files st' = ng_files st \<and>
    (if known then M w = Some n \<and> inv kv M st'
     else M w = None \<and> ids_ok kv (ng_db st') (ng_counter st') (M(w \<mapsto> n)) \<and> (\<forall>j. honest (M(w \<mapsto> n)) (ng_caches st' j)))"
proof -
  have h: "honest M (ng_caches st i)" and ids: "ids_ok kv (ng_db st) (ng_counter st) M" using inv by (auto simp: inv_def)
  obtain r c where c: "cget (ng_caches st i) w = Inr (r, c)" "honest M c" "\<forall>v. r = Some v \<longrightarrow> M w = Some v"
    using get_honest [OF h, of w] by blast
  show ?thesis
  proof (cases r)
    case (Some n)
    then show ?thesis using c inv by (intro exI [of _ n] exI [of _ True]) (auto simp: alloc_def inv_def)
  next
    case None
    show ?thesis
    proof (cases "M w")
      case (Some n)
      then have "db_get kv (ng_db st) (word_key w) = Some (le_bytes 4 n)" using ids by (simp add: ids_ok_def)
      then show ?thesis using c None Some inv by (intro exI [of _ n] exI [of _ True]) (auto simp: alloc_def inv_def)
    next
      case new: None
      let ?n = "ng_counter st + 1"
      have "db_get kv (ng_db st) (word_key w) = None" using ids new by (simp add: ids_ok_def)
      moreover obtain c' where c': "cput c w ?n = Inr c'" "honest (M(w \<mapsto> ?n)) c'" using put_new [OF c(2) new] by blast
      moreover have "honest (M(w \<mapsto> ?n)) (ng_caches st j)" for j
      proof (rule honest_mono)
        show "honest M (ng_caches st j)" using inv by (simp add: inv_def)
        show "M \<subseteq>\<^sub>m M(w \<mapsto> ?n)" using new by (auto simp: map_le_def)
      qed
      moreover have "unat (ng_counter st) + 1 < 2 ^ 32" using ids room by (simp add: ids_ok_def)
      from ids_ok_new [OF laws ids new this] have "ids_ok kv (db_set kv (db_set kv (ng_db st) (word_key w) (le_bytes 4 ?n))
          (num_key ?n) (string_bytes w)) ?n (M(w \<mapsto> ?n))" .
      ultimately show ?thesis using c None new
        by (intro exI [of _ ?n] exI [of _ False]) (auto simp: alloc_def Let_def)
    qed
  qed
qed

lemma index_word_ok:
  assumes laws: "pebble_laws kv" and inv: "inv kv M st" and room: "card (dom M) + 1 < 2 ^ 32" and w: "lower_word w"
  shows "\<exists>st' M'. index_word kv cget cput st w = Inr st' \<and> inv kv M' st' \<and> dom M' = dom M \<union> (if length w < 2 then {} else {w})"
proof (cases "length w < 2")
  case True
  then show ?thesis using inv by (auto simp: index_word_def)
next
  case False
  have "w ! 0 \<in> set w" using False by (cases w) auto
  then have "lower_char (w ! 0)" using w unfolding lower_word_def by blast
  then have shard: "unat (letter_index (w ! 0)) < 26" by (rule letter_index_lower)
  obtain n known st1 where a: "alloc kv cget cput (unat (letter_index (w ! 0))) st w = Inr ((n, known), st1)"
    "ng_files st1 = ng_files st"
    "if known then M w = Some n \<and> inv kv M st1
     else M w = None \<and> ids_ok kv (ng_db st1) (ng_counter st1) (M(w \<mapsto> n)) \<and> (\<forall>j. honest (M(w \<mapsto> n)) (ng_caches st1 j))"
    using alloc_ok [OF laws inv room] by blast
  have grams: "grams_ok (ng_files st) M" using inv by (simp add: inv_def)
  then have whole: "whole_records (ng_files st)" by (simp add: grams_ok_def)
  have keys: "\<forall>ng \<in> set (extractTGrams w). unat (makeBiGramKey ng) < 676"
    using makeBiGramKey_lower(2) tgrams_lower [OF w] by (simp add: extractTGrams_set)
  obtain fs where fs: "write_grams (n, known) (ng_files st) (extractTGrams w) = Inr fs" "whole_records fs"
    "\<forall>k. set (recs fs k) = set (recs (ng_files st) k) \<union>
       (if known then {} else {encNGData n (letter_byte (ng ! 2)) |ng. ng \<in> set (extractTGrams w) \<and> unat (makeBiGramKey ng) = k})"
    using write_grams_recs [OF whole keys, of n known] by (elim exE conjE)
  let ?M = "if known then M else M(w \<mapsto> n)"
  have "grams_ok fs ?M"
  proof (cases known)
    case True
    then show ?thesis using grams fs by (simp add: grams_ok_def)
  next
    case False
    then have "M w = None" using a(3) by simp
    then have upd: "(M(w \<mapsto> n)) v = Some m \<longleftrightarrow> (v = w \<and> m = n) \<or> M v = Some m" for v m by auto
    have new: "set (recs fs k) = {encNGData m (letter_byte (g ! 2)) |m v g. M v = Some m \<and> g \<in> tgrams v \<and> unat (makeBiGramKey g) = k} \<union>
        {encNGData n (letter_byte (g ! 2)) |g. g \<in> tgrams w \<and> unat (makeBiGramKey g) = k}" for k
      using fs(3) grams False by (simp add: grams_ok_def extractTGrams_set)
    have "set (recs fs k) = {encNGData m (letter_byte (g ! 2)) |m v g. (M(w \<mapsto> n)) v = Some m \<and> g \<in> tgrams v \<and> unat (makeBiGramKey g) = k}" for k
      unfolding new upd by blast
    then show ?thesis using fs(2) False by (simp add: grams_ok_def)
  qed
  then have "inv kv ?M (st1\<lparr>ng_files := fs\<rparr>)" using a(3) by (auto simp: inv_def split: if_splits)
  moreover have "dom ?M = dom M \<union> {w}" using a(3) by (auto split: if_splits)
  moreover have "index_word kv cget cput st w = Inr (st1\<lparr>ng_files := fs\<rparr>)"
    using False shard a(1,2) fs(1) by (simp add: index_word_def Let_def)
  ultimately show ?thesis using False by (intro exI [of _ "st1\<lparr>ng_files := fs\<rparr>"] exI [of _ ?M]) simp
qed

lemma IndexTriGrams_ok:
  assumes laws: "pebble_laws kv"
  shows "inv kv M st \<Longrightarrow> card (dom M \<union> set ws) + 1 < 2 ^ 32 \<Longrightarrow> finite (dom M) \<Longrightarrow> \<forall>w \<in> set ws. lower_word w \<Longrightarrow>
    \<exists>st' M'. IndexTriGrams kv cget cput st ws = Inr st' \<and> inv kv M' st' \<and> dom M' = dom M \<union> {w \<in> set ws. 2 \<le> length w}"
proof (induction ws arbitrary: M st)
  case (Cons w ws)
  have "card (dom M) \<le> card (dom M \<union> set (w # ws))" by (rule card_mono) (use Cons.prems(3) in auto)
  then obtain st1 M1 where s1: "index_word kv cget cput st w = Inr st1" "inv kv M1 st1"
    "dom M1 = dom M \<union> (if length w < 2 then {} else {w})"
    using index_word_ok [OF laws Cons.prems(1), of w] Cons.prems(2,4) by auto
  have "card (dom M1 \<union> set ws) \<le> card (dom M \<union> set (w # ws))"
    by (rule card_mono) (use Cons.prems(3) s1(3) in \<open>auto split: if_splits\<close>)
  then obtain st2 M2 where s2: "IndexTriGrams kv cget cput st1 ws = Inr st2" "inv kv M2 st2"
    "dom M2 = dom M1 \<union> {w \<in> set ws. 2 \<le> length w}"
    using Cons.IH [OF s1(2)] Cons.prems(2,3,4) s1(3) by (auto split: if_splits)
  then show ?case using s1 by (intro exI [of _ st2] exI [of _ M2]) (auto split: if_splits)
qed auto

end

interpretation word_lru: word_cacher lru_honest lru_Get lru_Put
  by unfold_locales

section \<open>Properties\<close>

definition empty_index :: "'db \<Rightarrow> (string, u32) LRUCache \<Rightarrow> ('db, (string, u32) LRUCache) ng_state" where
  "empty_index db c = \<lparr>ng_counter = 0, ng_db = db, ng_caches = (\<lambda>_. c), ng_files = (\<lambda>_. None)\<rparr>"

lemma empty_index_inv:
  assumes "\<forall>w. db_get kv db (word_key w) = None" "0 < cap"
  shows "word_lru.inv kv Map.empty (empty_index db (NewLRUCache k0 v0 cap))"
proof -
  have "lru_honest Map.empty (NewLRUCache k0 v0 cap)"
    using NewLRUCache_repr [of k0 v0 cap] assms(2) by (auto simp: lru_honest_def NewLRUCache_def)
  then show ?thesis
    using assms(1) by (auto simp: word_lru.inv_def empty_index_def ids_ok_def grams_ok_def whole_records_def recs_def)
qed

text \<open>
  C13: candidates for a misspelt word: after indexing any lower-case words (fewer than \<open>2 ^ 24\<close> distinct ones)
  into an empty index, a lookup returns exactly the indexed words that share a trigram with the query, each
  once, in whatever order the map of bigrams is iterated; no record, id or cache entry is mixed up.
\<close>

theorem trigram_lookup_exact:
  assumes laws: "pebble_laws kv" and empty: "\<forall>w. db_get kv db (word_key w) = None" and cap: "0 < cap"
    and lower: "\<forall>w \<in> set ws. lower_word w" "lower_word q" and few: "card (set ws) < 2 ^ 24"
    and order: "set order = {k. extractTGramsByBGram q k \<noteq> []}"
  shows "\<exists>st res. IndexTriGrams kv lru_Get lru_Put (empty_index db (NewLRUCache k0 v0 cap)) ws = Inr st \<and>
    GetWordsByTGrams kv st q order = Inr res \<and> distinct res \<and> set res = {v \<in> set ws. tgrams v \<inter> tgrams q \<noteq> {}}"
proof -
  let ?st = "empty_index db (NewLRUCache k0 v0 cap)"
  have room: "card (dom Map.empty \<union> set ws) + 1 < 2 ^ 32" using few by simp
  obtain st M where st: "IndexTriGrams kv lru_Get lru_Put ?st ws = Inr st" "word_lru.inv kv M st"
    "dom M = dom Map.empty \<union> {w \<in> set ws. 2 \<le> length w}"
    using word_lru.IndexTriGrams_ok [OF laws empty_index_inv [OF empty cap, of k0 v0] room _ lower(1)] by auto
  have dom: "dom M \<subseteq> set ws" using st(3) by auto
  then have "card (dom M) < 2 ^ 24" using few card_mono [of "set ws" "dom M"] by simp
  moreover have "\<forall>w \<in> dom M. lower_word w" using dom lower(1) by blast
  ultimately obtain res where res: "GetWordsByTGrams kv st q order = Inr res" "distinct res"
    "set res = {v \<in> dom M. tgrams v \<inter> tgrams q \<noteq> {}}"
    using lookup_ok [of kv st M q order] st(2) lower(2) order unfolding word_lru.inv_def by blast
  have "v \<in> dom M" if vs: "v \<in> set ws" and vt: "tgrams v \<inter> tgrams q \<noteq> {}" for v
  proof -
    obtain g where "g \<in> tgrams v" using vt by blast
    then have "2 \<le> length v" by (auto simp: tgrams_def dest: sublist_length_le)
    then show ?thesis using st(3) vs by simp
  qed
  then have "{v \<in> dom M. tgrams v \<inter> tgrams q \<noteq> {}} = {v \<in> set ws. tgrams v \<inter> tgrams q \<noteq> {}}" using dom by blast
  then show ?thesis using st(1) res by auto
qed

definition demo_index :: "(((string \<times> bytes) list, (string, u32) LRUCache) ng_state)" where
  "demo_index = empty_index [] (NewLRUCache [] 0 4)"

theorem trigram_lookup_exact_witness:
  "\<exists>st res. IndexTriGrams list_db lru_Get lru_Put demo_index [''cats'', ''dogs''] = Inr st \<and>
     GetWordsByTGrams list_db st ''cab'' [makeBiGramKey ''cab''] = Inr res \<and>
     set res = {v \<in> {''cats'', ''dogs''}. tgrams v \<inter> tgrams ''cab'' \<noteq> {}}"
proof -
  have "set [makeBiGramKey ''cab''] = {k. extractTGramsByBGram ''cab'' k \<noteq> []}"
    by (auto simp: extractTGramsByBGram_def)
  moreover have "\<forall>w. db_get list_db [] (word_key w) = None" by (simp add: list_db_def)
  moreover have "\<forall>w \<in> set [''cats'', ''dogs'']. lower_word w" "lower_word ''cab''"
    by (simp_all add: lower_word_def lower_char_def)
  ultimately show ?thesis
    using trigram_lookup_exact [OF list_db_laws, of "[]" 4 "[''cats'', ''dogs'']" "''cab''" "[makeBiGramKey ''cab'']" "[]" 0]
    unfolding demo_index_def by force
qed

definition restart :: "((string \<times> bytes) list, (string, u32) LRUCache) ng_state \<Rightarrow> ((string \<times> bytes) list, (string, u32) LRUCache) ng_state" where
  "restart st = st\<lparr>ng_counter := LoadIndexC list_db (ng_db st), ng_caches := ng_caches demo_index\<rparr>"

definition crash_lookup :: "repo_error + string list" where
  "crash_lookup =
     (case IndexTriGrams list_db lru_Get lru_Put demo_index [''cats''] of
        Inl p \<Rightarrow> Inl ErrNotFound
      | Inr st \<Rightarrow>
          (case IndexTriGrams list_db lru_Get lru_Put (restart st) [''dogs''] of
             Inl p \<Rightarrow> Inl ErrNotFound
           | Inr st' \<Rightarrow> GetWordsByTGrams list_db st' ''cats'' [makeBiGramKey ''cat'', makeBiGramKey ''ats'']))"

lemma fresh_Put: "lru_Put (NewLRUCache [] 0 4) w n = put_node (NewLRUCache [] (0 :: u32) 4) w n"
  by (simp add: lru_Put_def NewLRUCache_def)

lemma fresh_Get: "lru_Get (NewLRUCache [] (0 :: u32) 4) w = Inr (None, NewLRUCache [] 0 4)"
  by (simp add: lru_Get_def NewLRUCache_def)

definition put_cache :: "string \<Rightarrow> u32 \<Rightarrow> (string, u32) LRUCache" where
  "put_cache w n = projr (put_node (NewLRUCache [] 0 4) w n)"

lemma put_cache: "put_node (NewLRUCache [] (0 :: u32) 4) w n = Inr (put_cache w n)"
  by (simp add: put_cache_def put_node_def NewLRUCache_def lru_insert_def newNode_def Let_def)

lemma demo_keys:
  "letter_index (CHR ''c'') = 2" "letter_index (CHR ''d'') = 3"
  "makeBiGramKey ''cat'' = 52" "makeBiGramKey ''ats'' = 19" "makeBiGramKey ''dog'' = 92" "makeBiGramKey ''ogs'' = 370"
  "extractTGrams ''cats'' = [''cat'', ''ats'']" "extractTGrams ''dogs'' = [''dog'', ''ogs'']"
  by code_simp+

lemma demo_lookup:
  "collect_ids [52 \<mapsto> le_bytes 4 (encNGData 1 (letter_byte (CHR ''t''))), 19 \<mapsto> le_bytes 4 (encNGData 1 (letter_byte (CHR ''s''))),
     92 \<mapsto> le_bytes 4 (encNGData 1 (letter_byte (CHR ''g''))), 370 \<mapsto> le_bytes 4 (encNGData 1 (letter_byte (CHR ''s'')))]
     ''cats'' [52, 19] = [1]"
proof -
  have "extractTGramsByBGram ''cats'' 52 = [letter_byte (CHR ''t'')]" "extractTGramsByBGram ''cats'' 19 = [letter_byte (CHR ''s'')]"
    by code_simp+
  moreover have "file_records (le_bytes 4 d) = [d]" for d using file_records_append [of "[]" d] by simp
  ultimately show ?thesis by (simp add: collect_ids_def scan_record_def dec_enc)
qed


end
