(* ===== verification/GoSort.thy ===== *)
theory GoSort
  imports Prelude
begin

text \<open>
  Go's \<open>sort.Slice\<close> and \<open>sort.SliceStable\<close>: a contract for any sorting function driven by a
  comparison, and the stable sort that satisfies it.
\<close>

definition strict_weak_on :: "'a set \<Rightarrow> ('a \<Rightarrow> 'a \<Rightarrow> bool) \<Rightarrow> bool" where
  "strict_weak_on A lt \<longleftrightarrow>
     (\<forall>x \<in> A. \<not> lt x x) \<and>
     (\<forall>x \<in> A. \<forall>y \<in> A. lt x y \<longrightarrow> \<not> lt y x) \<and>
     (\<forall>x \<in> A. \<forall>y \<in> A. \<forall>z \<in> A. lt x z \<longrightarrow> lt x y \<or> lt y z)"

definition sorted_by :: "('a \<Rightarrow> 'a \<Rightarrow> bool) \<Rightarrow> 'a list \<Rightarrow> bool" where
  "sorted_by lt = sorted_wrt (\<lambda>x y. \<not> lt y x)"

text \<open>What \<open>sort.Slice\<close> promises: a permutation, and an ordered one if \<open>lt\<close> is a strict weak order.\<close>

definition sort_law :: "(('a \<Rightarrow> 'a \<Rightarrow> bool) \<Rightarrow> 'a list \<Rightarrow> 'a list) \<Rightarrow> bool" where
  "sort_law srt \<longleftrightarrow> (\<forall>lt xs. mset (srt lt xs) = mset xs \<and> (strict_weak_on (set xs) lt \<longrightarrow> sorted_by lt (srt lt xs)))"

fun insort_by :: "('a \<Rightarrow> 'a \<Rightarrow> bool) \<Rightarrow> 'a \<Rightarrow> 'a list \<Rightarrow> 'a list" where
  "insort_by lt x [] = [x]"
| "insort_by lt x (y # ys) = (if lt y x then y # insort_by lt x ys else x # y # ys)"

definition stable_sort :: "('a \<Rightarrow> 'a \<Rightarrow> bool) \<Rightarrow> 'a list \<Rightarrow> 'a list" where
  "stable_sort lt xs = foldr (insort_by lt) xs []"

lemma strict_weak_subset: "strict_weak_on A lt \<Longrightarrow> B \<subseteq> A \<Longrightarrow> strict_weak_on B lt"
  unfolding strict_weak_on_def by (meson subsetD)

lemma strict_weak_trans:
  "strict_weak_on A lt \<Longrightarrow> x \<in> A \<Longrightarrow> y \<in> A \<Longrightarrow> z \<in> A \<Longrightarrow> \<not> lt y x \<Longrightarrow> \<not> lt z y \<Longrightarrow> \<not> lt z x"
  unfolding strict_weak_on_def by blast

lemma mset_insort_by [simp]: "mset (insort_by lt x ys) = add_mset x (mset ys)"
  by (induction ys) auto

lemma set_insort_by [simp]: "set (insort_by lt x ys) = insert x (set ys)"
  by (induction ys) auto

lemma mset_stable_sort [simp]: "mset (stable_sort lt xs) = mset xs"
  by (induction xs) (simp_all add: stable_sort_def)

lemma set_stable_sort [simp]: "set (stable_sort lt xs) = set xs"
  by (metis mset_stable_sort set_mset_mset)

lemma sorted_insort_by:
  assumes "strict_weak_on (insert x (set ys)) lt" "sorted_by lt ys"
  shows "sorted_by lt (insort_by lt x ys)"
  using assms
proof (induction ys)
  case (Cons y ys)
  have sub: "strict_weak_on (insert x (set ys)) lt" by (rule strict_weak_subset [OF Cons.prems(1)]) auto
  have ys: "sorted_by lt ys" "\<forall>z \<in> set ys. \<not> lt z y" using Cons.prems(2) by (simp_all add: sorted_by_def)
  show ?case
  proof (cases "lt y x")
    case True
    then have "\<not> lt x y" using Cons.prems(1) by (simp add: strict_weak_on_def)
    then show ?thesis using True ys Cons.IH [OF sub ys(1)] by (simp add: sorted_by_def)
  next
    case False
    have "\<not> lt z x" if "z \<in> set ys" for z
      using strict_weak_trans [OF Cons.prems(1), of x y z] that False ys(2) by simp
    then show ?thesis using False ys by (simp add: sorted_by_def)
  qed
qed (simp add: sorted_by_def)

lemma sorted_stable_sort: "strict_weak_on (set xs) lt \<Longrightarrow> sorted_by lt (stable_sort lt xs)"
proof (induction xs)
  case (Cons x xs)
  have "strict_weak_on (set xs) lt" by (rule strict_weak_subset [OF Cons.prems]) auto
  then have "sorted_by lt (stable_sort lt xs)" by (rule Cons.IH)
  moreover have "strict_weak_on (insert x (set (stable_sort lt xs))) lt" using Cons.prems by simp
  ultimately show ?case using sorted_insort_by by (fastforce simp: stable_sort_def)
qed (simp add: stable_sort_def sorted_by_def)

lemma stable_sort_law: "sort_law stable_sort"
  by (simp add: sort_law_def sorted_stable_sort)

text \<open>The facts a client of \<open>sort.Slice\<close> uses, under the contract alone.\<close>

locale sort_slice =
  fixes srt :: "('a \<Rightarrow> 'a \<Rightarrow> bool) \<Rightarrow> 'a list \<Rightarrow> 'a list"
  assumes law: "sort_law srt"
begin

lemma perm [simp]: "mset (srt lt xs) = mset xs"
  using law by (simp add: sort_law_def)

lemma set_srt [simp]: "set (srt lt xs) = set xs"
  using perm by (metis set_mset_mset)

lemma length_srt [simp]: "length (srt lt xs) = length xs"
  using perm by (metis size_mset)

lemma distinct_srt [simp]: "distinct (srt lt xs) = distinct xs"
  using perm [of lt xs] by (rule mset_eq_imp_distinct_iff)

lemma sorted_srt: "strict_weak_on (set xs) lt \<Longrightarrow> sorted_by lt (srt lt xs)"
  using law by (simp add: sort_law_def)

text \<open>A prefix of the ordered slice holds the best elements.\<close>

lemma prefix_best:
  assumes "strict_weak_on (set xs) lt" "x \<in> set (take n (srt lt xs))" "y \<in> set (drop n (srt lt xs))"
  shows "\<not> lt y x"
proof -
  have "sorted_by lt (take n (srt lt xs) @ drop n (srt lt xs))" using sorted_srt [OF assms(1)] by simp
  then show ?thesis using assms(2,3) unfolding sorted_by_def sorted_wrt_append by blast
qed

end

interpretation stable: sort_slice stable_sort
  by unfold_locales (rule stable_sort_law)

text \<open>Comparisons of the program are lexicographic in keys with a linear order.\<close>

lemma strict_weak_key: "(\<And>x y. lt x y \<longleftrightarrow> f x < (f y :: 'b::linorder)) \<Longrightarrow> strict_weak_on A lt"
  by (auto simp: strict_weak_on_def)

lemma strict_weak_lex:
  fixes f :: "'a \<Rightarrow> 'b::linorder"
  assumes "strict_weak_on A g" "\<And>x y. lt x y \<longleftrightarrow> f x < f y \<or> f x = f y \<and> g x y"
  shows "strict_weak_on A lt"
proof -
  have irr: "\<not> lt x x" if "x \<in> A" for x using assms(1) that by (simp add: assms(2) strict_weak_on_def)
  have asym: "\<not> lt y x" if "x \<in> A" "y \<in> A" "lt x y" for x y
  proof -
    have "g x y \<Longrightarrow> \<not> g y x" using assms(1) that(1,2) by (simp add: strict_weak_on_def)
    then show ?thesis using that(3) by (auto simp: assms(2))
  qed
  have split: "lt x y \<or> lt y z" if "x \<in> A" "y \<in> A" "z \<in> A" "lt x z" for x y z
  proof -
    have "g x z \<Longrightarrow> g x y \<or> g y z" using assms(1) that(1,2,3) unfolding strict_weak_on_def by blast
    then show ?thesis using that(4) by (cases "f x" "f y" rule: linorder_cases; cases "f y" "f z" rule: linorder_cases) (auto simp: assms(2))
  qed
  show ?thesis unfolding strict_weak_on_def using irr asym split by blast
qed

end
