(* ===== verification/Tokenizer.thy ===== *)
theory Tokenizer
  imports GoSort GoStrings
begin

text \<open>
  The tokenizer (\<open>textHandling/tokenizer.go\<close>). Text is a byte string. What the code takes from
  \<open>unicode\<close>, \<open>utf8\<close> and \<open>strings.ToLower\<close> is the record \<open>unicode\<close>; what it takes from \<open>regexp\<close> is
  a function that lists the matches of a rule as pairs of byte offsets.
\<close>

section \<open>Data\<close>

datatype tokenType = WORD | NUMBER | WHITESPACE | SYMBOL | UNKNOWN | EMAIL_ADDR | URL_ADDR | IP_V4_ADDR

record token =
  TType :: tokenType
  Value :: string
  startPos :: int
  endPos :: int

record entityRule =
  FindAllStringIndex :: "string \<Rightarrow> (nat \<times> nat) list"
  TokenType :: tokenType

text \<open>\<open>lower_runes s\<close> is \<open>[]rune(strings.ToLower(s))\<close>, \<open>enc r\<close> what \<open>WriteRune(r)\<close> appends.\<close>

record unicode =
  lower_runes :: "string \<Rightarrow> nat list"
  enc :: "nat \<Rightarrow> string"
  isDigit :: "nat \<Rightarrow> bool"
  isSpace :: "nat \<Rightarrow> bool"
  isPunct :: "nat \<Rightarrow> bool"
  isSymbol :: "nat \<Rightarrow> bool"

text \<open>Documented behaviour: a rune is at least one byte, an ASCII rune is its own byte.\<close>

definition unicode_laws :: "unicode \<Rightarrow> bool" where
  "unicode_laws u \<longleftrightarrow> (\<forall>r. enc u r \<noteq> []) \<and> (\<forall>r < 128. enc u r = [char_of r]) \<and> lower_runes u [] = []"

text \<open>An instance for ASCII text.\<close>

definition ascii :: unicode where
  "ascii = \<lparr>lower_runes = (\<lambda>s. map of_char (to_lower s)), enc = (\<lambda>r. [char_of r]),
     isDigit = (\<lambda>r. 48 \<le> r \<and> r \<le> 57), isSpace = (\<lambda>r. r \<in> {9, 10, 11, 12, 13, 32}),
     isPunct = (\<lambda>r. r \<in> {33, 34, 35, 37, 38, 39, 40, 41, 42, 44, 45, 46, 47, 58, 59, 63, 64, 91, 92, 93, 95, 123, 125}),
     isSymbol = (\<lambda>r. r \<in> {36, 43, 60, 61, 62, 94, 96, 124, 126})\<rparr>"

lemma ascii_laws: "unicode_laws ascii"
  by (simp add: unicode_laws_def ascii_def to_lower_def)

section \<open>Runs of one class\<close>

definition getRuneType :: "unicode \<Rightarrow> nat \<Rightarrow> tokenType" where
  "getRuneType u r =
     (if r \<ge> 97 \<and> r \<le> 122 then WORD
      else if isDigit u r then NUMBER
      else if isSpace u r then WHITESPACE
      else if isPunct u r \<or> isSymbol u r then SYMBOL
      else UNKNOWN)"

record frag_state =
  fragTokens :: "token list"
  currentTokenBuffer :: string
  currentTokenType :: tokenType
  fragStart :: int

definition emit_token :: "int \<Rightarrow> frag_state \<Rightarrow> token list" where
  "emit_token globalStartPos st =
     (if currentTokenBuffer st \<noteq> [] \<and> currentTokenType st \<noteq> WHITESPACE
      then fragTokens st @ [\<lparr>TType = currentTokenType st, Value = currentTokenBuffer st,
             startPos = globalStartPos + fragStart st,
             endPos = globalStartPos + fragStart st + int (length (currentTokenBuffer st))\<rparr>]
      else fragTokens st)"

text \<open>One turn of the loop over the runes.\<close>

definition frag_step :: "unicode \<Rightarrow> int \<Rightarrow> frag_state \<Rightarrow> nat \<Rightarrow> frag_state" where
  "frag_step u globalStartPos st r =
     (let rType = getRuneType u r in
      if currentTokenBuffer st = [] then st\<lparr>currentTokenBuffer := enc u r, currentTokenType := rType\<rparr>
      else if rType = currentTokenType st then st\<lparr>currentTokenBuffer := currentTokenBuffer st @ enc u r\<rparr>
      else \<lparr>fragTokens = emit_token globalStartPos st, currentTokenBuffer = enc u r, currentTokenType = rType,
             fragStart = fragStart st + int (length (currentTokenBuffer st))\<rparr>)"

definition fragmentTokenize :: "unicode \<Rightarrow> string \<Rightarrow> int \<Rightarrow> token list" where
  "fragmentTokenize u textFragment globalStartPos =
     emit_token globalStartPos
       (foldl (frag_step u globalStartPos)
          \<lparr>fragTokens = [], currentTokenBuffer = [], currentTokenType = UNKNOWN, fragStart = 0\<rparr>
          (lower_runes u textFragment))"

section \<open>Entities\<close>

text \<open>\<open>input[start:end]\<close>.\<close>

definition str_slice :: "string \<Rightarrow> nat \<Rightarrow> nat \<Rightarrow> string" where
  "str_slice s i j = take (j - i) (drop i s)"

definition potential_tokens :: "entityRule list \<Rightarrow> string \<Rightarrow> token list" where
  "potential_tokens rules input =
     concat (map (\<lambda>rule. map (\<lambda>(s, e).
         \<lparr>TType = TokenType rule, Value = str_slice input s e, startPos = int s, endPos = int e\<rparr>)
       (FindAllStringIndex rule input)) rules)"

definition entity_less :: "token \<Rightarrow> token \<Rightarrow> bool" where
  "entity_less i j =
     (if startPos i \<noteq> startPos j then startPos i < startPos j
      else startPos i - endPos i > startPos j - endPos j)"

text \<open>The greedy choice of matches that do not overlap, in the order of the sorted list.\<close>

fun select_entities :: "int \<Rightarrow> token list \<Rightarrow> token list" where
  "select_entities lastSelectedPos [] = []"
| "select_entities lastSelectedPos (pt # pts) =
     (if startPos pt \<ge> lastSelectedPos then pt # select_entities (endPos pt) pts
      else select_entities lastSelectedPos pts)"

text \<open>The loop over the selected matches and the rest after it.\<close>

fun fill_gaps :: "unicode \<Rightarrow> string \<Rightarrow> int \<Rightarrow> token list \<Rightarrow> token list" where
  "fill_gaps u input currentTextPos [] =
     (if currentTextPos < int (length input)
      then fragmentTokenize u (drop (nat currentTextPos) input) currentTextPos else [])"
| "fill_gaps u input currentTextPos (e # es) =
     (if startPos e > currentTextPos
      then fragmentTokenize u (str_slice input (nat currentTextPos) (nat (startPos e))) currentTextPos else []) @
     e # fill_gaps u input (endPos e) es"

definition entityTokenize :: "unicode \<Rightarrow> entityRule list \<Rightarrow> string \<Rightarrow> token list" where
  "entityTokenize u rules input =
     fill_gaps u input 0 (select_entities (-1) (stable_sort entity_less (potential_tokens rules input)))"

section \<open>Runs, as a reference\<close>

text \<open>Cut the runes into maximal runs of one class; every run that is not white space is a token.\<close>

function rune_runs :: "unicode \<Rightarrow> nat list \<Rightarrow> nat list list" where
  "rune_runs u [] = []"
| "rune_runs u (r # rs) =
     (r # takeWhile (\<lambda>x. getRuneType u x = getRuneType u r) rs) #
     rune_runs u (dropWhile (\<lambda>x. getRuneType u x = getRuneType u r) rs)"
  by pat_completeness auto
termination
  by (relation "measure (\<lambda>(u, rs). length rs)") (auto simp: le_imp_less_Suc length_dropWhile_le)

definition text_of :: "unicode \<Rightarrow> nat list \<Rightarrow> string" where
  "text_of u rs = concat (map (enc u) rs)"

fun run_tokens :: "unicode \<Rightarrow> int \<Rightarrow> nat list list \<Rightarrow> token list" where
  "run_tokens u p [] = []"
| "run_tokens u p (rs # rss) =
     (let v = text_of u rs; t = getRuneType u (hd rs) in
      (if t = WHITESPACE then [] else [\<lparr>TType = t, Value = v, startPos = p, endPos = p + int (length v)\<rparr>]) @
      run_tokens u (p + int (length v)) rss)"

lemma text_of_simps [simp]: "text_of u [] = []" "text_of u (r # rs) = enc u r @ text_of u rs"
  "text_of u (rs @ rs') = text_of u rs @ text_of u rs'"
  by (simp_all add: text_of_def)

lemma rune_runs_Cons:
  "rune_runs u (r # rs) = (case rune_runs u rs of
     [] \<Rightarrow> [[r]]
   | run # runs \<Rightarrow> if getRuneType u (hd run) = getRuneType u r then (r # run) # runs else [r] # run # runs)"
proof (cases rs)
  case (Cons s ss)
  then show ?thesis by (cases "getRuneType u s = getRuneType u r") auto
qed simp

lemma emit_fold:
  assumes laws: "unicode_laws u" and run: "run \<noteq> []" "\<forall>r \<in> set run. getRuneType u r = t"
  shows "emit_token g (foldl (frag_step u g) \<lparr>fragTokens = ts, currentTokenBuffer = text_of u run, currentTokenType = t, fragStart = p\<rparr> rs)
    = ts @ (case rune_runs u rs of
        [] \<Rightarrow> run_tokens u (g + p) [run]
      | run' # runs \<Rightarrow> if getRuneType u (hd run') = t then run_tokens u (g + p) ((run @ run') # runs)
          else run_tokens u (g + p) (run # run' # runs))"
  using run
proof (induction rs arbitrary: ts run t p)
  case Nil
  have "text_of u run \<noteq> []" using laws Nil by (cases run) (simp_all add: unicode_laws_def)
  moreover have "getRuneType u (hd run) = t" using Nil by (cases run) simp_all
  ultimately show ?case by (simp add: emit_token_def Let_def)
next
  case (Cons r rs)
  have ne: "text_of u run \<noteq> []" using laws Cons.prems by (cases run) (simp_all add: unicode_laws_def)
  have hd: "getRuneType u (hd run) = t" "hd (run @ xs) = hd run" for xs using Cons.prems by (cases run; simp)+
  show ?case
  proof (cases "getRuneType u r = t")
    case True
    have step: "frag_step u g \<lparr>fragTokens = ts, currentTokenBuffer = text_of u run, currentTokenType = t, fragStart = p\<rparr> r =
      \<lparr>fragTokens = ts, currentTokenBuffer = text_of u (run @ [r]), currentTokenType = t, fragStart = p\<rparr>"
      using True ne by (simp add: frag_step_def Let_def)
    show ?thesis
      using Cons.IH [of "run @ [r]" t ts p] True Cons.prems hd
      by (cases "rune_runs u rs") (auto simp: step rune_runs_Cons Let_def simp del: rune_runs.simps)
  next
    case False
    have step: "frag_step u g \<lparr>fragTokens = ts, currentTokenBuffer = text_of u run, currentTokenType = t, fragStart = p\<rparr> r =
      \<lparr>fragTokens = ts @ run_tokens u (g + p) [run], currentTokenBuffer = text_of u [r], currentTokenType = getRuneType u r,
       fragStart = p + int (length (text_of u run))\<rparr>"
      using False ne hd by (simp add: frag_step_def emit_token_def Let_def)
    show ?thesis
      using Cons.IH [of "[r]" "getRuneType u r" "ts @ run_tokens u (g + p) [run]" "p + int (length (text_of u run))"] False hd
      by (cases "rune_runs u rs") (auto simp: step rune_runs_Cons Let_def add.assoc simp del: rune_runs.simps)
  qed
qed

lemma fragmentTokenize_runs:
  assumes "unicode_laws u"
  shows "fragmentTokenize u s g = run_tokens u g (rune_runs u (lower_runes u s))"
proof (cases "lower_runes u s")
  case (Cons r rs)
  have "frag_step u g \<lparr>fragTokens = [], currentTokenBuffer = [], currentTokenType = UNKNOWN, fragStart = 0\<rparr> r =
    \<lparr>fragTokens = [], currentTokenBuffer = text_of u [r], currentTokenType = getRuneType u r, fragStart = 0\<rparr>"
    by (simp add: frag_step_def Let_def)
  then show ?thesis using emit_fold [OF assms, of "[r]" "getRuneType u r" g "[]" 0 rs] Cons
    by (cases "rune_runs u rs") (auto simp: fragmentTokenize_def rune_runs_Cons simp del: rune_runs.simps)
qed (simp add: fragmentTokenize_def emit_token_def)


lemma rune_runs_classes: "run \<in> set (rune_runs u rs) \<Longrightarrow> run \<noteq> [] \<and> (\<exists>t. \<forall>r \<in> set run. getRuneType u r = t)"
proof (induction u rs rule: rune_runs.induct)
  case (2 u r rs)
  show ?case
  proof (cases "run = r # takeWhile (\<lambda>x. getRuneType u x = getRuneType u r) rs")
    case True
    then show ?thesis by (intro conjI exI [of _ "getRuneType u r"]) (auto dest: set_takeWhileD)
  next
    case False
    then show ?thesis using 2 by simp
  qed
qed simp

lemma rune_runs_concat: "concat (rune_runs u rs) = rs"
  by (induction u rs rule: rune_runs.induct) simp_all

lemma run_tokens_from: "t \<in> set (run_tokens u p rss) \<Longrightarrow> \<exists>rs \<in> set rss. TType t = getRuneType u (hd rs) \<and> TType t \<noteq> WHITESPACE \<and> Value t = text_of u rs"
  by (induction rss arbitrary: p) (auto simp: Let_def split: if_splits)

section \<open>Entities and gaps tile the input\<close>

datatype piece = Gap string | Ent token

fun piece_text :: "piece \<Rightarrow> string" where
  "piece_text (Gap s) = s"
| "piece_text (Ent t) = Value t"

text \<open>The tokens of a text cut into pieces, with the byte positions they must have.\<close>

fun tile_tokens :: "unicode \<Rightarrow> int \<Rightarrow> piece list \<Rightarrow> token list" where
  "tile_tokens u p [] = []"
| "tile_tokens u p (Gap s # ps) =
     run_tokens u p (rune_runs u (lower_runes u s)) @ tile_tokens u (p + int (length s)) ps"
| "tile_tokens u p (Ent t # ps) =
     t\<lparr>startPos := p, endPos := p + int (length (Value t))\<rparr> # tile_tokens u (p + int (length (Value t))) ps"

text \<open>Documented behaviour of \<open>FindAllStringIndex\<close>: offsets are in range and in order.\<close>

definition regex_law :: "entityRule \<Rightarrow> bool" where
  "regex_law rule \<longleftrightarrow> (\<forall>input. \<forall>(s, e) \<in> set (FindAllStringIndex rule input). s \<le> e \<and> e \<le> length input)"

definition match_of :: "string \<Rightarrow> token \<Rightarrow> bool" where
  "match_of input t \<longleftrightarrow> 0 \<le> startPos t \<and> startPos t \<le> endPos t \<and> endPos t \<le> int (length input) \<and>
     Value t = str_slice input (nat (startPos t)) (nat (endPos t))"

fun chained :: "int \<Rightarrow> token list \<Rightarrow> bool" where
  "chained p [] = True"
| "chained p (e # es) \<longleftrightarrow> p \<le> startPos e \<and> chained (endPos e) es"

lemma potential_match: "\<forall>rule \<in> set rules. regex_law rule \<Longrightarrow> t \<in> set (potential_tokens rules input) \<Longrightarrow> match_of input t"
  by (fastforce simp: potential_tokens_def match_of_def regex_law_def)

lemma select_subset: "set (select_entities p pts) \<subseteq> set pts"
  by (induction p pts rule: select_entities.induct) auto

lemma select_chained: "chained p (select_entities p pts)"
  by (induction p pts rule: select_entities.induct) auto

lemma chained_start: "chained p es \<Longrightarrow> q \<le> p \<Longrightarrow> chained q es"
  by (cases es) auto

lemma select_maximal:
  "sorted_wrt (\<lambda>x y. startPos x \<le> startPos y) pts \<Longrightarrow> t \<in> set pts \<Longrightarrow>
   t \<in> set (select_entities p pts) \<or> startPos t < p \<or> (\<exists>e \<in> set (select_entities p pts). startPos e \<le> startPos t \<and> startPos t < endPos e)"
proof (induction p pts rule: select_entities.induct)
  case (2 p pt pts)
  then show ?case by (auto split: if_splits)
qed simp

lemma entity_order: "strict_weak_on A entity_less"
proof (rule strict_weak_lex [where f = startPos and g = "\<lambda>i j. startPos i - endPos i > startPos j - endPos j"])
  show "strict_weak_on A (\<lambda>i j. startPos i - endPos i > startPos j - endPos j)"
    by (rule strict_weak_key [where f = "\<lambda>t. endPos t - startPos t"]) auto
qed (auto simp: entity_less_def)

lemma sorted_starts: "sorted_wrt (\<lambda>x y. startPos x \<le> startPos y) (stable_sort entity_less ts)"
  using stable.sorted_srt [OF entity_order, of ts]
  by (auto simp: sorted_by_def entity_less_def elim!: sorted_wrt_mono_rel [rotated] split: if_splits)

lemma slice_parts: "p \<le> i \<Longrightarrow> i \<le> j \<Longrightarrow> j \<le> length s \<Longrightarrow> str_slice s p i @ str_slice s i j @ drop j s = drop p s"
proof -
  assume a: "p \<le> i" "i \<le> j" "j \<le> length s"
  have "take (i - p) (drop p s) @ drop (i - p) (drop p s) = drop p s" by (rule append_take_drop_id)
  moreover have "take (j - i) (drop i s) @ drop (j - i) (drop i s) = drop i s" by (rule append_take_drop_id)
  ultimately show ?thesis using a by (simp add: str_slice_def)
qed

lemma length_slice [simp]: "j \<le> length s \<Longrightarrow> length (str_slice s i j) = j - i"
  by (simp add: str_slice_def)

lemma fill_gaps_tiles:
  assumes laws: "unicode_laws u"
  shows "chained p es \<Longrightarrow> 0 \<le> p \<Longrightarrow> p \<le> int (length input) \<Longrightarrow> \<forall>e \<in> set es. match_of input e \<Longrightarrow>
    \<exists>ps. fill_gaps u input p es = tile_tokens u p ps \<and> concat (map piece_text ps) = drop (nat p) input \<and> {t. Ent t \<in> set ps} = set es"
proof (induction es arbitrary: p)
  case Nil
  show ?case
  proof (cases "p < int (length input)")
    case True
    then show ?thesis
      by (intro exI [of _ "[Gap (drop (nat p) input)]"]) (simp add: fragmentTokenize_runs [OF laws])
  next
    case False
    then show ?thesis by (intro exI [of _ "[]"]) simp
  qed
next
  case (Cons e es)
  let ?s = "nat (startPos e)" and ?e = "nat (endPos e)"
  have e: "p \<le> startPos e" "startPos e \<le> endPos e" "endPos e \<le> int (length input)" "Value e = str_slice input ?s ?e"
    using Cons.prems by (auto simp: match_of_def)
  obtain ps where ps: "fill_gaps u input (endPos e) es = tile_tokens u (endPos e) ps"
    "concat (map piece_text ps) = drop ?e input" "{t. Ent t \<in> set ps} = set es"
    using Cons.IH [of "endPos e"] Cons.prems e by auto
  have len: "length (Value e) = ?e - ?s" using e by simp
  have same: "e\<lparr>startPos := startPos e, endPos := startPos e + int (length (Value e))\<rparr> = e"
    using e len Cons.prems(2) by (cases e) simp
  have next_pos: "startPos e + int (length (Value e)) = endPos e" using e len Cons.prems(2) by simp
  have parts: "str_slice input (nat p) ?s @ Value e @ drop ?e input = drop (nat p) input"
    unfolding e(4) by (rule slice_parts) (use e Cons.prems(2) in auto)
  show ?case
  proof (cases "startPos e > p")
    case True
    let ?g = "str_slice input (nat p) ?s"
    have "p + int (length ?g) = startPos e" using True e Cons.prems(2) by simp
    then have "fill_gaps u input p (e # es) = tile_tokens u p (Gap ?g # Ent e # ps)"
      using True ps(1) same next_pos by (simp add: fragmentTokenize_runs [OF laws])
    moreover have "concat (map piece_text (Gap ?g # Ent e # ps)) = drop (nat p) input" using parts ps(2) by simp
    moreover have "{t. Ent t \<in> set (Gap ?g # Ent e # ps)} = set (e # es)" using ps(3) by auto
    ultimately show ?thesis by blast
  next
    case False
    then have p: "p = startPos e" using e by simp
    then have "fill_gaps u input p (e # es) = tile_tokens u p (Ent e # ps)"
      using ps(1) same next_pos by simp
    moreover have "concat (map piece_text (Ent e # ps)) = drop (nat p) input"
      using parts ps(2) p by (simp add: str_slice_def)
    moreover have "{t. Ent t \<in> set (Ent e # ps)} = set (e # es)" using ps(3) by auto
    ultimately show ?thesis by blast
  qed
qed

lemma entities_tile:
  assumes "unicode_laws u" "\<forall>rule \<in> set rules. regex_law rule"
  shows "\<exists>ps. entityTokenize u rules input = tile_tokens u 0 ps \<and> concat (map piece_text ps) = input \<and>
    {t. Ent t \<in> set ps} \<subseteq> set (potential_tokens rules input) \<and>
    {t. Ent t \<in> set ps} = set (select_entities (-1) (stable_sort entity_less (potential_tokens rules input)))"
proof -
  let ?pts = "stable_sort entity_less (potential_tokens rules input)"
  let ?es = "select_entities (-1) ?pts"
  have match: "\<forall>t \<in> set (potential_tokens rules input). match_of input t" using potential_match [OF assms(2)] by blast
  have sub: "set ?es \<subseteq> set (potential_tokens rules input)" using select_subset [of "-1" ?pts] by simp
  have "\<forall>e \<in> set ?es. 0 \<le> startPos e" using match sub by (auto simp: match_of_def)
  then have "chained 0 ?es" using select_chained [of "-1" ?pts] by (cases ?es) auto
  then obtain ps where "entityTokenize u rules input = tile_tokens u 0 ps" "concat (map piece_text ps) = input"
    "{t. Ent t \<in> set ps} = set ?es"
    using fill_gaps_tiles [OF assms(1), of 0 ?es input] match sub unfolding entityTokenize_def by auto
  then show ?thesis using sub by blast
qed

section \<open>Properties\<close>

text \<open>
  C19: the tokens tile the text: the input is cut, without loss, into entity matches and the gaps between
  them; a gap is cut into its maximal runs of one rune class, every run but white space being a token;
  every token has its byte position; and every match of a rule is an entity or starts inside one.
\<close>

theorem tokens_tile_text:
  assumes "unicode_laws u" "\<forall>rule \<in> set rules. regex_law rule"
  shows "\<exists>ps. entityTokenize u rules input = tile_tokens u 0 ps \<and> concat (map piece_text ps) = input \<and>
    {t. Ent t \<in> set ps} \<subseteq> set (potential_tokens rules input) \<and>
    (\<forall>t \<in> set (potential_tokens rules input). Ent t \<in> set ps \<or> (\<exists>e. Ent e \<in> set ps \<and> startPos e \<le> startPos t \<and> startPos t < endPos e))"
proof -
  obtain ps where ps: "entityTokenize u rules input = tile_tokens u 0 ps" "concat (map piece_text ps) = input"
    "{t. Ent t \<in> set ps} \<subseteq> set (potential_tokens rules input)"
    "{t. Ent t \<in> set ps} = set (select_entities (-1) (stable_sort entity_less (potential_tokens rules input)))"
    using entities_tile [OF assms] by blast
  have "Ent t \<in> set ps \<or> (\<exists>e. Ent e \<in> set ps \<and> startPos e \<le> startPos t \<and> startPos t < endPos e)"
    if t: "t \<in> set (potential_tokens rules input)" for t
    using select_maximal [OF sorted_starts, of t "potential_tokens rules input" "-1"] t ps(4) potential_match [OF assms(2) t]
    by (auto simp: match_of_def)
  then show ?thesis using ps by blast
qed

definition demo_rule :: entityRule where
  "demo_rule = \<lparr>FindAllStringIndex = (\<lambda>s. if s = ''go to 1.2.3.4 now'' then [(6, 13)] else []), TokenType = IP_V4_ADDR\<rparr>"

lemma demo_rule_law: "regex_law demo_rule"
  by (simp add: regex_law_def demo_rule_def)

theorem tokens_tile_text_witness:
  "\<exists>ps. entityTokenize ascii [demo_rule] ''go to 1.2.3.4 now'' = tile_tokens ascii 0 ps \<and>
     concat (map piece_text ps) = ''go to 1.2.3.4 now'' \<and> map Value (entityTokenize ascii [demo_rule] ''go to 1.2.3.4 now'') = [''go'', ''to'', ''1.2.3.4'', ''now'']"
proof -
  have "map Value (entityTokenize ascii [demo_rule] ''go to 1.2.3.4 now'') = [''go'', ''to'', ''1.2.3.4'', ''now'']"
    by code_simp
  then show ?thesis using tokens_tile_text [OF ascii_laws, of "[demo_rule]" "''go to 1.2.3.4 now''"] demo_rule_law by auto
qed

end
