(* ===== verification/Stemmer.thy ===== *)
theory Stemmer
  imports Tokenizer
begin

text \<open>
  The stemmer (\<open>textHandling/stemmer.go\<close>): stop words, the five rule maps, and \<open>TokenizeAndStem\<close>.
  A Go map is iterated in an unspecified order; a list of entries stands for a map together with the order
  of one iteration, and two lists with the same entries for two iterations of one map.
\<close>

section \<open>Tables\<close>

record EnglishStemmer =
  rules1a :: "(string \<times> string) list"
  rules1b :: "(string \<times> string) list"
  rules2 :: "(string \<times> string) list"
  rules3 :: "(string \<times> string) list"
  rules4 :: "(string \<times> string) list"
  stopWords :: "string set"
  tokRules :: "entityRule list"

definition englishStops :: "string list" where
  "englishStops =
    [''a'', ''an'', ''and'', ''are'', ''as'', ''at'', ''be'', ''by'', ''for'', ''from'', ''has'',
     ''he'', ''in'', ''is'', ''it'', ''its'', ''of'', ''on'', ''that'', ''the'', ''to'', ''was'',
     ''were'', ''will'', ''with'', ''the'', ''this'', ''but'', ''they'', ''have'', ''had'', ''what'',
     ''when'', ''where'', ''who'', ''which'', ''why'', ''how'', ''all'', ''any'', ''both'', ''each'',
     ''few'', ''more'', ''most'', ''other'', ''some'', ''such'', ''no'', ''nor'', ''not'', ''only'',
     ''own'', ''same'', ''so'', ''than'', ''too'', ''very'']"

definition step1aRules :: "(string \<times> string) list" where
  "step1aRules =
    [(''sses'', ''ss''), (''ies'', ''i''), (''ss'', ''ss''), (''s'', [])]"

definition step1bRules :: "(string \<times> string) list" where
  "step1bRules =
    [(''eed'', ''ee''), (''ed'', []), (''ing'', [])]"

definition step2Rules :: "(string \<times> string) list" where
  "step2Rules =
    [(''ational'', ''ate''), (''tional'', ''tion''), (''enci'', ''ence''), (''anci'', ''ance''),
     (''izer'', ''ize''), (''abli'', ''able''), (''alli'', ''al''), (''entli'', ''ent''),
     (''eli'', ''e''), (''ousli'', ''ous''), (''ization'', ''ize''), (''ation'', ''ate''),
     (''ator'', ''ate''), (''alism'', ''al''), (''iveness'', ''ive''), (''fulness'', ''ful''),
     (''ousness'', ''ous''), (''aliti'', ''al''), (''iviti'', ''ive''), (''biliti'', ''ble'')]"

definition step3Rules :: "(string \<times> string) list" where
  "step3Rules =
    [(''icate'', ''ic''), (''ative'', []), (''alize'', ''al''), (''iciti'', ''ic''), (''ical'', ''ic''),
     (''ful'', []), (''ness'', [])]"

definition step4Rules :: "(string \<times> string) list" where
  "step4Rules =
    [(''al'', []), (''ance'', []), (''ence'', []), (''er'', []), (''ic'', []), (''able'', []),
     (''ible'', []), (''ant'', []), (''ement'', []), (''ment'', []), (''ent'', []), (''ion'', []),
     (''ou'', []), (''ism'', []), (''ate'', []), (''iti'', []), (''ous'', []), (''ive'', []),
     (''ize'', [])]"

text \<open>\<open>newTokenizer\<close> lists the three regular expressions, whose matchers are parameters.\<close>

definition newTokenizer :: "(string \<Rightarrow> (nat \<times> nat) list) \<Rightarrow> (string \<Rightarrow> (nat \<times> nat) list) \<Rightarrow> (string \<Rightarrow> (nat \<times> nat) list) \<Rightarrow> entityRule list" where
  "newTokenizer email ipv4 url =
     [\<lparr>FindAllStringIndex = email, TokenType = EMAIL_ADDR\<rparr>,
      \<lparr>FindAllStringIndex = ipv4, TokenType = IP_V4_ADDR\<rparr>,
      \<lparr>FindAllStringIndex = url, TokenType = URL_ADDR\<rparr>]"

definition NewEnglishStemmer :: "entityRule list \<Rightarrow> EnglishStemmer" where
  "NewEnglishStemmer tok =
     \<lparr>rules1a = step1aRules, rules1b = step1bRules, rules2 = step2Rules, rules3 = step3Rules, rules4 = step4Rules,
      stopWords = set englishStops, tokRules = tok\<rparr>"

text \<open>The same stemmer, its maps iterated in another order.\<close>

definition iterates :: "EnglishStemmer \<Rightarrow> EnglishStemmer \<Rightarrow> bool" where
  "iterates s s' \<longleftrightarrow>
     mset (rules1a s') = mset (rules1a s) \<and> mset (rules1b s') = mset (rules1b s) \<and> mset (rules2 s') = mset (rules2 s) \<and>
     mset (rules3 s') = mset (rules3 s) \<and> mset (rules4 s') = mset (rules4 s) \<and>
     stopWords s' = stopWords s \<and> tokRules s' = tokRules s"

section \<open>Stemming\<close>

definition isStopWord :: "EnglishStemmer \<Rightarrow> string \<Rightarrow> bool" where
  "isStopWord s word \<longleftrightarrow> to_lower word \<in> stopWords s"

definition isVowel :: "char \<Rightarrow> bool" where
  "isVowel c \<longleftrightarrow> c \<in> set ''aeiou''"

definition measure_step :: "nat \<times> bool \<Rightarrow> char \<Rightarrow> nat \<times> bool" where
  "measure_step st c = (let (m, hasVowel) = st in
     if isVowel c then (m, True) else if hasVowel then (m + 1, False) else (m, hasVowel))"

definition word_measure :: "string \<Rightarrow> int" where
  "word_measure word = int (fst (foldl measure_step (0, False) word))"

text \<open>\<open>strings.TrimSuffix\<close>.\<close>

definition trim_suffix :: "string \<Rightarrow> string \<Rightarrow> string" where
  "trim_suffix s p = (if has_suffix s p then take (length s - length p) s else s)"

fun trimRuleSuffix :: "string \<Rightarrow> (string \<times> string) list \<Rightarrow> int \<Rightarrow> string" where
  "trimRuleSuffix word [] treshold = word"
| "trimRuleSuffix word ((sfx, replacement) # rule) treshold =
     (if has_suffix word sfx \<and> word_measure (trim_suffix word sfx) > treshold
      then trim_suffix word sfx @ replacement
      else trimRuleSuffix word rule treshold)"

definition stem :: "EnglishStemmer \<Rightarrow> string \<Rightarrow> string" where
  "stem s word =
     (if isStopWord s word then []
      else if length word \<le> 2 then word
      else
        let w1 = trimRuleSuffix word (rules1a s) (-1);
            w2 = trimRuleSuffix w1 (rules1b s) 0;
            w3 = trimRuleSuffix w2 (rules2 s) 0;
            w4 = trimRuleSuffix w3 (rules3 s) 0
        in trimRuleSuffix w4 (rules4 s) 1)"

text \<open>A stemmed word loses its positions: the struct literal leaves them zero.\<close>

fun stem_tokens :: "EnglishStemmer \<Rightarrow> token list \<Rightarrow> string list \<times> token list" where
  "stem_tokens s [] = ([], [])"
| "stem_tokens s (t # ts) =
     (let (wordTokens, stemmedTokens) = stem_tokens s ts in
      if TType t = WORD \<and> length (Value t) > 0 then
        (let stemmed = stem s (Value t) in
         if stemmed \<noteq> [] then (Value t # wordTokens, \<lparr>TType = WORD, Value = stemmed, startPos = 0, endPos = 0\<rparr> # stemmedTokens)
         else (wordTokens, stemmedTokens))
      else if TType t \<noteq> UNKNOWN \<and> TType t \<noteq> WHITESPACE then (wordTokens, t # stemmedTokens)
      else (wordTokens, stemmedTokens))"

definition TokenizeAndStem :: "unicode \<Rightarrow> EnglishStemmer \<Rightarrow> string \<Rightarrow> string list \<times> token list" where
  "TokenizeAndStem u s txt = stem_tokens s (entityTokenize u (tokRules s) txt)"

section \<open>Lemmas\<close>

lemma measure_append: "fst (foldl measure_step st a) \<le> fst (foldl measure_step st (a @ b))"
proof -
  have "fst st \<le> fst (foldl measure_step st b)" for st :: "nat \<times> bool" and b
  proof (induction b arbitrary: st)
    case (Cons c b)
    have "fst st \<le> fst (measure_step st c)" by (simp add: measure_step_def split: prod.splits)
    then show ?case using Cons [of "measure_step st c"] by simp
  qed simp
  then show ?thesis by simp
qed

lemma trim_suffix_parts: "has_suffix w p \<Longrightarrow> w = trim_suffix w p @ p"
  by (metis append_take_drop_id has_suffix_def trim_suffix_def)

lemma trimRuleSuffix_cases:
  "trimRuleSuffix w rs n = w \<or> (\<exists>p r. (p, r) \<in> set rs \<and> has_suffix w p \<and> word_measure (trim_suffix w p) > n \<and> trimRuleSuffix w rs n = trim_suffix w p @ r)"
proof (induction w rs n rule: trimRuleSuffix.induct)
  case (2 w p r rs n)
  then show ?case by (cases "has_suffix w p \<and> word_measure (trim_suffix w p) > n") auto
qed simp

text \<open>What the rule maps have in common: replacements are lower case and no longer than the suffix.\<close>

definition rules_ok :: "(string \<times> string) list \<Rightarrow> bool" where
  "rules_ok rs \<longleftrightarrow> (\<forall>(p, r) \<in> set rs. length r \<le> length p \<and> lower_word r)"

lemma trimRuleSuffix_shrinks:
  assumes "rules_ok rs"
  shows "length (trimRuleSuffix w rs n) \<le> length w" "lower_word w \<Longrightarrow> lower_word (trimRuleSuffix w rs n)"
proof -
  consider "trimRuleSuffix w rs n = w"
    | p r where "(p, r) \<in> set rs" "has_suffix w p" "trimRuleSuffix w rs n = trim_suffix w p @ r"
    using trimRuleSuffix_cases [of w rs n] by blast
  then have "length (trimRuleSuffix w rs n) \<le> length w \<and> (lower_word w \<longrightarrow> lower_word (trimRuleSuffix w rs n))"
  proof cases
    case 2
    obtain v where v: "w = v @ p" "trimRuleSuffix w rs n = v @ r" using trim_suffix_parts [OF 2(2)] 2(3) by metis
    then show ?thesis using assms 2(1) by (auto simp: rules_ok_def lower_word_def)
  qed simp
  then show "length (trimRuleSuffix w rs n) \<le> length w" "lower_word w \<Longrightarrow> lower_word (trimRuleSuffix w rs n)" by auto
qed

lemma trimRuleSuffix_ne: "0 \<le> n \<Longrightarrow> w \<noteq> [] \<Longrightarrow> trimRuleSuffix w rs n \<noteq> []"
  using trimRuleSuffix_cases [of w rs n] by (auto simp: word_measure_def)

lemma step1a_ne:
  assumes "mset rs = mset step1aRules" "2 < length w"
  shows "trimRuleSuffix w rs n \<noteq> []"
proof (cases "trimRuleSuffix w rs n = w")
  case False
  then obtain p r where pr: "(p, r) \<in> set rs" "has_suffix w p" "trimRuleSuffix w rs n = trim_suffix w p @ r"
    using trimRuleSuffix_cases [of w rs n] by blast
  have "set rs = set step1aRules" using assms(1) by (metis set_mset_mset)
  then have "r = [] \<Longrightarrow> length p = 1" using pr(1) by (auto simp: step1aRules_def)
  then show ?thesis using pr(2,3) assms(2) by (auto simp: trim_suffix_def)
qed (use assms in auto)

lemma tables_ok:
  "rules_ok step1aRules" "rules_ok step1bRules" "rules_ok step2Rules" "rules_ok step3Rules" "rules_ok step4Rules"
  by code_simp+

lemma rules_ok_mset:
  assumes "mset rs = mset rs'" "rules_ok rs'"
  shows "rules_ok rs"
proof -
  have "set rs = set rs'" using assms(1) by (rule mset_eq_setD)
  then show ?thesis using assms(2) unfolding rules_ok_def by blast
qed

lemma stem_facts:
  assumes "iterates (NewEnglishStemmer tok) s"
  shows "length (stem s w) \<le> length w" "lower_word w \<Longrightarrow> lower_word (stem s w)" "w \<noteq> [] \<Longrightarrow> stem s w = [] \<longleftrightarrow> isStopWord s w"
proof -
  have m: "mset (rules1a s) = mset step1aRules" "mset (rules1b s) = mset step1bRules" "mset (rules2 s) = mset step2Rules"
    "mset (rules3 s) = mset step3Rules" "mset (rules4 s) = mset step4Rules"
    using assms by (simp_all add: iterates_def NewEnglishStemmer_def)
  have ok: "rules_ok (rules1a s)" "rules_ok (rules1b s)" "rules_ok (rules2 s)" "rules_ok (rules3 s)" "rules_ok (rules4 s)"
    using rules_ok_mset [OF m(1) tables_ok(1)] rules_ok_mset [OF m(2) tables_ok(2)] rules_ok_mset [OF m(3) tables_ok(3)]
      rules_ok_mset [OF m(4) tables_ok(4)] rules_ok_mset [OF m(5) tables_ok(5)] by simp_all
  show "length (stem s w) \<le> length w"
    using trimRuleSuffix_shrinks(1) [OF ok(1)] trimRuleSuffix_shrinks(1) [OF ok(2)] trimRuleSuffix_shrinks(1) [OF ok(3)]
      trimRuleSuffix_shrinks(1) [OF ok(4)] trimRuleSuffix_shrinks(1) [OF ok(5)]
    by (simp add: stem_def Let_def) (meson le_trans)
  show "lower_word (stem s w)" if "lower_word w"
    using trimRuleSuffix_shrinks(2) ok that by (simp add: stem_def Let_def lower_word_def [of "[]"])
  show "stem s w = [] \<longleftrightarrow> isStopWord s w" if "w \<noteq> []"
    using trimRuleSuffix_ne step1a_ne [OF m(1)] that by (simp add: stem_def Let_def)
qed

lemma lower_text:
  assumes "unicode_laws u" "\<forall>r \<in> set rs. getRuneType u r = WORD"
  shows "lower_word (text_of u rs)"
  using assms(2)
proof (induction rs)
  case (Cons r rs)
  have "97 \<le> r" "r \<le> 122" using Cons.prems by (auto simp: getRuneType_def split: if_splits)
  moreover from this have "enc u r = [char_of r]" using assms(1) by (simp add: unicode_laws_def)
  ultimately show ?case using Cons by (simp add: lower_word_def lower_char_def)
qed (simp add: lower_word_def)

lemma run_token_lower:
  assumes "unicode_laws u" "t \<in> set (run_tokens u p (rune_runs u rs))" "TType t = WORD"
  shows "lower_word (Value t)"
proof -
  obtain run where run: "run \<in> set (rune_runs u rs)" "getRuneType u (hd run) = WORD" "Value t = text_of u run"
    using run_tokens_from [OF assms(2)] assms(3) by auto
  then have "\<forall>r \<in> set run. getRuneType u r = WORD" using rune_runs_classes [OF run(1)] by (metis list.set_sel(1))
  then show ?thesis using lower_text [OF assms(1)] run(3) by simp
qed

lemma tile_token_lower:
  "unicode_laws u \<Longrightarrow> t \<in> set (tile_tokens u p ps) \<Longrightarrow> TType t = WORD \<Longrightarrow> \<forall>e. Ent e \<in> set ps \<longrightarrow> TType e \<noteq> WORD \<Longrightarrow> lower_word (Value t)"
  by (induction u p ps rule: tile_tokens.induct) (auto intro: run_token_lower)


lemma stem_tokens_words:
  assumes "\<And>w. w \<noteq> [] \<Longrightarrow> stem s w = [] \<longleftrightarrow> isStopWord s w"
  shows "\<forall>w \<in> set (fst (stem_tokens s ts)). w \<noteq> [] \<and> \<not> isStopWord s w \<and> (\<exists>t \<in> set ts. TType t = WORD \<and> Value t = w)"
  by (induction ts) (auto simp: Let_def assms split: prod.splits)

lemma stem_tokens_align:
  "map Value (filter (\<lambda>t. TType t = WORD) (snd (stem_tokens s ts))) = map (stem s) (fst (stem_tokens s ts)) \<or> (\<exists>t \<in> set ts. TType t = WORD \<and> Value t = [])"
  by (induction ts) (auto simp: Let_def split: prod.splits)

lemma stem_tokens_types:
  "t \<in> set (snd (stem_tokens s ts)) \<Longrightarrow> TType t \<noteq> UNKNOWN \<and> TType t \<noteq> WHITESPACE \<and> (TType t = WORD \<longrightarrow> Value t \<noteq> [] \<or> (\<exists>t \<in> set ts. TType t = WORD \<and> Value t = []))"
  by (induction ts arbitrary: t) (auto simp: Let_def split: prod.splits if_splits)

lemma text_of_ne: "unicode_laws u \<Longrightarrow> rs \<noteq> [] \<Longrightarrow> text_of u rs \<noteq> []"
  by (cases rs) (simp_all add: unicode_laws_def)

lemma tile_token_ne:
  "unicode_laws u \<Longrightarrow> t \<in> set (tile_tokens u p ps) \<Longrightarrow> TType t = WORD \<Longrightarrow> \<forall>e. Ent e \<in> set ps \<longrightarrow> TType e \<noteq> WORD \<Longrightarrow> Value t \<noteq> []"
  by (induction u p ps rule: tile_tokens.induct)
    (auto dest!: run_tokens_from rune_runs_classes simp: text_of_ne)

lemma entityTokenize_words:
  assumes "unicode_laws u" "\<forall>rule \<in> set rules. regex_law rule \<and> TokenType rule \<noteq> WORD"
    and "t \<in> set (entityTokenize u rules txt)" "TType t = WORD"
  shows "lower_word (Value t) \<and> Value t \<noteq> []"
proof -
  have "\<forall>rule \<in> set rules. regex_law rule" using assms(2) by blast
  then obtain ps where ps: "entityTokenize u rules txt = tile_tokens u 0 ps" "{t. Ent t \<in> set ps} \<subseteq> set (potential_tokens rules txt)"
    using entities_tile [OF assms(1)] by blast
  have "\<forall>e \<in> set (potential_tokens rules txt). TType e \<noteq> WORD" using assms(2) by (auto simp: potential_tokens_def)
  then have "\<forall>e. Ent e \<in> set ps \<longrightarrow> TType e \<noteq> WORD" using ps(2) by blast
  then show ?thesis using tile_token_lower tile_token_ne assms(1,3,4) ps(1) by metis
qed

section \<open>Order of iteration\<close>

definition outcomes :: "string \<Rightarrow> (string \<times> string) list \<Rightarrow> int \<Rightarrow> string set" where
  "outcomes w rs n = {trim_suffix w p @ r |p r. (p, r) \<in> set rs \<and> has_suffix w p \<and> word_measure (trim_suffix w p) > n}"

lemma trimRuleSuffix_outcome:
  "trimRuleSuffix w rs n \<in> outcomes w rs n \<or> (outcomes w rs n = {} \<and> trimRuleSuffix w rs n = w)"
proof (induction w rs n rule: trimRuleSuffix.induct)
  case (2 w p r rs n)
  have "outcomes w ((p, r) # rs) n =
      (if has_suffix w p \<and> word_measure (trim_suffix w p) > n then {trim_suffix w p @ r} else {}) \<union> outcomes w rs n"
    by (auto simp: outcomes_def)
  then show ?case using 2 by (cases "has_suffix w p \<and> word_measure (trim_suffix w p) > n") auto
qed (simp add: outcomes_def)

lemma trimRuleSuffix_order:
  assumes "mset rs = mset rs'" "\<forall>x \<in> outcomes w rs n. \<forall>y \<in> outcomes w rs n. x = y"
  shows "trimRuleSuffix w rs' n = trimRuleSuffix w rs n"
proof -
  have "outcomes w rs' n = outcomes w rs n" using mset_eq_setD [OF assms(1)] by (simp add: outcomes_def)
  then show ?thesis using trimRuleSuffix_outcome [of w rs n] trimRuleSuffix_outcome [of w rs' n] assms(2) by auto
qed

text \<open>No step of the stemming of \<open>w\<close> has rules with different outcomes.\<close>

definition unambiguous :: "string \<Rightarrow> (string \<times> string) list \<Rightarrow> int \<Rightarrow> bool" where
  "unambiguous w rs n \<longleftrightarrow>
     list_all (\<lambda>(p, r). list_all (\<lambda>(q, v).
        has_suffix w p \<and> word_measure (trim_suffix w p) > n \<and> has_suffix w q \<and> word_measure (trim_suffix w q) > n \<longrightarrow>
        trim_suffix w p @ r = trim_suffix w q @ v) rs) rs"

definition unambiguous_stem :: "EnglishStemmer \<Rightarrow> string \<Rightarrow> bool" where
  "unambiguous_stem s w \<longleftrightarrow>
     (let w1 = trimRuleSuffix w (rules1a s) (-1); w2 = trimRuleSuffix w1 (rules1b s) 0;
          w3 = trimRuleSuffix w2 (rules2 s) 0; w4 = trimRuleSuffix w3 (rules3 s) 0
      in unambiguous w (rules1a s) (-1) \<and> unambiguous w1 (rules1b s) 0 \<and> unambiguous w2 (rules2 s) 0 \<and>
         unambiguous w3 (rules3 s) 0 \<and> unambiguous w4 (rules4 s) 1)"

lemma unambiguous_outcomes: "unambiguous w rs n \<Longrightarrow> \<forall>x \<in> outcomes w rs n. \<forall>y \<in> outcomes w rs n. x = y"
  unfolding unambiguous_def outcomes_def list_all_iff by fast

section \<open>Properties\<close>


definition no_match :: "string \<Rightarrow> (nat \<times> nat) list" where
  "no_match s = []"


text \<open>
  Where no step of a word's stemming has two rules with different outcomes, the stem does not depend on
  the order in which Go iterates the rule maps.
\<close>

theorem stem_order_irrelevant:
  assumes "iterates s s'" "unambiguous_stem s w"
  shows "stem s' w = stem s w"
proof -
  have step: "trimRuleSuffix v rs' n = trimRuleSuffix v rs n" if "mset rs' = mset rs" "unambiguous v rs n" for v rs rs' n
    using trimRuleSuffix_order [OF that(1) [symmetric] unambiguous_outcomes [OF that(2)]] .
  let ?w1 = "trimRuleSuffix w (rules1a s) (-1)"
  let ?w2 = "trimRuleSuffix ?w1 (rules1b s) 0"
  let ?w3 = "trimRuleSuffix ?w2 (rules2 s) 0"
  let ?w4 = "trimRuleSuffix ?w3 (rules3 s) 0"
  note it = assms(1) [unfolded iterates_def] and un = assms(2) [unfolded unambiguous_stem_def Let_def]
  have "trimRuleSuffix w (rules1a s') (-1) = ?w1" "trimRuleSuffix ?w1 (rules1b s') 0 = ?w2" "trimRuleSuffix ?w2 (rules2 s') 0 = ?w3"
    "trimRuleSuffix ?w3 (rules3 s') 0 = ?w4" "trimRuleSuffix ?w4 (rules4 s') 1 = trimRuleSuffix ?w4 (rules4 s) 1"
    using it un by (auto intro!: step)
  moreover have "isStopWord s' w = isStopWord s w" using it by (simp add: isStopWord_def)
  ultimately show ?thesis by (simp add: stem_def Let_def)
qed

theorem stem_order_irrelevant_witness:
  "stem (NewEnglishStemmer []\<lparr>rules1b := rev step1bRules, rules4 := rev step4Rules\<rparr>) ''jumping'' = ''jump''"
proof -
  let ?s' = "NewEnglishStemmer []\<lparr>rules1b := rev step1bRules, rules4 := rev step4Rules\<rparr>"
  have un: "unambiguous_stem (NewEnglishStemmer []) ''jumping''" and jump: "stem (NewEnglishStemmer []) ''jumping'' = ''jump''"
    by code_simp+
  have "iterates (NewEnglishStemmer []) ?s'" by (simp add: iterates_def NewEnglishStemmer_def)
  from stem_order_irrelevant [OF this un] show ?thesis by (simp only: jump)
qed

text \<open>
  Otherwise it does: \<open>classes\<close> is stemmed to \<open>class\<close> or to \<open>classe\<close>, depending on whether the iteration
  meets \<open>sses\<close> or \<open>s\<close> first, so a word indexed in one way may be looked up in the other.
\<close>

theorem stem_depends_on_map_order:
  "\<exists>s s'. iterates (NewEnglishStemmer tok) s \<and> iterates (NewEnglishStemmer tok) s' \<and>
     stem s ''classes'' = ''class'' \<and> stem s' ''classes'' = ''classe''"
proof -
  let ?s = "NewEnglishStemmer tok" and ?s' = "NewEnglishStemmer tok\<lparr>rules1a := rev step1aRules\<rparr>"
  have "stem ?s ''classes'' = ''class''" "stem ?s' ''classes'' = ''classe''" by code_simp+
  moreover have "iterates ?s ?s" "iterates ?s ?s'" by (simp_all add: iterates_def NewEnglishStemmer_def)
  ultimately show ?thesis by blast
qed

end
