(* ===== verification/EditDistance.thy ===== *)
theory EditDistance
  imports Prelude
begin

text \<open>
  Edit distance, the specification of the spell checker's metric: the least number of single insertions,
  deletions and substitutions that turn one sequence into another, and the recursion \<open>ed\<close> that
  computes it. Nothing here comes from the program.
\<close>

inductive edit1 :: "'a list \<Rightarrow> 'a list \<Rightarrow> bool" where
  insertion: "edit1 (a @ b) (a @ x # b)"
| deletion: "edit1 (a @ x # b) (a @ b)"
| substitution: "edit1 (a @ x # b) (a @ y # b)"

fun ed :: "'a list \<Rightarrow> 'a list \<Rightarrow> nat" where
  "ed [] ys = length ys"
| "ed (x # xs) [] = Suc (length xs)"
| "ed (x # xs) (y # ys) =
     (if x = y then ed xs ys else Suc (min (min (ed xs (y # ys)) (ed (x # xs) ys)) (ed xs ys)))"

lemma ed_Nil2 [simp]: "ed xs [] = length xs"
  by (cases xs) auto

lemma ed_sym: "ed xs ys = ed ys xs"
  by (induction xs ys rule: ed.induct) auto

section \<open>One edit changes the distance by at most one\<close>

lemma ed_cons_bound: "ed b zs \<le> Suc (ed (x # b) zs) \<and> ed (x # b) zs \<le> Suc (ed b zs)"
proof (induction "length b + length zs" arbitrary: x b zs rule: less_induct)
  case less
  show ?case
  proof (cases zs)
    case (Cons z zs')
    have row: "ed b zs' \<le> Suc (ed (x # b) zs')" "ed (x # b) zs' \<le> Suc (ed b zs')"
      using less [of b zs' x] Cons by auto
    have col: "ed b zs' \<le> Suc (ed b (z # zs'))" "ed b (z # zs') \<le> Suc (ed b zs')"
      using less [of zs' b z] Cons by (simp_all add: ed_sym [of b])
    show ?thesis using Cons row col by (auto simp: min_def)
  qed simp
qed

lemma ed_bounds: "ed b zs \<le> Suc (ed (x # b) zs)" "ed (x # b) zs \<le> Suc (ed b zs)"
  using ed_cons_bound [of b zs x] by auto

lemma ed_cons_bound2: "ed b zs \<le> Suc (ed b (z # zs))" "ed b (z # zs) \<le> Suc (ed b zs)"
  using ed_cons_bound [of zs b z] by (simp_all add: ed_sym [of b])

lemma ed_subst_bound: "ed (x # b) zs \<le> Suc (ed (y # b) zs)"
proof (induction zs)
  case (Cons z zs)
  show ?case
    using Cons ed_cons_bound [of b zs x] ed_cons_bound [of b zs y] ed_cons_bound2 [where b = b and zs = zs and z = z] by (auto simp: min_def)
qed simp

lemma ed_prefix_bound:
  assumes "\<And>zs. ed us zs \<le> Suc (ed vs zs)"
  shows "ed (c # us) zs \<le> Suc (ed (c # vs) zs)"
proof (induction zs)
  case Nil
  show ?case using assms [of "[]"] by simp
next
  case (Cons z zs)
  then show ?case using assms [of zs] assms [of "z # zs"] by (auto simp: min_def)
qed

lemma edit1_ed: "edit1 us vs \<Longrightarrow> ed us zs \<le> Suc (ed vs zs)"
proof (induction arbitrary: zs rule: edit1.induct)
  case (insertion a b x)
  show ?case by (induction a arbitrary: zs) (auto intro: ed_prefix_bound ed_bounds)
next
  case (deletion a x b)
  show ?case by (induction a arbitrary: zs) (auto intro: ed_prefix_bound ed_bounds)
next
  case (substitution a x b y)
  show ?case by (induction a arbitrary: zs) (auto intro: ed_prefix_bound ed_subst_bound)
qed

lemma ed_lower: "(edit1 ^^ n) xs ys \<Longrightarrow> ed xs ys \<le> n"
proof (induction n arbitrary: xs)
  case 0
  have "ed ys ys = 0" by (induction ys) auto
  then show ?case using 0 by simp
next
  case (Suc n)
  then obtain us where "edit1 xs us" "(edit1 ^^ n) us ys" by (meson relpowp_Suc_D2)
  then show ?case using Suc.IH edit1_ed [of xs us ys] by fastforce
qed

section \<open>The distance is attained\<close>

lemma edit1_cons: "edit1 us vs \<Longrightarrow> edit1 (c # us) (c # vs)"
  by (induction rule: edit1.induct) (metis append_Cons edit1.intros)+

lemma edits_cons: "(edit1 ^^ n) us vs \<Longrightarrow> (edit1 ^^ n) (c # us) (c # vs)"
proof (induction n arbitrary: us)
  case (Suc n)
  then obtain ws where "edit1 us ws" "(edit1 ^^ n) ws vs" by (meson relpowp_Suc_D2)
  then show ?case using Suc.IH edit1_cons by (meson relpowp_Suc_I2)
qed simp

lemma edit1_heads: "edit1 (x # us) us" "edit1 us (y # us)" "edit1 (x # us) (y # us)"
  using deletion [of "[]" x us] insertion [of "[]" us y] substitution [of "[]" x us y] by auto

lemma edits_step: "edit1 us vs \<Longrightarrow> (edit1 ^^ n) vs ws \<Longrightarrow> (edit1 ^^ Suc n) us ws"
  by (rule relpowp_Suc_I2)

lemma ed_upper: "(edit1 ^^ ed xs ys) xs ys"
proof (induction xs ys rule: ed.induct)
  case (1 ys)
  show ?case
  proof (induction ys)
    case (Cons y ys)
    then show ?case using edits_step [OF edit1_heads(2) edits_cons] by simp
  qed simp
next
  case (2 x xs)
  have "(edit1 ^^ length zs) zs []" for zs :: "'a list"
  proof (induction zs)
    case (Cons z zs)
    then show ?case using edits_step [OF edit1_heads(1)] by (simp del: relpowp.simps)
  qed simp
  from this [of "x # xs"] show ?case by simp
next
  case (3 x xs y ys)
  show ?case
  proof (cases "x = y")
    case False
    consider (del) "ed (x # xs) (y # ys) = Suc (ed xs (y # ys))" | (ins) "ed (x # xs) (y # ys) = Suc (ed (x # xs) ys)"
      | (sub) "ed (x # xs) (y # ys) = Suc (ed xs ys)" by (metis False ed.simps(3) min_def)
    then show ?thesis
    proof cases
      case del
      then show ?thesis using edits_step [OF edit1_heads(1) 3(2) [OF False]] by (simp only:)
    next
      case ins
      then show ?thesis using edits_step [OF edit1_heads(2) edits_cons [OF 3(3) [OF False]]] by (simp only:)
    next
      case sub
      then show ?thesis using edits_step [OF edit1_heads(3) edits_cons [OF 3(4) [OF False]]] by (simp only:)
    qed
  qed (use 3 edits_cons in auto)
qed

text \<open>So \<open>ed\<close> is the least number of edits, and it does not change when both sequences are reversed.\<close>

definition edit_distance :: "'a list \<Rightarrow> 'a list \<Rightarrow> nat" where
  "edit_distance xs ys = (LEAST n. (edit1 ^^ n) xs ys)"

lemma edit_distance_ed: "edit_distance xs ys = ed xs ys"
  unfolding edit_distance_def by (rule Least_equality) (auto intro: ed_upper ed_lower)

lemma edit1_rev: "edit1 us vs \<Longrightarrow> edit1 (rev us) (rev vs)"
proof (induction rule: edit1.induct)
  case (insertion a b x)
  show ?case using edit1.insertion [of "rev b" "rev a" x] by simp
next
  case (deletion a x b)
  show ?case using edit1.deletion [of "rev b" x "rev a"] by simp
next
  case (substitution a x b y)
  show ?case using edit1.substitution [of "rev b" x "rev a" y] by simp
qed

lemma edits_rev: "(edit1 ^^ n) us vs \<Longrightarrow> (edit1 ^^ n) (rev us) (rev vs)"
proof (induction n arbitrary: us)
  case (Suc n)
  then obtain ws where "edit1 us ws" "(edit1 ^^ n) ws vs" by (meson relpowp_Suc_D2)
  then show ?case using Suc.IH edit1_rev by (meson relpowp_Suc_I2)
qed simp

lemma ed_rev: "ed (rev xs) (rev ys) = ed xs ys"
  using ed_lower [OF edits_rev [OF ed_upper [of xs ys]]] ed_lower [OF edits_rev [OF ed_upper [of "rev xs" "rev ys"]]]
  by simp

end
