(* ===== verification/SpellChecker.thy ===== *)
theory SpellChecker
  imports EditDistance
begin

text \<open>
  The spell checker (\<open>indexer/spellChecker/spellChecker.go\<close>): the bounded edit distance over one row of
  the dynamic-programming table, the noisy-channel score and the choice of a replacement. A word is
  its list of runes; scores are real numbers, rounding of \<open>float64\<close> is not modelled.
\<close>

section \<open>levenshteinDistance\<close>

text \<open>The inner loop on \<open>(dp, upLeft, minRow)\<close>, at column \<open>j\<close>.\<close>

definition lev_cell :: "'r \<Rightarrow> 'r list \<Rightarrow> int list \<times> int \<times> int \<Rightarrow> nat \<Rightarrow> int list \<times> int \<times> int" where
  "lev_cell c word2 = (\<lambda>(dp, upLeft, minRow) j.
     let nextUpLeft = dp ! j;
         dp' = dp[j := (if c = word2 ! (j - 1) then upLeft else min (min (dp ! (j - 1)) upLeft) (dp ! j) + 1)]
     in (dp', nextUpLeft, min minRow (dp' ! j)))"

definition lev_row :: "'r \<Rightarrow> 'r list \<Rightarrow> nat \<Rightarrow> int list \<Rightarrow> int list \<times> int \<times> int" where
  "lev_row c word2 i dp =
     foldl (lev_cell c word2) (dp[0 := int i], int i, int i) [1..<length word2 + 1]"

fun lev_rows :: "int \<Rightarrow> 'r list \<Rightarrow> nat \<Rightarrow> 'r list \<Rightarrow> int list \<Rightarrow> int" where
  "lev_rows maxTypo word2 i [] dp = dp ! length word2"
| "lev_rows maxTypo word2 i (c # cs) dp =
     (case lev_row c word2 i dp of (dp', _, minRow) \<Rightarrow>
        if minRow > maxTypo then maxTypo + 1 else lev_rows maxTypo word2 (i + 1) cs dp')"

definition levenshteinDistance :: "'r list \<Rightarrow> 'r list \<Rightarrow> int \<Rightarrow> int" where
  "levenshteinDistance word1 word2 maxTypo =
     (if length word1 = 0 then int (length word2)
      else if length word2 = 0 then int (length word1)
      else lev_rows maxTypo word2 0 word1 (map int [0..<length word2 + 1]))"

section \<open>Scores and replacement\<close>

definition sc_a :: real where "sc_a = 2"
definition sc_b :: real where "sc_b = 3"
definition sc_c :: real where "sc_c = 2"

definition noisyChannelScore :: "int \<Rightarrow> 'r list \<Rightarrow> 'r list \<Rightarrow> real \<Rightarrow> real \<Rightarrow> real \<times> int" where
  "noisyChannelScore maxTypo word1 word2 p1 p2 =
     (let ld = levenshteinDistance word1 word2 maxTypo
      in (sc_c powr (- real_of_int ld) * max (sc_a * p1 + sc_b * p2) 0.00001, ld))"

definition MaxFloat32 :: real where
  "MaxFloat32 = (2 - 1 / 2 ^ 23) * 2 ^ 127"

text \<open>The first loop: the best candidate so far and its score.\<close>

definition pick_candidate :: "int \<Rightarrow> 'r list \<Rightarrow> 'r list list \<Rightarrow> (real \<times> real) list \<Rightarrow> 'r list \<times> real" where
  "pick_candidate maxTypo orig candidates scores =
     foldl (\<lambda>(best, bscore) i.
         let (score, distance) = noisyChannelScore maxTypo orig (candidates ! i) (fst (scores ! i)) (snd (scores ! i))
         in if score > bscore \<and> distance < maxTypo then (candidates ! i, score) else (best, bscore))
       (candidates ! 0, - MaxFloat32) [0..<length candidates]"

text \<open>\<open>set[candidate] = i\<close> keeps the last index of a candidate.\<close>

definition last_index :: "'r list list \<Rightarrow> 'r list \<Rightarrow> nat option" where
  "last_index candidates = foldl (\<lambda>m i. m(candidates ! i \<mapsto> i)) Map.empty [0..<length candidates]"

text \<open>The second loop: the best way to split the word into two candidates.\<close>

definition split_score :: "'r list list \<Rightarrow> (real \<times> real) list \<Rightarrow> 'r list \<Rightarrow> nat \<Rightarrow> real option" where
  "split_score candidates scores orig i =
     (case (last_index candidates (take i orig), last_index candidates (drop i orig)) of
        (Some k, Some l) \<Rightarrow> Some (ln (max (sc_a * fst (scores ! k) + sc_b * snd (scores ! l)) 0.00001))
      | _ \<Rightarrow> None)"

definition pick_split :: "'r list list \<Rightarrow> (real \<times> real) list \<Rightarrow> 'r list \<Rightarrow> 'r list list \<times> real" where
  "pick_split candidates scores orig =
     foldl (\<lambda>(repl, bscore) i.
         case split_score candidates scores orig i of
           None \<Rightarrow> (repl, bscore)
         | Some score \<Rightarrow> if score > bscore then ([take i orig, drop i orig], score) else (repl, bscore))
       ([[], []], - MaxFloat32) [3..<length orig - 2]"

definition BestReplacement :: "int \<Rightarrow> 'r list list \<Rightarrow> nat \<Rightarrow> 'r list list \<Rightarrow> (real \<times> real) list \<Rightarrow> 'r list list go" where
  "BestReplacement maxTypo ws index candidates scores =
     (if length candidates = 0 then Inr ws
      else if index \<ge> length ws \<or> length scores < length candidates then Inl IndexOutOfRange
      else
        let orig = ws ! index; (best, bscore) = pick_candidate maxTypo orig candidates scores in
        if bscore \<noteq> - MaxFloat32 then Inr (ws[index := best])
        else
          let (repl, bscore2) = pick_split candidates scores orig in
          if bscore2 = - MaxFloat32 then Inr ws
          else Inr (take index ws @ repl @ drop (index + 1) ws))"

section \<open>The row computes the table of edit distances\<close>

definition lev_table :: "'r list \<Rightarrow> 'r list \<Rightarrow> nat \<Rightarrow> nat \<Rightarrow> nat" where
  "lev_table w1 w2 i j = ed (rev (take i w1)) (rev (take j w2))"

lemma lev_table_edges [simp]:
  "i \<le> length w1 \<Longrightarrow> lev_table w1 w2 i 0 = i" "j \<le> length w2 \<Longrightarrow> lev_table w1 w2 0 j = j"
  by (simp_all add: lev_table_def)

lemma lev_table_step:
  assumes "i < length w1" "j < length w2"
  shows "lev_table w1 w2 (Suc i) (Suc j) =
    (if w1 ! i = w2 ! j then lev_table w1 w2 i j
     else min (min (lev_table w1 w2 (Suc i) j) (lev_table w1 w2 i j)) (lev_table w1 w2 i (Suc j)) + 1)"
  using assms by (auto simp: lev_table_def take_Suc_conv_app_nth)

text \<open>State of the row after columns \<open>1, \<dots>, j\<close>; column 0 holds \<open>i\<close> where the table has \<open>i + 1\<close>.\<close>

definition row_state :: "'r list \<Rightarrow> 'r list \<Rightarrow> nat \<Rightarrow> nat \<Rightarrow> int list \<times> int \<times> int \<Rightarrow> bool" where
  "row_state w1 w2 i j = (\<lambda>(dp, upLeft, minRow).
     length dp = length w2 + 1 \<and> dp ! 0 = int i \<and> upLeft = int (lev_table w1 w2 i j) \<and>
     (\<forall>k \<in> {1..j}. dp ! k = int (lev_table w1 w2 (Suc i) k)) \<and>
     (\<forall>k \<in> {j<..length w2}. dp ! k = int (lev_table w1 w2 i k)) \<and>
     minRow \<le> int i \<and> (\<forall>k \<in> {1..j}. minRow \<le> int (lev_table w1 w2 (Suc i) k)))"

lemma lev_cell_state:
  assumes "row_state w1 w2 i j st" "i < length w1" "j < length w2"
  shows "row_state w1 w2 i (Suc j) (lev_cell (w1 ! i) w2 st (Suc j))"
proof -
  obtain dp u m where st: "st = (dp, u, m)" by (cases st)
  have inv: "length dp = length w2 + 1" "dp ! 0 = int i" "u = int (lev_table w1 w2 i j)"
    "\<forall>k \<in> {1..j}. dp ! k = int (lev_table w1 w2 (Suc i) k)"
    "\<forall>k \<in> {j<..length w2}. dp ! k = int (lev_table w1 w2 i k)"
    "m \<le> int i" "\<forall>k \<in> {1..j}. m \<le> int (lev_table w1 w2 (Suc i) k)"
    using assms(1) by (auto simp: row_state_def st)
  define v where "v = (if w1 ! i = w2 ! j then u else min (min (dp ! j) u) (dp ! Suc j) + 1)"
  have nextc: "dp ! Suc j = int (lev_table w1 w2 i (Suc j))" using inv(5) assms(3) by auto
  have "min (dp ! j) u = min (int (lev_table w1 w2 (Suc i) j)) u"
  proof (cases j)
    case 0
    then show ?thesis using inv(2,3) assms(2) by simp
  qed (use inv(4) in auto)
  then have v: "v = int (lev_table w1 w2 (Suc i) (Suc j))"
    using lev_table_step [OF assms(2,3)] inv(3) nextc by (auto simp: v_def)
  have upd: "dp[Suc j := v] ! Suc j = v" "\<And>k. k \<noteq> Suc j \<Longrightarrow> dp[Suc j := v] ! k = dp ! k"
    using inv(1) assms(3) by auto
  have "lev_cell (w1 ! i) w2 st (Suc j) = (dp[Suc j := v], dp ! Suc j, min m v)"
    using inv(1) assms(3) by (simp add: lev_cell_def st v_def Let_def)
  then show ?thesis
    using inv nextc v upd by (auto simp: row_state_def le_Suc_eq intro: min.coboundedI1)
qed

lemma lev_row_state:
  assumes "row_state w1 w2 i 0 (dp[0 := int i], int i, int i)" "i < length w1"
  shows "row_state w1 w2 i (length w2) (lev_row (w1 ! i) w2 i dp)"
proof -
  have "j \<le> length w2 \<Longrightarrow> row_state w1 w2 i j (foldl (lev_cell (w1 ! i) w2) (dp[0 := int i], int i, int i) [1..<j + 1])" for j
  proof (induction j)
    case (Suc j)
    then show ?case using lev_cell_state [OF _ assms(2), of w2 j] by simp
  qed (use assms in simp)
  then show ?thesis by (simp add: lev_row_def)
qed

lemma row_min_mono:
  assumes "i < length w1" "\<forall>j \<le> length w2. m \<le> lev_table w1 w2 i j" "j \<le> length w2"
  shows "m \<le> lev_table w1 w2 (Suc i) j"
  using assms(3)
proof (induction j)
  case 0
  then show ?case using assms(1,2) [rule_format] by fastforce
next
  case (Suc j)
  then have "m \<le> lev_table w1 w2 (Suc i) j" "m \<le> lev_table w1 w2 i j" "m \<le> lev_table w1 w2 i (Suc j)"
    using assms(2) by auto
  then show ?case using lev_table_step [OF assms(1), of j w2] Suc.prems by auto
qed

lemma row_min_final:
  assumes "i \<le> length w1" "\<forall>j \<le> length w2. m \<le> lev_table w1 w2 i j"
  shows "m \<le> lev_table w1 w2 (length w1) (length w2)"
  using assms
proof (induction "length w1 - i" arbitrary: i)
  case (Suc n)
  then show ?case using Suc.hyps(1) [of "Suc i"] row_min_mono [of i w1 w2 m] by auto
qed auto

lemma lev_rows_correct:
  assumes "length dp = length w2 + 1" "\<forall>k \<in> {1..length w2}. dp ! k = int (lev_table w1 w2 i k)"
    and "i \<le> length w1" "w2 \<noteq> []"
  shows "(let d = int (lev_table w1 w2 (length w1) (length w2)); r = lev_rows maxTypo w2 i (drop i w1) dp
         in r = d \<or> (r = maxTypo + 1 \<and> d > maxTypo))"
  using assms(1-3)
proof (induction "length w1 - i" arbitrary: i dp)
  case 0
  then have "i = length w1" "length w2 \<in> {1..length w2}" using assms(4) by (auto simp: Suc_le_eq)
  then show ?case using 0 by simp
next
  case (Suc n)
  then have i: "i < length w1" by simp
  obtain dp' u m where row: "lev_row (w1 ! i) w2 i dp = (dp', u, m)" by (metis prod_cases3)
  have "row_state w1 w2 i 0 (dp[0 := int i], int i, int i)"
    using Suc.prems by (auto simp: row_state_def)
  from lev_row_state [OF this i] have st: "row_state w1 w2 i (length w2) (dp', u, m)" using row by simp
  show ?case
  proof (cases "m > maxTypo")
    case True
    have "\<forall>j \<le> length w2. nat (maxTypo + 1) \<le> lev_table w1 w2 (Suc i) j"
    proof (intro allI impI)
      fix j assume "j \<le> length w2"
      then consider "j = 0" | "j \<in> {1..length w2}" by force
      then show "nat (maxTypo + 1) \<le> lev_table w1 w2 (Suc i) j"
      proof cases
        case 1
        then show ?thesis using True st i by (auto simp: row_state_def)
      next
        case 2
        then have "m \<le> int (lev_table w1 w2 (Suc i) j)" using st unfolding row_state_def by blast
        then show ?thesis using True by linarith
      qed
    qed
    from row_min_final [OF _ this] have "nat (maxTypo + 1) \<le> lev_table w1 w2 (length w1) (length w2)" using i by simp
    then show ?thesis using True row i by (simp add: Cons_nth_drop_Suc [symmetric] Let_def) linarith
  next
    case False
    have "length dp' = length w2 + 1" "\<forall>k \<in> {1..length w2}. dp' ! k = int (lev_table w1 w2 (Suc i) k)"
      using st by (auto simp: row_state_def)
    from Suc.hyps(1) [OF _ this] show ?thesis
      using Suc.hyps(2) False row i by (simp add: Cons_nth_drop_Suc [symmetric])
  qed
qed

lemma levenshteinDistance_correct:
  "levenshteinDistance w1 w2 maxTypo = int (edit_distance w1 w2) \<or>
   (levenshteinDistance w1 w2 maxTypo = maxTypo + 1 \<and> int (edit_distance w1 w2) > maxTypo)"
proof (cases "w1 = [] \<or> w2 = []")
  case True
  then show ?thesis by (auto simp: levenshteinDistance_def edit_distance_ed)
next
  case False
  have "lev_table w1 w2 (length w1) (length w2) = edit_distance w1 w2"
    by (simp add: lev_table_def edit_distance_ed ed_rev)
  then show ?thesis
    using False lev_rows_correct [of "map int [0..<length w2 + 1]" w2 w1 0 maxTypo]
    by (auto simp: levenshteinDistance_def Let_def nth_append simp del: upt_Suc)
qed

section \<open>Choosing the first best\<close>

definition first_best :: "(nat \<Rightarrow> real) \<Rightarrow> (nat \<Rightarrow> bool) \<Rightarrow> nat \<Rightarrow> nat \<Rightarrow> nat \<Rightarrow> bool" where
  "first_best f P a n k \<longleftrightarrow> a \<le> k \<and> k < n \<and> P k \<and> (\<forall>i. a \<le> i \<longrightarrow> i < n \<longrightarrow> P i \<longrightarrow> f i \<le> f k) \<and>
     (\<forall>i. a \<le> i \<longrightarrow> i < k \<longrightarrow> P i \<longrightarrow> f i < f k)"

definition none_above :: "(nat \<Rightarrow> real) \<Rightarrow> (nat \<Rightarrow> bool) \<Rightarrow> real \<Rightarrow> nat \<Rightarrow> nat \<Rightarrow> bool" where
  "none_above f P m a n \<longleftrightarrow> (\<forall>i. a \<le> i \<longrightarrow> i < n \<longrightarrow> P i \<longrightarrow> f i \<le> m)"

lemma first_best_new:
  assumes "none_above f P b a n" "f n > b" "P n" "a \<le> n"
  shows "first_best f P a (Suc n) n"
  using assms by (fastforce simp: first_best_def none_above_def less_Suc_eq)

lemma first_best_bound: "first_best f P a n k \<Longrightarrow> none_above f P (f k) a n"
  by (simp add: first_best_def none_above_def)

lemma first_best_old: "first_best f P a n k \<Longrightarrow> \<not> (f n > f k \<and> P n) \<Longrightarrow> first_best f P a (Suc n) k"
  by (auto simp: first_best_def less_Suc_eq)

lemma none_above_old: "none_above f P m a n \<Longrightarrow> \<not> (f n > m \<and> P n) \<Longrightarrow> none_above f P m a (Suc n)"
  by (auto simp: none_above_def less_Suc_eq)

lemma argmax_upt:
  "a \<le> n \<Longrightarrow> foldl (\<lambda>(best, b) i. if f i > b \<and> P i then (g i, f i) else (best, b)) (g0, m) [a..<n] = (best, b) \<Longrightarrow>
   (b = m \<and> best = g0 \<and> none_above f P m a n) \<or> (\<exists>k. first_best f P a n k \<and> m < f k \<and> best = g k \<and> b = f k)"
proof (induction n arbitrary: best b rule: dec_induct)
  case base
  then show ?case by (simp add: none_above_def)
next
  case (step n)
  obtain best' b' where fold: "foldl (\<lambda>(best, b) i. if f i > b \<and> P i then (g i, f i) else (best, b)) (g0, m) [a..<n] = (best', b')"
    by (rule prod.exhaust)
  have eq: "(best, b) = (if f n > b' \<and> P n then (g n, f n) else (best', b'))"
    using step.prems step.hyps(1) fold by simp
  have ih: "(b' = m \<and> best' = g0 \<and> none_above f P m a n) \<or>
      (\<exists>k. first_best f P a n k \<and> m < f k \<and> best' = g k \<and> b' = f k)"
    by (rule step.IH [OF fold])
  then have above: "none_above f P b' a n" "m \<le> b'" using first_best_bound by auto
  show ?case
  proof (cases "f n > b' \<and> P n")
    case True
    then have "first_best f P a (Suc n) n" using first_best_new [OF above(1)] step.hyps(1) by simp
    then show ?thesis using eq True above(2) by auto
  next
    case False
    then have "best = best'" "b = b'" using eq by auto
    then show ?thesis using ih False first_best_old none_above_old by metis
  qed
qed

lemma last_index_dom: "last_index candidates w = None \<longleftrightarrow> w \<notin> set candidates"
proof -
  have "foldl (\<lambda>m i. m(candidates ! i \<mapsto> i)) M is w = None \<longleftrightarrow> M w = None \<and> w \<notin> (!) candidates ` set is" for M "is"
    by (induction "is" arbitrary: M) auto
  moreover have "(!) candidates ` set [0..<length candidates] = set candidates"
    using nth_image [of "length candidates" candidates] by simp
  ultimately show ?thesis by (simp add: last_index_def)
qed

definition split_at :: "'r list list \<Rightarrow> 'r list \<Rightarrow> nat \<Rightarrow> bool" where
  "split_at candidates w i \<longleftrightarrow> take i w \<in> set candidates \<and> drop i w \<in> set candidates"

lemma split_score_None: "split_score candidates scores w i = None \<longleftrightarrow> \<not> split_at candidates w i"
  using last_index_dom [of candidates "take i w"] last_index_dom [of candidates "drop i w"]
  by (auto simp: split_score_def split_at_def split: option.splits)

lemma MaxFloat32_big: "100000 < MaxFloat32"
  by (simp add: MaxFloat32_def)

lemma split_score_big: "split_score candidates scores w i = Some x \<Longrightarrow> - MaxFloat32 < x"
proof -
  assume "split_score candidates scores w i = Some x"
  then obtain y where x: "x = ln (max y 0.00001)" by (auto simp: split_score_def split: option.splits)
  have "ln (100000 :: real) \<le> 100000 - 1" by (rule ln_le_minus_one) simp
  moreover have "ln (0.00001 :: real) = - ln 100000" using ln_inverse [of "100000 :: real"] by simp
  moreover have "ln 0.00001 \<le> x" unfolding x by (subst ln_le_cancel_iff) auto
  ultimately show "- MaxFloat32 < x" using MaxFloat32_big by linarith
qed

lemma pick_split_cases:
  "(pick_split candidates scores w = ([[], []], - MaxFloat32) \<and> (\<forall>i \<in> {3..<length w - 2}. \<not> split_at candidates w i)) \<or>
   (\<exists>i \<in> {3..<length w - 2}. \<exists>x. split_at candidates w i \<and> - MaxFloat32 < x \<and> pick_split candidates scores w = ([take i w, drop i w], x))"
proof -
  let ?P = "split_at candidates w" and ?f = "\<lambda>i. the (split_score candidates scores w i)"
  have some_iff: "?P i \<longleftrightarrow> (\<exists>x. split_score candidates scores w i = Some x)" for i
    using split_score_None [of candidates scores w i] by auto
  have "pick_split candidates scores w =
    foldl (\<lambda>(best, b) i. if ?f i > b \<and> ?P i then ([take i w, drop i w], ?f i) else (best, b)) ([[], []], - MaxFloat32) [3..<length w - 2]"
    unfolding pick_split_def
    by (rule foldl_cong) (auto simp: some_iff split: option.splits)
  moreover obtain best b where r: "\<dots> = (best, b)" by (rule prod.exhaust)
  ultimately have e: "pick_split candidates scores w = (best, b)" by simp
  have big: "- MaxFloat32 < ?f i" if "?P i" for i
    using that some_iff split_score_big by fastforce
  show ?thesis
  proof (cases "3 \<le> length w - 2")
    case True
    from argmax_upt [OF True r] show ?thesis
    proof (elim disjE exE conjE)
      assume h: "b = - MaxFloat32" "best = [[], []]" "none_above ?f ?P (- MaxFloat32) 3 (length w - 2)"
      have "\<not> ?P i" if "i \<in> {3..<length w - 2}" for i
      proof
        assume "?P i"
        then have "?f i \<le> - MaxFloat32" using h(3) that by (simp add: none_above_def)
        then show False using big [OF \<open>?P i\<close>] by simp
      qed
      then show ?thesis using e h by blast
    next
      fix k assume h: "first_best ?f ?P 3 (length w - 2) k" "- MaxFloat32 < ?f k" "best = [take k w, drop k w]" "b = ?f k"
      then have "k \<in> {3..<length w - 2}" "?P k" by (auto simp: first_best_def)
      then show ?thesis using e h by blast
    qed
  qed (use e r in simp)
qed

definition cand_score :: "int \<Rightarrow> 'r list \<Rightarrow> 'r list list \<Rightarrow> (real \<times> real) list \<Rightarrow> nat \<Rightarrow> real" where
  "cand_score maxTypo w candidates scores i =
     fst (noisyChannelScore maxTypo w (candidates ! i) (fst (scores ! i)) (snd (scores ! i)))"

definition close_to :: "int \<Rightarrow> 'r list \<Rightarrow> 'r list \<Rightarrow> bool" where
  "close_to maxTypo w v \<longleftrightarrow> int (edit_distance w v) < maxTypo"

lemma noisyChannel_distance: "snd (noisyChannelScore maxTypo w v p q) < maxTypo \<longleftrightarrow> close_to maxTypo w v"
  using levenshteinDistance_correct [of w v maxTypo] by (auto simp: noisyChannelScore_def close_to_def Let_def)

lemma cand_score_pos: "- MaxFloat32 < cand_score maxTypo w candidates scores i"
proof -
  have "0 < cand_score maxTypo w candidates scores i"
    by (auto simp: cand_score_def noisyChannelScore_def sc_c_def Let_def intro!: mult_pos_pos)
  then show ?thesis using MaxFloat32_big by linarith
qed

lemma pick_candidate_cases:
  "(pick_candidate maxTypo w candidates scores = (candidates ! 0, - MaxFloat32) \<and>
      (\<forall>i < length candidates. \<not> close_to maxTypo w (candidates ! i))) \<or>
   (\<exists>k < length candidates. close_to maxTypo w (candidates ! k) \<and>
      pick_candidate maxTypo w candidates scores = (candidates ! k, cand_score maxTypo w candidates scores k) \<and>
      (\<forall>i < length candidates. close_to maxTypo w (candidates ! i) \<longrightarrow>
         cand_score maxTypo w candidates scores i \<le> cand_score maxTypo w candidates scores k) \<and>
      (\<forall>i < k. close_to maxTypo w (candidates ! i) \<longrightarrow>
         cand_score maxTypo w candidates scores i < cand_score maxTypo w candidates scores k))"
proof -
  let ?P = "\<lambda>i. close_to maxTypo w (candidates ! i)" and ?f = "cand_score maxTypo w candidates scores"
  have "pick_candidate maxTypo w candidates scores =
    foldl (\<lambda>(best, b) i. if ?f i > b \<and> ?P i then (candidates ! i, ?f i) else (best, b)) (candidates ! 0, - MaxFloat32) [0..<length candidates]"
    unfolding pick_candidate_def
    by (rule foldl_cong) (auto simp: cand_score_def noisyChannel_distance split_beta Let_def)
  moreover obtain best b where r: "\<dots> = (best, b)" by (rule prod.exhaust)
  ultimately have e: "pick_candidate maxTypo w candidates scores = (best, b)" by simp
  from argmax_upt [OF le0 r] show ?thesis
  proof (elim disjE exE conjE)
    assume h: "b = - MaxFloat32" "best = candidates ! 0" "none_above ?f ?P (- MaxFloat32) 0 (length candidates)"
    have "\<not> ?P i" if "i < length candidates" for i
    proof
      assume "?P i"
      then have "?f i \<le> - MaxFloat32" using h(3) that by (simp add: none_above_def)
      then show False using cand_score_pos [of maxTypo w candidates scores i] by simp
    qed
    then show ?thesis using e h by blast
  next
    fix k assume h: "first_best ?f ?P 0 (length candidates) k" "best = candidates ! k" "b = ?f k"
    then have "k < length candidates" "?P k" "\<forall>i < length candidates. ?P i \<longrightarrow> ?f i \<le> ?f k" "\<forall>i < k. ?P i \<longrightarrow> ?f i < ?f k"
      by (auto simp: first_best_def)
    then show ?thesis using e h by blast
  qed
qed

section \<open>Properties\<close>

text \<open>
  C18: \<open>levenshteinDistance\<close> returns the least number of insertions, deletions and substitutions between
  the words when that is at most \<open>maxTypo\<close>, and otherwise a number above \<open>maxTypo\<close>; cutting the loop
  short and leaving column 0 one behind never changes an accepted distance.
\<close>

theorem levenshtein_is_edit_distance:
  "if int (edit_distance w1 w2) \<le> maxTypo then levenshteinDistance w1 w2 maxTypo = int (edit_distance w1 w2)
   else levenshteinDistance w1 w2 maxTypo > maxTypo"
  using levenshteinDistance_correct [of w1 w2 maxTypo] by auto

text \<open>
  C26: what \<open>BestReplacement\<close> does: with a candidate nearer than \<open>maxTypo\<close> edits the word becomes the first
  such candidate of greatest score; otherwise, if the word splits into two candidates of three or more
  runes, it becomes two words; otherwise nothing changes.
\<close>

theorem BestReplacement_choice:
  assumes "candidates \<noteq> []" "index < length ws" "length candidates \<le> length scores"
  shows "(\<exists>k < length candidates. close_to maxTypo (ws ! index) (candidates ! k) \<and>
      BestReplacement maxTypo ws index candidates scores = Inr (ws[index := candidates ! k]) \<and>
      (\<forall>i < length candidates. close_to maxTypo (ws ! index) (candidates ! i) \<longrightarrow>
         cand_score maxTypo (ws ! index) candidates scores i \<le> cand_score maxTypo (ws ! index) candidates scores k)) \<or>
    ((\<forall>i < length candidates. \<not> close_to maxTypo (ws ! index) (candidates ! i)) \<and>
     (\<exists>i. 3 \<le> i \<and> i + 3 \<le> length (ws ! index) \<and> split_at candidates (ws ! index) i \<and>
        BestReplacement maxTypo ws index candidates scores =
          Inr (take index ws @ [take i (ws ! index), drop i (ws ! index)] @ drop (index + 1) ws))) \<or>
    ((\<forall>i < length candidates. \<not> close_to maxTypo (ws ! index) (candidates ! i)) \<and>
     (\<forall>i. 3 \<le> i \<and> i + 3 \<le> length (ws ! index) \<longrightarrow> \<not> split_at candidates (ws ! index) i) \<and>
     BestReplacement maxTypo ws index candidates scores = Inr ws)"
proof -
  let ?w = "ws ! index"
  have guard: "length candidates \<noteq> 0" "\<not> (index \<ge> length ws \<or> length scores < length candidates)" using assms by auto
  have range: "i \<in> {3..<length ?w - 2} \<longleftrightarrow> 3 \<le> i \<and> i + 3 \<le> length ?w" for i by auto
  show ?thesis
    using pick_candidate_cases [of maxTypo ?w candidates scores]
  proof
    assume "\<exists>k < length candidates. close_to maxTypo ?w (candidates ! k) \<and>
      pick_candidate maxTypo ?w candidates scores = (candidates ! k, cand_score maxTypo ?w candidates scores k) \<and>
      (\<forall>i < length candidates. close_to maxTypo ?w (candidates ! i) \<longrightarrow>
         cand_score maxTypo ?w candidates scores i \<le> cand_score maxTypo ?w candidates scores k) \<and>
      (\<forall>i < k. close_to maxTypo ?w (candidates ! i) \<longrightarrow>
         cand_score maxTypo ?w candidates scores i < cand_score maxTypo ?w candidates scores k)"
    then obtain k where k: "k < length candidates" "close_to maxTypo ?w (candidates ! k)"
      "pick_candidate maxTypo ?w candidates scores = (candidates ! k, cand_score maxTypo ?w candidates scores k)"
      "\<forall>i < length candidates. close_to maxTypo ?w (candidates ! i) \<longrightarrow>
         cand_score maxTypo ?w candidates scores i \<le> cand_score maxTypo ?w candidates scores k" by blast
    moreover have "cand_score maxTypo ?w candidates scores k \<noteq> - MaxFloat32"
      using cand_score_pos [of maxTypo ?w candidates scores k] by linarith
    ultimately have "BestReplacement maxTypo ws index candidates scores = Inr (ws[index := candidates ! k])"
      using guard by (simp add: BestReplacement_def Let_def)
    then show ?thesis using k by blast
  next
    assume none: "pick_candidate maxTypo ?w candidates scores = (candidates ! 0, - MaxFloat32) \<and>
      (\<forall>i < length candidates. \<not> close_to maxTypo ?w (candidates ! i))"
    show ?thesis
      using pick_split_cases [of candidates scores ?w]
    proof
      assume "pick_split candidates scores ?w = ([[], []], - MaxFloat32) \<and> (\<forall>i \<in> {3..<length ?w - 2}. \<not> split_at candidates ?w i)"
      then have "BestReplacement maxTypo ws index candidates scores = Inr ws"
        "\<forall>i. 3 \<le> i \<and> i + 3 \<le> length ?w \<longrightarrow> \<not> split_at candidates ?w i"
        using none guard range by (auto simp: BestReplacement_def Let_def)
      then show ?thesis using none by blast
    next
      assume "\<exists>i \<in> {3..<length ?w - 2}. \<exists>x. split_at candidates ?w i \<and> - MaxFloat32 < x \<and>
        pick_split candidates scores ?w = ([take i ?w, drop i ?w], x)"
      then obtain i x where i: "i \<in> {3..<length ?w - 2}" "split_at candidates ?w i" "- MaxFloat32 < x"
        "pick_split candidates scores ?w = ([take i ?w, drop i ?w], x)" by blast
      then have "BestReplacement maxTypo ws index candidates scores =
          Inr (take index ws @ [take i ?w, drop i ?w] @ drop (index + 1) ws)"
        using none guard by (simp add: BestReplacement_def Let_def)
      then show ?thesis using i range none by blast
    qed
  qed
qed

theorem BestReplacement_choice_witness:
  "\<exists>ws. BestReplacement 2 [''teh''] 0 [''ten''] [(0, 0)] = Inr ws"
  using BestReplacement_choice [of "[''ten'']" 0 "[''teh'']" "[(0, 0)]" 2] by auto

end
