(* ===== verification/WordHandling.thy ===== *)
theory WordHandling
  imports NGramRepo Stemmer SpellChecker
begin

text \<open>
  The indexer's two handlers (\<open>indexer/wordHandling.go\<close>): \<open>HandleDocumentWords\<close> indexes the passages of a page,
  \<open>HandleTextQuery\<close> looks the words of a query up and corrects those that are unknown. They compose the
  tokenizer, the stemmer, the signatures and the repository. The regression model and its scaler, the order in
  which Go iterates a map and the conversion to runes are parameters.
\<close>

section \<open>The indexer\<close>

record ('db, 's) indexer_env =
  ix_kv :: "'db pebble"
  ix_unicode :: unicode
  ix_stemmer :: EnglishStemmer
  ix_minHash :: minHash
  ix_cget :: "'s \<Rightarrow> string \<Rightarrow> (u32 option \<times> 's) go"
  ix_cput :: "'s \<Rightarrow> string \<Rightarrow> u32 \<Rightarrow> 's go"
  ix_json :: "bytes \<times> string \<times> int \<Rightarrow> bytes option"
  Scale1D :: "f64 list \<Rightarrow> f64 list"
  Predict :: "f64 list \<Rightarrow> f64"
  ix_maxTypo :: int
  to_runes :: "string \<Rightarrow> nat list"
  of_runes :: "nat list \<Rightarrow> string"
  word_range :: "(string \<times> int) list \<Rightarrow> (string \<times> int) list"
  pair_range :: "((u64 \<times> u64) \<times> int) list \<Rightarrow> ((u64 \<times> u64) \<times> int) list"
  gram_range :: "string \<Rightarrow> u16 list"

record ('db, 's) indexer_state =
  ix_ng :: "('db, 's) ng_state"
  ix_signs :: chunk_files

datatype index_error = EmptyTokens | AlreadyIndexed | SkippedByModel | RepoError repo_error | ReadError read_error

definition ix_db :: "('db, 's) indexer_state \<Rightarrow> 'db" where
  "ix_db st = ng_db (ix_ng st)"

definition set_db :: "('db, 's) indexer_state \<Rightarrow> 'db \<Rightarrow> ('db, 's) indexer_state" where
  "set_db st db = st\<lparr>ix_ng := (ix_ng st)\<lparr>ng_db := db\<rparr>\<rparr>"

section \<open>Counting the words of a page\<close>

text \<open>\<open>m[k]++\<close>; the entries of a map are kept in the order of their insertion.\<close>

fun inc_entry :: "'k \<Rightarrow> ('k \<times> int) list \<Rightarrow> ('k \<times> int) list" where
  "inc_entry k [] = [(k, 1)]"
| "inc_entry k ((k', n) # es) = (if k' = k then (k', n + 1) # es else (k', n) # inc_entry k es)"

record doc_words =
  dw_stem :: "(string \<times> int) list"
  dw_pos :: "string \<Rightarrow> Position list"
  allWordTokens :: "string list"
  dw_i :: int

definition add_token :: "byte \<Rightarrow> doc_words \<Rightarrow> token \<Rightarrow> doc_words go" where
  "add_token t dw w =
     (if length (Value w) > 64 then Inr dw
      else map_sum id (\<lambda>p. dw\<lparr>dw_stem := inc_entry (Value w) (dw_stem dw),
             dw_pos := (dw_pos dw)(Value w := dw_pos dw (Value w) @ [p]), dw_i := dw_i dw + 1\<rparr>) (NewPosition t [] (dw_i dw)))"

fun add_tokens :: "byte \<Rightarrow> doc_words \<Rightarrow> token list \<Rightarrow> doc_words go" where
  "add_tokens t dw [] = Inr dw"
| "add_tokens t dw (w # ws) = (case add_token t dw w of Inl p \<Rightarrow> Inl p | Inr dw' \<Rightarrow> add_tokens t dw' ws)"

fun add_passages :: "('db, 's) indexer_env \<Rightarrow> doc_words \<Rightarrow> Passage list \<Rightarrow> doc_words go" where
  "add_passages env dw [] = Inr dw"
| "add_passages env dw (p # ps) =
     (let (orig, stemmed) = TokenizeAndStem (ix_unicode env) (ix_stemmer env) (PText p) in
      if stemmed = [] then add_passages env dw ps
      else case add_tokens (PType p) (dw\<lparr>allWordTokens := allWordTokens dw @ orig\<rparr>) stemmed of
        Inl e \<Rightarrow> Inl e
      | Inr dw' \<Rightarrow> add_passages env dw' ps)"

definition doc_words_of :: "('db, 's) indexer_env \<Rightarrow> Passage list \<Rightarrow> doc_words go" where
  "doc_words_of env ps = add_passages env \<lparr>dw_stem = [], dw_pos = (\<lambda>_. []), allWordTokens = [], dw_i = 0\<rparr> ps"

section \<open>Indexing a page\<close>

definition feature_vector :: "CrawlFeatures \<Rightarrow> int \<Rightarrow> int \<Rightarrow> f64 list" where
  "feature_vector f tokens utokens =
     [Fin (of_int (DomDepth f)), Fin (of_int (TagCount f)), Fin (of_int (UrlCount f)), Fin (of_int tokens), Fin (of_int utokens),
      fdiv (of_int tokens) (of_int (UrlCount f)), fdiv (of_int utokens) (of_int tokens),
      Fin (of_int (UrlLen f)), Fin (of_int (PathLen f)), Fin (of_int (HostLen f))]"

definition skip_page :: "('db, 's) indexer_env \<Rightarrow> CrawlFeatures \<Rightarrow> doc_words \<Rightarrow> bool" where
  "skip_page env f dw \<longleftrightarrow>
     Predict env (Scale1D env (feature_vector f (dw_i dw) (int (length (dw_stem dw))))) = Fin 0 \<and> dw_i dw < 150"

text \<open>The comparison with the pages indexed before: the similarity and the signatures, or an error.\<close>

definition check_similar :: "('db, 's) indexer_env \<Rightarrow> bool \<Rightarrow> chunk_files \<Rightarrow> string list \<Rightarrow> index_error + (real \<times> chunk_files)" where
  "check_similar env skip files ws =
     (if \<not> skip \<and> length ws > 4 then
        (let sign = CreateSignature (ix_minHash env) (take 5000 ws) in
         case GetSimilarSigns files sign of
           Inl e \<Rightarrow> Inl (ReadError e)
         | Inr conds \<Rightarrow>
             let sim = calcSim sign conds in
             if sim > 0.8 then Inl AlreadyIndexed else Inr (sim, IndexDocShingles files sign))
      else Inr (0, files))"

definition bigrams_of :: "string list \<Rightarrow> ((u64 \<times> u64) \<times> int) list" where
  "bigrams_of ws = foldl (\<lambda>m j. inc_entry (Hash64 (ws ! (j - 1)), Hash64 (ws ! j)) m) [] [1..<length ws]"

text \<open>The three stores of an accepted page.\<close>

definition store_page :: "('db, 's) indexer_env \<Rightarrow> ('db, 's) indexer_state \<Rightarrow> Document \<Rightarrow> doc_words \<Rightarrow>
    (index_error option \<times> ('db, 's) indexer_state) go" where
  "store_page env st doc dw =
     (case SaveDocument (ix_kv env) (ix_json env) (ix_db st) doc of
        Inl e \<Rightarrow> Inr (Some (RepoError e), st)
      | Inr db1 \<Rightarrow>
          (case IndexDocumentWords (ix_kv env) db1 (DocId doc) (word_range env (dw_stem dw)) (dw_pos dw) of
             Inl p \<Rightarrow> Inl p
           | Inr db2 \<Rightarrow>
               map_sum id (\<lambda>ng. (None, st\<lparr>ix_ng := ng\<rparr>))
                 (IndexTriGrams (ix_kv env) (ix_cget env) (ix_cput env) (ix_ng (set_db st db2)) (allWordTokens dw))))"

text \<open>\<open>HandleDocumentWords\<close>: the error, the priority and the state. A cancelled context is not modelled.\<close>

definition HandleDocumentWords :: "('db, 's) indexer_env \<Rightarrow> ('db, 's) indexer_state \<Rightarrow> Document \<Rightarrow> CrawlFeatures \<Rightarrow> f64 \<Rightarrow> Passage list \<Rightarrow>
    ((index_error option \<times> f64) \<times> ('db, 's) indexer_state) go" where
  "HandleDocumentWords env st doc0 feats priority passages =
     (case doc_words_of env passages of
        Inl p \<Rightarrow> Inl p
      | Inr dw \<Rightarrow>
          let doc = doc0\<lparr>TokenCount := dw_i dw\<rparr>; utokens = int (length (dw_stem dw)); skip = skip_page env feats dw in
          case check_similar env skip (ix_signs st) (allWordTokens dw) of
            Inl e \<Rightarrow> Inr ((Some e, priority), st)
          | Inr (sim, files) \<Rightarrow>
              (case UpdateBiFreq (ix_kv env) (ix_db st) (pair_range env (bigrams_of (allWordTokens dw))) of
                 Inl p \<Rightarrow> Inl p
               | Inr db \<Rightarrow>
                   let st1 = (set_db st db)\<lparr>ix_signs := files\<rparr> in
                   if skip then Inr ((Some SkippedByModel, priority), st1)
                   else case store_page env st1 doc dw of
                     Inl p \<Rightarrow> Inl p
                   | Inr (Some e, st2) \<Rightarrow> Inr ((Some e, priority), st2)
                   | Inr (None, st2) \<Rightarrow>
                       Inr ((None, fmul (fmul priority (Fin (1 - sim))) (fdiv (of_int utokens) (of_int (dw_i dw)))), st2)))"

section \<open>Queries\<close>

type_synonym doc_entries = "bytes \<rightharpoonup> WordCountAndPositions"

text \<open>The scores of the candidates from the words on both sides; a neighbour that is absent has hash 0.\<close>

definition neighbour_freq :: "'db pebble \<Rightarrow> 'db \<Rightarrow> bool \<Rightarrow> u64 \<Rightarrow> u64 \<Rightarrow> real go" where
  "neighbour_freq kv db present l r = (if present then map_sum id (\<lambda>n. ln (of_int (1 + n))) (GetFreq kv db l r) else Inr (ln 1))"

fun candidate_scores :: "'db pebble \<Rightarrow> 'db \<Rightarrow> u64 \<Rightarrow> u64 \<Rightarrow> string list \<Rightarrow> (real \<times> real) list go" where
  "candidate_scores kv db left right [] = Inr []"
| "candidate_scores kv db left right (c # cs) =
     (case neighbour_freq kv db (left \<noteq> 0) left (Hash64 c) of
        Inl p \<Rightarrow> Inl p
      | Inr lscore \<Rightarrow>
          (case neighbour_freq kv db (right \<noteq> 0) (Hash64 c) right of
             Inl p \<Rightarrow> Inl p
           | Inr rscore \<Rightarrow> map_sum id (Cons (lscore, rscore)) (candidate_scores kv db left right cs)))"

definition scores_of :: "'db pebble \<Rightarrow> 'db \<Rightarrow> string list \<Rightarrow> nat \<Rightarrow> nat \<Rightarrow> string list \<Rightarrow> (real \<times> real) list go" where
  "scores_of kv db ws lenWords wordPos conds =
     (let left = (if wordPos > 0 then Hash64 (ws ! (wordPos - 1)) else 0);
          right = (if wordPos + 1 < lenWords then Hash64 (ws ! (wordPos + 1)) else 0)
      in if right \<noteq> 0 \<or> left \<noteq> 0 then candidate_scores kv db left right conds
         else Inr (replicate (length conds) (0, 0)))"

text \<open>\<open>documents\<close> extended by the documents of the second half of a word that was split.\<close>

definition merge_docs :: "doc_entries \<Rightarrow> doc_entries \<Rightarrow> doc_entries" where
  "merge_docs documents docs = (\<lambda>k. case docs k of
       None \<Rightarrow> documents k
     | Some v \<Rightarrow> (case documents k of
           None \<Rightarrow> Some v
         | Some d \<Rightarrow> Some \<lparr>Count = Count d + Count v, Positions = Positions d @ Positions v\<rparr>))"

text \<open>The variables of the loop over the tokens.\<close>

record query_state =
  q_words :: "string list"
  q_lenWords :: nat
  q_wordPos :: nat
  q_tokens :: "string list"
  reverthIndex :: "doc_entries list"

definition lookup_word :: "('db, 's) indexer_env \<Rightarrow> ('db, 's) indexer_state \<Rightarrow> string \<Rightarrow> (index_error + doc_entries) go" where
  "lookup_word env st w = map_sum id (map_sum RepoError id) (GetDocumentsByWord (ix_kv env) (ix_db st) w)"

text \<open>
  The correction of the word at \<open>q_wordPos\<close>: the words after it, and the replacement of the token with its
  documents, \<open>None\<close> if the word was replaced with a stop word. \<open>wordPos\<close> moves on by one if the word was split.
\<close>

definition correct_word :: "('db, 's) indexer_env \<Rightarrow> ('db, 's) indexer_state \<Rightarrow> query_state \<Rightarrow>
    (index_error + query_state \<times> (token \<times> doc_entries) option) go" where
  "correct_word env st q =
     (let ws = q_words q; n = q_wordPos q; u = ix_unicode env; s = ix_stemmer env in
      if n \<ge> length ws then Inl IndexOutOfRange
      else case GetWordsByTGrams (ix_kv env) (ix_ng st) (ws ! n) (gram_range env (ws ! n)) of
        Inl e \<Rightarrow> Inr (Inl (RepoError e))
      | Inr conds \<Rightarrow>
         (case scores_of (ix_kv env) (ix_db st) ws (q_lenWords q) n conds of
            Inl p \<Rightarrow> Inl p
          | Inr scores \<Rightarrow>
         (case BestReplacement (ix_maxTypo env) (map (to_runes env) ws) n (map (to_runes env) conds) scores of
            Inl p \<Rightarrow> Inl p
          | Inr replaced \<Rightarrow>
              let ws' = map (of_runes env) replaced in
              case snd (TokenizeAndStem u s (ws' ! n)) of
                [] \<Rightarrow> Inr (Inr (q\<lparr>q_words := ws'\<rparr>, None))
              | t # _ \<Rightarrow>
                  (case lookup_word env st (Value t) of
                     Inl p \<Rightarrow> Inl p
                   | Inr (Inl e) \<Rightarrow> Inr (Inl e)
                   | Inr (Inr documents) \<Rightarrow>
                       if q_lenWords q < length ws' then
                         (if n + 1 \<ge> length ws' then Inl IndexOutOfRange
                          else case snd (TokenizeAndStem u s (ws' ! (n + 1))) of
                            [] \<Rightarrow> Inl IndexOutOfRange
                          | t2 # _ \<Rightarrow>
                              (case lookup_word env st (Value t2) of
                                 Inl p \<Rightarrow> Inl p
                               | Inr (Inl e) \<Rightarrow> Inr (Inl e)
                               | Inr (Inr docs) \<Rightarrow>
                                   Inr (Inr (q\<lparr>q_words := ws', q_lenWords := q_lenWords q + 1, q_wordPos := n + 1\<rparr>, Some (t, merge_docs documents docs)))))
                       else Inr (Inr (q\<lparr>q_words := ws'\<rparr>, Some (t, documents)))))))"

text \<open>
  One turn of the loop. \<open>isTwoWordCorrection\<close> is never set, so the branch under it is left out, and with it the
  tokens that a split appends behind the original ones.
\<close>

definition query_step :: "('db, 's) indexer_env \<Rightarrow> ('db, 's) indexer_state \<Rightarrow> query_state \<Rightarrow> token \<Rightarrow> (index_error + query_state) go" where
  "query_step env st q t =
     (let found = (\<lambda>q t documents. q\<lparr>q_tokens := q_tokens q @ [Value t], reverthIndex := reverthIndex q @ [documents],
             q_wordPos := (if TType t = WORD then q_wordPos q + 1 else q_wordPos q)\<rparr>) in
      case lookup_word env st (Value t) of
        Inl p \<Rightarrow> Inl p
      | Inr (Inl e) \<Rightarrow> Inr (Inl e)
      | Inr (Inr documents) \<Rightarrow>
          if documents = Map.empty \<and> TType t = WORD then
            (case correct_word env st q of
               Inl p \<Rightarrow> Inl p
             | Inr (Inl e) \<Rightarrow> Inr (Inl e)
             | Inr (Inr (q', None)) \<Rightarrow> Inr (Inr (q'\<lparr>q_wordPos := q_wordPos q' + 1\<rparr>))
             | Inr (Inr (q', Some (t', docs))) \<Rightarrow> Inr (Inr (found q' t' docs)))
          else Inr (Inr (found q t documents)))"

fun answer_loop :: "('db, 's) indexer_env \<Rightarrow> ('db, 's) indexer_state \<Rightarrow> query_state \<Rightarrow> token list \<Rightarrow> (index_error + query_state) go" where
  "answer_loop env st q [] = Inr (Inr q)"
| "answer_loop env st q (t # ts) =
     (case query_step env st q t of
        Inl p \<Rightarrow> Inl p
      | Inr (Inl e) \<Rightarrow> Inr (Inl e)
      | Inr (Inr q') \<Rightarrow> answer_loop env st q' ts)"

definition HandleTextQuery :: "('db, 's) indexer_env \<Rightarrow> ('db, 's) indexer_state \<Rightarrow> string \<Rightarrow> (index_error + string list \<times> doc_entries list) go" where
  "HandleTextQuery env st txt =
     (let (ws, stemmed) = TokenizeAndStem (ix_unicode env) (ix_stemmer env) txt in
      if stemmed = [] then Inr (Inl EmptyTokens)
      else map_sum id (map_sum id (\<lambda>q. (q_tokens q, reverthIndex q)))
        (answer_loop env st \<lparr>q_words = ws, q_lenWords = length ws, q_wordPos = 0, q_tokens = [], reverthIndex = []\<rparr> stemmed))"

section \<open>The words of a page\<close>

text \<open>What the tokens of a page are, and where each occurs.\<close>

definition passage_tokens :: "('db, 's) indexer_env \<Rightarrow> Passage \<Rightarrow> (byte \<times> string) list" where
  "passage_tokens env p = map (\<lambda>t. (PType p, Value t))
     (filter (\<lambda>t. length (Value t) \<le> 64) (snd (TokenizeAndStem (ix_unicode env) (ix_stemmer env) (PText p))))"

definition passage_words :: "('db, 's) indexer_env \<Rightarrow> Passage \<Rightarrow> string list" where
  "passage_words env p = (case TokenizeAndStem (ix_unicode env) (ix_stemmer env) (PText p) of (ws, toks) \<Rightarrow> if toks = [] then [] else ws)"

definition page_tokens :: "('db, 's) indexer_env \<Rightarrow> Passage list \<Rightarrow> (byte \<times> string) list" where
  "page_tokens env ps = concat (map (passage_tokens env) ps)"

definition page_words :: "('db, 's) indexer_env \<Rightarrow> Passage list \<Rightarrow> string list" where
  "page_words env ps = concat (map (passage_words env) ps)"

definition occurrences :: "string \<Rightarrow> (byte \<times> string) list \<Rightarrow> Position list" where
  "occurrences w toks = map (\<lambda>(k, t, v). \<lparr>I = int k, Type = t\<rparr>) (filter (\<lambda>(k, t, v). v = w) (enumerate 0 toks))"

lemma occurrences_Nil [simp]: "occurrences w [] = []"
  by (simp add: occurrences_def)

lemma occurrences_snoc [simp]:
  "occurrences w (toks @ [(t, v)]) = occurrences w toks @ (if v = w then [\<lparr>I = int (length toks), Type = t\<rparr>] else [])"
  by (simp add: occurrences_def enumerate_append_eq)

lemma occurrences_iff: "occurrences w toks \<noteq> [] \<longleftrightarrow> w \<in> snd ` set toks"
  by (induction toks rule: rev_induct) auto

lemma map_of_inc_entry: "map_of (inc_entry k es) = (map_of es)(k \<mapsto> (case map_of es k of None \<Rightarrow> 1 | Some n \<Rightarrow> n + 1))"
  by (induction k es rule: inc_entry.induct) (auto simp: fun_eq_iff)

lemma keys_inc_entry: "set (map fst (inc_entry k es)) = insert k (set (map fst es))"
  by (induction k es rule: inc_entry.induct) auto

lemma distinct_inc_entry: "distinct (map fst es) \<Longrightarrow> distinct (map fst (inc_entry k es))"
proof (induction k es rule: inc_entry.induct)
  case (2 k k' n es)
  then show ?case using keys_inc_entry [of k es] by auto
qed simp

text \<open>The maps count exactly the tokens seen.\<close>

definition counts_tokens :: "doc_words \<Rightarrow> (byte \<times> string) list \<Rightarrow> bool" where
  "counts_tokens dw toks \<longleftrightarrow>
     dw_i dw = int (length toks) \<and> distinct (map fst (dw_stem dw)) \<and>
     (\<forall>w. dw_pos dw w = occurrences w toks) \<and>
     (\<forall>w. map_of (dw_stem dw) w = (if occurrences w toks = [] then None else Some (int (length (occurrences w toks)))))"

lemma add_token_counts:
  assumes "counts_tokens dw toks" "t = BodyType \<or> t = HeaderType"
  shows "\<exists>dw'. add_token t dw w = Inr dw' \<and> allWordTokens dw' = allWordTokens dw \<and>
    counts_tokens dw' (toks @ (if length (Value w) \<le> 64 then [(t, Value w)] else []))"
proof (cases "length (Value w) \<le> 64")
  case True
  then have "add_token t dw w = Inr (dw\<lparr>dw_stem := inc_entry (Value w) (dw_stem dw),
      dw_pos := (dw_pos dw)(Value w := dw_pos dw (Value w) @ [\<lparr>I = dw_i dw, Type = t\<rparr>]), dw_i := dw_i dw + 1\<rparr>)"
    using assms(2) by (auto simp: add_token_def)
  then show ?thesis using True assms(1) by (auto simp: counts_tokens_def map_of_inc_entry distinct_inc_entry)
next
  case False
  then show ?thesis using assms(1) by (simp add: add_token_def)
qed

lemma add_tokens_counts:
  "counts_tokens dw toks \<Longrightarrow> t = BodyType \<or> t = HeaderType \<Longrightarrow>
   \<exists>dw'. add_tokens t dw ws = Inr dw' \<and> allWordTokens dw' = allWordTokens dw \<and>
     counts_tokens dw' (toks @ map (\<lambda>w. (t, Value w)) (filter (\<lambda>w. length (Value w) \<le> 64) ws))"
proof (induction ws arbitrary: dw toks)
  case (Cons w ws)
  obtain dw1 where dw1: "add_token t dw w = Inr dw1" "allWordTokens dw1 = allWordTokens dw"
    "counts_tokens dw1 (toks @ (if length (Value w) \<le> 64 then [(t, Value w)] else []))"
    using add_token_counts [OF Cons.prems, of w] by blast
  show ?case using Cons.IH [OF dw1(3) Cons.prems(2)] dw1(1,2) by (auto split: if_splits)
qed simp

lemma add_passages_counts:
  "counts_tokens dw toks \<Longrightarrow> \<forall>p \<in> set ps. PType p = BodyType \<or> PType p = HeaderType \<Longrightarrow>
   \<exists>dw'. add_passages env dw ps = Inr dw' \<and> allWordTokens dw' = allWordTokens dw @ page_words env ps \<and>
     counts_tokens dw' (toks @ page_tokens env ps)"
proof (induction ps arbitrary: dw toks)
  case (Cons p ps)
  obtain ws ts where ws: "TokenizeAndStem (ix_unicode env) (ix_stemmer env) (PText p) = (ws, ts)" by (cases "TokenizeAndStem (ix_unicode env) (ix_stemmer env) (PText p)")
  show ?case
  proof (cases "ts = []")
    case True
    then show ?thesis using Cons.IH [OF Cons.prems(1)] Cons.prems(2) ws by (simp add: page_words_def page_tokens_def passage_words_def passage_tokens_def)
  next
    case False
    have "counts_tokens (dw\<lparr>allWordTokens := allWordTokens dw @ ws\<rparr>) toks" using Cons.prems(1) by (simp add: counts_tokens_def)
    then obtain dw1 where dw1: "add_tokens (PType p) (dw\<lparr>allWordTokens := allWordTokens dw @ ws\<rparr>) ts = Inr dw1"
      "allWordTokens dw1 = allWordTokens dw @ ws" "counts_tokens dw1 (toks @ passage_tokens env p)"
      using add_tokens_counts [of "dw\<lparr>allWordTokens := allWordTokens dw @ ws\<rparr>" toks "PType p" ts] Cons.prems(2) ws
      by (auto simp: passage_tokens_def)
    show ?thesis using Cons.IH [OF dw1(3)] Cons.prems(2) dw1(1,2) ws False
      by (auto simp: page_words_def page_tokens_def passage_words_def)
  qed
qed (simp add: page_words_def page_tokens_def)

lemma doc_words_of_counts:
  assumes "\<forall>p \<in> set ps. PType p = BodyType \<or> PType p = HeaderType"
  shows "\<exists>dw. doc_words_of env ps = Inr dw \<and> allWordTokens dw = page_words env ps \<and> counts_tokens dw (page_tokens env ps)"
  using add_passages_counts [OF _ assms, of "\<lparr>dw_stem = [], dw_pos = (\<lambda>_. []), allWordTokens = [], dw_i = 0\<rparr>" "[]" env]
  by (simp add: doc_words_of_def counts_tokens_def)

end
