(* ===== verification/PageIndex.thy ===== *)
theory PageIndex
  imports WordHandling
begin

text \<open>
  What \<open>HandleDocumentWords\<close> does to the index: every store keeps to its own keys, so that an accepted page is
  found under exactly its tokens, at exactly their positions, and a refused one under none.
\<close>

section \<open>Every store keeps to its keys\<close>

text \<open>The two databases agree on all keys outside the prefixes \<open>ps\<close>.\<close>

definition agree_off :: "string list \<Rightarrow> 'db pebble \<Rightarrow> 'db \<Rightarrow> 'db \<Rightarrow> bool" where
  "agree_off ps kv db db' \<longleftrightarrow> (\<forall>k. list_all (\<lambda>p. \<not> prefix p k) ps \<longrightarrow> db_get kv db' k = db_get kv db k)"

lemma agree_refl [simp]: "agree_off ps kv db db"
  by (simp add: agree_off_def)

lemma agree_trans: "agree_off ps kv a b \<Longrightarrow> agree_off ps kv b c \<Longrightarrow> agree_off ps kv a c"
  by (simp add: agree_off_def)

lemma agree_set: "pebble_laws kv \<Longrightarrow> list_ex (\<lambda>p. prefix p k) ps \<Longrightarrow> agree_off ps kv db (db_set kv db k v)"
  by (auto simp: agree_off_def get_set list_all_iff list_ex_iff)

lemma agree_commit:
  assumes "pebble_laws kv" "\<forall>k \<in> fst ` set b. list_ex (\<lambda>p. prefix p k) ps"
  shows "agree_off ps kv db (commit kv b db)"
  using assms(2)
proof (induction b rule: rev_induct)
  case (snoc e b)
  then show ?case using agree_set [OF assms(1), of "fst e" ps "commit kv b db" "snd e"]
    by (cases e) (auto simp: commit_snoc intro: agree_trans)
qed (simp add: commit_def)

lemma bi_key_prefix [simp]: "prefix ''big:'' (bi_key lr)"
  by (simp add: bi_key_def)

lemma agree_bi_loop:
  assumes laws: "pebble_laws kv"
  shows "bi_loop kv db b c es = Inr db' \<Longrightarrow> \<forall>k \<in> fst ` set b. prefix ''big:'' k \<Longrightarrow> agree_off [''big:''] kv db db'"
proof (induction es arbitrary: db b c)
  case Nil
  then show ?case using agree_commit [OF laws, of b "[''big:'']" db] by simp
next
  case (Cons e es)
  obtain lr freq where e: "e = (lr, freq)" by (cases e)
  obtain n where n: "bi_loop kv db b c (e # es) =
      (let b' = b @ [(bi_key lr, encCount n)] in if c + 1 = 20 then bi_loop kv (commit kv b' db) [] 0 es else bi_loop kv db b' (c + 1) es)"
  proof (cases "(case db_get kv db (bi_key lr) of None \<Rightarrow> Inr freq
      | Some val \<Rightarrow> (case decCount val of Inl p \<Rightarrow> Inl p | Inr old \<Rightarrow> Inr (freq + old))) :: int go")
    case (Inr n)
    show thesis by (rule that [of n]) (simp add: e Inr)
  qed (use Cons.prems(1) e in simp)
  let ?b = "b @ [(bi_key lr, encCount n)]"
  have b: "\<forall>k \<in> fst ` set ?b. prefix ''big:'' k" using Cons.prems(2) by auto
  show ?case
  proof (cases "c + 1 = 20")
    case True
    then have "agree_off [''big:''] kv (commit kv ?b db) db'" using Cons.IH [of "commit kv ?b db" "[]" 0] Cons.prems(1) n by (simp add: Let_def)
    moreover have "agree_off [''big:''] kv db (commit kv ?b db)" using agree_commit [OF laws, of ?b "[''big:'']" db] b by simp
    ultimately show ?thesis by (blast intro: agree_trans)
  next
    case False
    then show ?thesis using Cons.IH [OF _ b, of db "c + 1"] Cons.prems(1) n by (simp add: Let_def)
  qed
qed

lemma agree_UpdateBiFreq: "pebble_laws kv \<Longrightarrow> UpdateBiFreq kv db es = Inr db' \<Longrightarrow> agree_off [''big:''] kv db db'"
  unfolding UpdateBiFreq_def by (rule agree_bi_loop) auto

lemma agree_SaveDocument: "pebble_laws kv \<Longrightarrow> SaveDocument kv js db doc = Inr db' \<Longrightarrow> agree_off [''doc:''] kv db db'"
  by (auto simp: SaveDocument_def split: sum.splits intro!: agree_set)

lemma agree_IndexDocumentWords:
  assumes laws: "pebble_laws kv"
  shows "IndexDocumentWords kv db d es pos = Inr db' \<Longrightarrow> agree_off [''ri:''] kv db db'"
proof (induction es arbitrary: db)
  case (Cons e es)
  obtain db1 where db1: "index_entry kv d pos db e = Inr db1" "IndexDocumentWords kv db1 d es pos = Inr db'"
    using Cons.prems by (auto split: sum.splits)
  have "prefix ''ri:'' (word_doc_key (fst e) d)" by (simp add: word_doc_key_def word_prefix_def)
  then have "agree_off [''ri:''] kv db db1" using db1(1)
    by (auto simp: index_entry_def Let_def split: prod.splits sum.splits if_splits intro!: agree_set [OF laws])
  then show ?case using Cons.IH [OF db1(2)] by (blast intro: agree_trans)
qed simp

lemma agree_alloc:
  assumes laws: "pebble_laws kv" and a: "alloc kv cget cput i st w = Inr (r, st')"
  shows "agree_off [''word:'', ''num:''] kv (ng_db st) (ng_db st')"
proof -
  have keys: "prefix ''word:'' (word_key v)" "prefix ''num:'' (num_key n)" for v n by (simp_all add: word_key_def num_key_def)
  have "agree_off [''word:'', ''num:''] kv db (db_set kv (db_set kv db (word_key v) x) (num_key n) y)" for db v x n y
    by (rule agree_trans [OF agree_set [OF laws] agree_set [OF laws]]) (simp_all add: keys)
  then show ?thesis using a by (auto simp: alloc_def Let_def split: sum.splits prod.splits option.splits)
qed

lemma agree_IndexTriGrams:
  assumes laws: "pebble_laws kv"
  shows "IndexTriGrams kv cget cput st ws = Inr st' \<Longrightarrow> agree_off [''word:'', ''num:''] kv (ng_db st) (ng_db st')"
proof (induction ws arbitrary: st)
  case (Cons w ws)
  obtain st1 where st1: "index_word kv cget cput st w = Inr st1" "IndexTriGrams kv cget cput st1 ws = Inr st'"
    using Cons.prems by (auto split: sum.splits)
  have "agree_off [''word:'', ''num:''] kv (ng_db st) (ng_db st1)"
    using st1(1) by (auto simp: index_word_def Let_def split: if_splits sum.splits prod.splits dest: agree_alloc [OF laws])
  then show ?case using Cons.IH [OF st1(2)] by (blast intro: agree_trans)
qed simp

section \<open>What depends on which keys\<close>

lemma prefix_first: "prefix (c # cs) k \<Longrightarrow> prefix (d # ds) k \<Longrightarrow> c = d"
  by (auto simp: prefix_def)

lemma word_entries_agree:
  assumes "agree_off ps kv db db'" "\<forall>p \<in> set ps. p \<noteq> [] \<and> hd p \<noteq> CHR ''r''"
  shows "wf_word kv db' w = wf_word kv db w" "entry_of kv db' w = entry_of kv db w"
proof -
  have "db_get kv db' k = db_get kv db k" if k: "prefix (word_prefix w) k" for k
  proof -
    have "\<not> prefix p k" if "p \<in> set ps" for p
      using assms(2) that k prefix_first by (cases p) (fastforce simp: word_prefix_def)+
    then show ?thesis using assms(1) by (simp add: agree_off_def list_all_iff)
  qed
  moreover have "prefix (word_prefix w) (word_doc_key w d)" for d by (simp add: word_doc_key_def)
  ultimately show "wf_word kv db' w = wf_word kv db w" "entry_of kv db' w = entry_of kv db w"
    by (auto simp: wf_word_def entry_of_def fun_eq_iff)
qed

lemma ids_ok_agree:
  assumes "agree_off ps kv db db'" "\<forall>p \<in> set ps. p \<noteq> [] \<and> hd p \<notin> {CHR ''w'', CHR ''n''}"
  shows "ids_ok kv db' cnt M = ids_ok kv db cnt M"
proof -
  have "\<not> prefix p (word_key v) \<and> \<not> prefix p (num_key n)" if "p \<in> set ps" for p v n
    using assms(2) that by (cases p) (auto simp: word_key_def num_key_def)
  then have "db_get kv db' (word_key v) = db_get kv db (word_key v)" "db_get kv db' (num_key n) = db_get kv db (num_key n)" for v n
    using assms(1) by (auto simp: agree_off_def list_all_iff)
  then show ?thesis by (simp add: ids_ok_def)
qed

lemma wf_freqs_agree:
  assumes "agree_off ps kv db db'" "\<forall>p \<in> set ps. p \<noteq> [] \<and> hd p \<noteq> CHR ''b''"
  shows "wf_freqs kv db' = wf_freqs kv db"
proof -
  have "\<not> prefix p (bi_key lr)" if "p \<in> set ps" for p lr
    using assms(2) that by (cases p) (auto simp: bi_key_def)
  then have "db_get kv db' (bi_key lr) = db_get kv db (bi_key lr)" for lr
    using assms(1) by (auto simp: agree_off_def list_all_iff)
  then show ?thesis by (simp add: wf_freqs_def)
qed

lemma documents_agree:
  assumes "agree_off ps kv db db'" "\<forall>p \<in> set ps. p \<noteq> [] \<and> hd p \<noteq> CHR ''d''"
  shows "GetDocumentByID kv js db' d = GetDocumentByID kv js db d"
proof -
  have "\<not> prefix p (''doc:'' @ raw d)" if "p \<in> set ps" for p using assms(2) that by (cases p) auto
  then show ?thesis using assms(1) by (simp add: agree_off_def list_all_iff GetDocumentByID_def)
qed

section \<open>Storing a page\<close>

text \<open>
  What is assumed of the environment: a database, the LRU caches, maps iterated in some order, a JSON decoder that
  inverts the encoder, and a tokenizer whose rules never yield a WORD.
\<close>

definition indexer_laws :: "('db, (string, u32) LRUCache) indexer_env \<Rightarrow> (bytes \<Rightarrow> (bytes \<times> string \<times> int) option) \<Rightarrow> bool" where
  "indexer_laws env from_json \<longleftrightarrow>
     pebble_laws (ix_kv env) \<and> ix_cget env = lru_Get \<and> ix_cput env = lru_Put \<and>
     (\<forall>es. mset (word_range env es) = mset es) \<and> (\<forall>es. mset (pair_range env es) = mset es) \<and>
     (\<forall>p b. ix_json env p = Some b \<longrightarrow> from_json b = Some p) \<and>
     unicode_laws (ix_unicode env) \<and>
     (\<exists>tok. (\<forall>rule \<in> set tok. regex_law rule \<and> TokenType rule \<noteq> WORD) \<and> iterates (NewEnglishStemmer tok) (ix_stemmer env))"

text \<open>The invariant of the index; \<open>M\<close> is the map from words to their ids.\<close>

definition index_ok :: "('db, (string, u32) LRUCache) indexer_env \<Rightarrow> ('db, (string, u32) LRUCache) indexer_state \<Rightarrow> (string \<rightharpoonup> u32) \<Rightarrow> bool" where
  "index_ok env st M \<longleftrightarrow> wf_freqs (ix_kv env) (ix_db st) \<and> word_lru.inv (ix_kv env) M (ix_ng st)"

lemma page_words_lower:
  assumes "indexer_laws env js" "w \<in> set (page_words env ps)"
  shows "lower_word w"
proof -
  obtain tok where tok: "\<forall>rule \<in> set tok. regex_law rule \<and> TokenType rule \<noteq> WORD" "iterates (NewEnglishStemmer tok) (ix_stemmer env)"
    and u: "unicode_laws (ix_unicode env)" using assms(1) unfolding indexer_laws_def by blast
  obtain p where p: "w \<in> set (passage_words env p)" using assms(2) by (auto simp: page_words_def)
  let ?ts = "entityTokenize (ix_unicode env) (tokRules (ix_stemmer env)) (PText p)"
  have rules: "tokRules (ix_stemmer env) = tok" using tok(2) by (simp add: iterates_def NewEnglishStemmer_def)
  then have "\<forall>t \<in> set ?ts. TType t = WORD \<longrightarrow> lower_word (Value t) \<and> Value t \<noteq> []" using entityTokenize_words [OF u tok(1)] by blast
  moreover have "w \<in> set (fst (stem_tokens (ix_stemmer env) ?ts))"
    using p by (simp add: passage_words_def TokenizeAndStem_def case_prod_beta split: if_splits)
  ultimately show ?thesis using stem_tokens_words [of "ix_stemmer env" ?ts, OF stem_facts(3) [OF tok(2)]] by fastforce
qed

lemma bigrams_distinct: "distinct (map fst (bigrams_of ws))"
proof -
  have "distinct (map fst (foldl (\<lambda>m j. inc_entry (f j) m) es js))" if "distinct (map fst es)" for f :: "nat \<Rightarrow> u64 \<times> u64" and es js
    using that by (induction js arbitrary: es) (simp_all add: distinct_inc_entry)
  from this [of "[]" "\<lambda>j. (Hash64 (ws ! (j - 1)), Hash64 (ws ! j))"] show ?thesis unfolding bigrams_of_def by simp
qed

lemma UpdateBiFreq_ok:
  assumes "pebble_laws kv" "wf_freqs kv db" "mset es = mset (bigrams_of ws)"
  shows "\<exists>db'. UpdateBiFreq kv db es = Inr db' \<and> wf_freqs kv db'"
proof -
  have "mset (map fst es) = mset (map fst (bigrams_of ws))" using assms(3) by (simp only: mset_map)
  then have "distinct (map fst es)" using bigrams_distinct mset_eq_imp_distinct_iff by blast
  moreover have "commit kv [] db = db" by (simp add: commit_def)
  ultimately show ?thesis using bi_loop_adds [OF assms(1), of "[]" db es 0] assms(2) by (auto simp: UpdateBiFreq_def)
qed

lemma index_inv_agree:
  assumes "agree_off ps kv (ng_db ng) db" "\<forall>p \<in> set ps. p \<noteq> [] \<and> hd p \<notin> {CHR ''w'', CHR ''n''}" "word_lru.inv kv M ng"
  shows "word_lru.inv kv M (ng\<lparr>ng_db := db\<rparr>)"
  using ids_ok_agree [OF assms(1,2)] assms(3) by (simp add: word_lru.inv_def)

lemma db_set_db [simp]: "ix_db (set_db st db) = db" "ix_ng (set_db st db) = (ix_ng st)\<lparr>ng_db := db\<rparr>" "ix_signs (set_db st db) = ix_signs st"
  by (simp_all add: ix_db_def set_db_def)

text \<open>Where a word is found after a page: under the page too if \<open>stored\<close>, with its occurrences.\<close>

definition word_entries :: "('db, 's) indexer_env \<Rightarrow> ('db, 's) indexer_state \<Rightarrow> string \<Rightarrow> doc_entries" where
  "word_entries env st w = entry_of (ix_kv env) (ix_db st) w"

lemma store_page_ok:
  assumes laws: "indexer_laws env js" and ok: "index_ok env st M" and room: "card (dom M \<union> set (allWordTokens dw)) + 1 < 2 ^ 32"
    and lower: "\<forall>v \<in> set (allWordTokens dw). lower_word v" and dw: "counts_tokens dw toks" and d: "length (DocId doc) = 32"
    and wf: "wf_word (ix_kv env) (ix_db st) w" and under: "\<forall>(t, v) \<in> set toks. \<not> prefix (w @ ''_'') v"
  shows "\<exists>e st' M'. store_page env st doc dw = Inr (e, st') \<and> index_ok env st' M' \<and> dom M' \<subseteq> dom M \<union> set (allWordTokens dw) \<and> wf_word (ix_kv env) (ix_db st') w \<and>
    word_entries env st' w = (if e = None \<and> w \<in> snd ` set toks then (word_entries env st w)(DocId doc \<mapsto> stored_entry (occurrences w toks)) else word_entries env st w) \<and>
    (e = None \<longrightarrow> GetDocumentByID (ix_kv env) js (ix_db st') (DocId doc) = Inr doc)"
proof (cases "SaveDocument (ix_kv env) (ix_json env) (ix_db st) doc")
  case (Inl e)
  then show ?thesis using ok wf by (auto simp: store_page_def)
next
  case (Inr db1)
  let ?kv = "ix_kv env"
  have kv: "pebble_laws ?kv" using laws by (simp add: indexer_laws_def)
  have a1: "agree_off [''doc:''] ?kv (ix_db st) db1" by (rule agree_SaveDocument [OF kv Inr])
  have json: "\<forall>p b. ix_json env p = Some b \<longrightarrow> js b = Some p" using laws by (simp add: indexer_laws_def)
  have doc1: "GetDocumentByID ?kv js db1 (DocId doc) = Inr doc"
    using Inr d json by (auto simp: SaveDocument_def documentToBytes_def GetDocumentByID_def bytesToDocument_def get_set [OF kv] split: option.splits)
  have wf1: "wf_word ?kv db1 w" and e1: "entry_of ?kv db1 w = entry_of ?kv (ix_db st) w"
    using word_entries_agree [OF a1] wf by simp_all
  let ?es = "word_range env (dw_stem dw)"
  have mset: "mset ?es = mset (dw_stem dw)" using laws by (simp add: indexer_laws_def)
  then have set: "set ?es = set (dw_stem dw)" by (metis set_mset_mset)
  have stem: "(v, f) \<in> set (dw_stem dw) \<longleftrightarrow> occurrences v toks \<noteq> [] \<and> f = int (length (occurrences v toks))" for v f
    using dw map_of_eq_Some_iff [of "dw_stem dw" v f] by (auto simp: counts_tokens_def split: if_splits)
  have pos: "dw_pos dw v = occurrences v toks" for v using dw by (simp add: counts_tokens_def)
  have "\<forall>(v, f) \<in> set ?es. f = int (length (dw_pos dw v)) \<and> \<not> prefix (w @ ''_'') v"
    using under by (force simp: set stem pos occurrences_iff)
  then obtain db2 where db2: "IndexDocumentWords ?kv db1 (DocId doc) ?es (dw_pos dw) = Inr db2" "wf_word ?kv db2 w"
    "entry_of ?kv db2 w = (if w \<in> fst ` set ?es then (entry_of ?kv db1 w)(DocId doc \<mapsto> stored_entry (dw_pos dw w)) else entry_of ?kv db1 w)"
    using index_words [OF kv d wf1] by blast
  have a2: "agree_off [''ri:''] ?kv db1 db2" by (rule agree_IndexDocumentWords [OF kv db2(1)])
  have "w \<in> fst ` set ?es \<longleftrightarrow> (\<exists>f. (w, f) \<in> set (dw_stem dw))" unfolding set by force
  then have mem: "w \<in> fst ` set ?es \<longleftrightarrow> w \<in> snd ` set toks" by (simp add: stem occurrences_iff)
  let ?ng = "(ix_ng st)\<lparr>ng_db := db2\<rparr>"
  have "word_lru.inv ?kv M ((ix_ng st)\<lparr>ng_db := db1\<rparr>)"
    by (rule index_inv_agree [of "[''doc:'']"]) (use ok a1 in \<open>simp_all add: index_ok_def ix_db_def\<close>)
  then have inv: "word_lru.inv ?kv M ?ng"
    using index_inv_agree [of "[''ri:'']" ?kv "(ix_ng st)\<lparr>ng_db := db1\<rparr>" db2 M] a2 by simp
  moreover have "finite (dom M)" using ok by (simp add: index_ok_def word_lru.inv_def ids_ok_def)
  ultimately obtain ng' M' where ng': "IndexTriGrams ?kv lru_Get lru_Put ?ng (allWordTokens dw) = Inr ng'" "word_lru.inv ?kv M' ng'" "dom M' \<subseteq> dom M \<union> set (allWordTokens dw)"
    using word_lru.IndexTriGrams_ok [OF kv inv room _ lower] by fastforce
  have a3: "agree_off [''word:'', ''num:''] ?kv db2 (ng_db ng')" using agree_IndexTriGrams [OF kv ng'(1)] by simp
  have freqs: "wf_freqs ?kv (ng_db ng')"
    using ok wf_freqs_agree [OF a1] wf_freqs_agree [OF a2] wf_freqs_agree [OF a3] by (simp add: index_ok_def)
  have "store_page env st doc dw = Inr (None, st\<lparr>ix_ng := ng'\<rparr>)"
    using Inr db2(1) ng'(1) laws by (simp add: store_page_def indexer_laws_def)
  moreover have "index_ok env (st\<lparr>ix_ng := ng'\<rparr>) M'" using freqs ng'(2) by (simp add: index_ok_def ix_db_def)
  moreover have "wf_word ?kv (ng_db ng') w" "entry_of ?kv (ng_db ng') w = entry_of ?kv db2 w"
    using word_entries_agree [OF a3] db2(2) by simp_all
  moreover have "GetDocumentByID ?kv js (ng_db ng') (DocId doc) = Inr doc"
    using documents_agree [OF a2] documents_agree [OF a3] doc1 by simp
  ultimately show ?thesis using db2(3) e1 mem pos ng'(3)
    by (intro exI [of _ None] exI [of _ "st\<lparr>ix_ng := ng'\<rparr>"] exI [of _ M']) (auto simp: word_entries_def ix_db_def)
qed

text \<open>What a page does to the entries of a word, given the error of the handler.\<close>

definition page_effect :: "('db, (string, u32) LRUCache) indexer_env \<Rightarrow> (bytes \<Rightarrow> (bytes \<times> string \<times> int) option) \<Rightarrow>
    ('db, (string, u32) LRUCache) indexer_state \<Rightarrow> Document \<Rightarrow> (byte \<times> string) list \<Rightarrow> string \<Rightarrow> index_error option \<Rightarrow>
    ('db, (string, u32) LRUCache) indexer_state \<Rightarrow> bool" where
  "page_effect env js st doc toks w e st' \<longleftrightarrow>
     wf_word (ix_kv env) (ix_db st') w \<and>
     word_entries env st' w = (if e = None \<and> w \<in> snd ` set toks then (word_entries env st w)(DocId doc \<mapsto> stored_entry (occurrences w toks)) else word_entries env st w) \<and>
     (e = None \<longrightarrow> GetDocumentByID (ix_kv env) js (ix_db st') (DocId doc) = Inr (doc\<lparr>TokenCount := int (length toks)\<rparr>))"

lemma HandleDocumentWords_ok:
  assumes laws: "indexer_laws env js" and ok: "index_ok env st M" and room: "card (dom M \<union> set (page_words env ps)) + 1 < 2 ^ 32"
    and types: "\<forall>p \<in> set ps. PType p = BodyType \<or> PType p = HeaderType" and d: "length (DocId doc) = 32"
    and wf: "wf_word (ix_kv env) (ix_db st) w" and under: "\<forall>(t, v) \<in> set (page_tokens env ps). \<not> prefix (w @ ''_'') v"
  shows "\<exists>e pr' st' M'. HandleDocumentWords env st doc f pr ps = Inr ((e, pr'), st') \<and> index_ok env st' M' \<and>
    page_effect env js st doc (page_tokens env ps) w e st' \<and> dom M' \<subseteq> dom M \<union> set (page_words env ps)"
proof -
  let ?kv = "ix_kv env" and ?toks = "page_tokens env ps"
  have kv: "pebble_laws ?kv" using laws by (simp add: indexer_laws_def)
  obtain dw where dw: "doc_words_of env ps = Inr dw" "allWordTokens dw = page_words env ps" "counts_tokens dw ?toks"
    using doc_words_of_counts [OF types] by blast
  have count: "dw_i dw = int (length ?toks)" using dw(3) by (simp add: counts_tokens_def)
  let ?skip = "skip_page env f dw" and ?doc = "doc\<lparr>TokenCount := dw_i dw\<rparr>"
  show ?thesis
  proof (cases "check_similar env ?skip (ix_signs st) (allWordTokens dw)")
    case (Inl e)
    then show ?thesis using ok wf by (auto simp: HandleDocumentWords_def dw(1) Let_def page_effect_def)
  next
    case (Inr r)
    obtain sim files where r: "r = (sim, files)" by (cases r)
    have "mset (pair_range env (bigrams_of (allWordTokens dw))) = mset (bigrams_of (allWordTokens dw))"
      using laws by (simp add: indexer_laws_def)
    then obtain db where db: "UpdateBiFreq ?kv (ix_db st) (pair_range env (bigrams_of (allWordTokens dw))) = Inr db" "wf_freqs ?kv db"
      using UpdateBiFreq_ok [OF kv] ok unfolding index_ok_def by blast
    have a: "agree_off [''big:''] ?kv (ix_db st) db" by (rule agree_UpdateBiFreq [OF kv db(1)])
    let ?st1 = "(set_db st db)\<lparr>ix_signs := files\<rparr>"
    have st1: "ix_db ?st1 = db" by (simp add: ix_db_def set_db_def)
    have "word_lru.inv ?kv M ((ix_ng st)\<lparr>ng_db := db\<rparr>)"
      by (rule index_inv_agree [of "[''big:'']"]) (use ok a in \<open>simp_all add: index_ok_def ix_db_def\<close>)
    then have ok1: "index_ok env ?st1 M" using db(2) st1 by (simp add: index_ok_def)
    have wf1: "wf_word ?kv (ix_db ?st1) w" and e1: "word_entries env ?st1 w = word_entries env st w"
      using word_entries_agree [OF a] wf by (simp_all add: word_entries_def st1)
    show ?thesis
    proof (cases ?skip)
      case True
      then have "HandleDocumentWords env st doc f pr ps = Inr ((Some SkippedByModel, pr), ?st1)"
        using Inr r db(1) by (simp add: HandleDocumentWords_def dw(1) Let_def)
      then show ?thesis using ok1 wf1 e1 by (auto simp: page_effect_def)
    next
      case False
      have "\<forall>v \<in> set (allWordTokens dw). lower_word v" using page_words_lower [OF laws] dw(2) by simp
      then obtain e st2 M' where st2: "store_page env ?st1 ?doc dw = Inr (e, st2)" "index_ok env st2 M'" "dom M' \<subseteq> dom M \<union> set (allWordTokens dw)" "wf_word ?kv (ix_db st2) w"
        "word_entries env st2 w = (if e = None \<and> w \<in> snd ` set ?toks then (word_entries env ?st1 w)(DocId ?doc \<mapsto> stored_entry (occurrences w ?toks)) else word_entries env ?st1 w)"
        "e = None \<longrightarrow> GetDocumentByID ?kv js (ix_db st2) (DocId ?doc) = Inr ?doc"
        using store_page_ok [OF laws ok1 _ _ dw(3) _ wf1 under, of ?doc] room dw(2) d by auto
      have "\<exists>pr'. HandleDocumentWords env st doc f pr ps = Inr ((e, pr'), st2)"
        using False Inr r db(1) st2(1) by (auto simp: HandleDocumentWords_def dw(1) Let_def split: option.splits)
      moreover have "page_effect env js st doc ?toks w e st2" using st2(4-6) e1 count by (simp add: page_effect_def)
      ultimately show ?thesis using st2(2,3) dw(2) by auto
    qed
  qed
qed

lemma HandleDocumentWords_accepts:
  assumes "HandleDocumentWords env st doc f pr ps = Inr ((e, pr'), st')" "doc_words_of env ps = Inr dw"
    and "\<not> skip_page env f dw" "check_similar env False (ix_signs st) (allWordTokens dw) = Inr r"
    and "ix_json env (DocId doc, DocURL doc, dw_i dw) \<noteq> None"
  shows "e = None"
proof -
  let ?doc = "doc\<lparr>TokenCount := dw_i dw\<rparr>"
  have saved: "\<exists>b. SaveDocument (ix_kv env) (ix_json env) db ?doc = Inr (db_set (ix_kv env) db (''doc:'' @ raw (DocId doc)) b)" for db
    using assms(5) by (auto simp: SaveDocument_def documentToBytes_def split: option.splits)
  have "e1 = None" if h: "store_page env st1 ?doc dw = Inr (e1, st2)" for st1 e1 st2
  proof -
    obtain b where "SaveDocument (ix_kv env) (ix_json env) (ix_db st1) ?doc = Inr (db_set (ix_kv env) (ix_db st1) (''doc:'' @ raw (DocId doc)) b)"
      using saved by blast
    then show ?thesis using h by (auto simp: store_page_def map_sum_Inr split: sum.splits)
  qed
  then show ?thesis using assms(1-4) by (auto simp: HandleDocumentWords_def Let_def split: sum.splits prod.splits option.splits if_splits)
qed

section \<open>Properties\<close>

text \<open>
  C7: indexing a page end to end, from its text to the database: the handler does not panic and keeps the index
  consistent; if it accepts the page, every token of the page, and no other, is found under the page, at exactly
  the positions where it occurs (as far as they are stored), with the entries of all other pages unchanged, and
  the page's record has the number of its tokens; if it refuses the page, the entries of every word are as before.
\<close>

theorem page_indexed:
  assumes "indexer_laws env js" "index_ok env st M" "card (dom M \<union> set (page_words env ps)) + 1 < 2 ^ 32"
    and "\<forall>p \<in> set ps. PType p = BodyType \<or> PType p = HeaderType" "length (DocId doc) = 32"
    and "wf_word (ix_kv env) (ix_db st) w" "\<forall>(t, v) \<in> set (page_tokens env ps). \<not> prefix (w @ ''_'') v"
    and "GetDocumentsByWord (ix_kv env) (ix_db st) w = Inr (Inr m)"
  shows "\<exists>e pr' st' M'. HandleDocumentWords env st doc f pr ps = Inr ((e, pr'), st') \<and> index_ok env st' M' \<and>
    GetDocumentsByWord (ix_kv env) (ix_db st') w =
      Inr (Inr (if e = None \<and> w \<in> snd ` set (page_tokens env ps) then m(DocId doc \<mapsto> stored_entry (occurrences w (page_tokens env ps))) else m)) \<and>
    (e = None \<longrightarrow> GetDocumentByID (ix_kv env) js (ix_db st') (DocId doc) = Inr (doc\<lparr>TokenCount := int (length (page_tokens env ps))\<rparr>))"
proof -
  have kv: "pebble_laws (ix_kv env)" using assms(1) by (simp add: indexer_laws_def)
  have m: "m = word_entries env st w" using GetDocumentsByWord_wf [OF kv assms(6)] assms(8) by (simp add: word_entries_def)
  obtain e pr' st' M' where h: "HandleDocumentWords env st doc f pr ps = Inr ((e, pr'), st')" "index_ok env st' M'"
    "page_effect env js st doc (page_tokens env ps) w e st'" using HandleDocumentWords_ok [OF assms(1-7)] by blast
  have "wf_word (ix_kv env) (ix_db st') w" using h(3) by (simp add: page_effect_def)
  then show ?thesis using h GetDocumentsByWord_wf [OF kv] m by (auto simp: page_effect_def word_entries_def)
qed

text \<open>A concrete indexer with an empty index.\<close>

definition demo_stemmer :: EnglishStemmer where
  "demo_stemmer = NewEnglishStemmer (newTokenizer no_match no_match no_match)"

definition demo_page_doc :: Document where
  "demo_page_doc = \<lparr>DocId = replicate 32 7, DocURL = ''https://go.dev/'', TokenCount = 0\<rparr>"

text \<open>The JSON of this one document: as many bytes as it has tokens.\<close>

definition demo_to_json :: "bytes \<times> string \<times> int \<Rightarrow> bytes option" where
  "demo_to_json p = (case p of (d, u, n) \<Rightarrow>
     if d = DocId demo_page_doc \<and> u = DocURL demo_page_doc \<and> 0 \<le> n then Some (replicate (nat n) 1) else None)"

definition demo_from_json :: "bytes \<Rightarrow> (bytes \<times> string \<times> int) option" where
  "demo_from_json b = Some (DocId demo_page_doc, DocURL demo_page_doc, int (length b))"

lemma demo_json_inverse: "demo_to_json p = Some b \<Longrightarrow> demo_from_json b = Some p"
  by (auto simp: demo_to_json_def demo_from_json_def split: prod.splits if_splits)

definition demo_indexer :: "((string \<times> bytes) list, (string, u32) LRUCache) indexer_env" where
  "demo_indexer = \<lparr>ix_kv = list_db, ix_unicode = ascii, ix_stemmer = demo_stemmer, ix_minHash = \<lparr>mh_a = replicate 128 1, mh_b = replicate 128 0\<rparr>,
     ix_cget = lru_Get, ix_cput = lru_Put, ix_json = demo_to_json, Scale1D = id, Predict = (\<lambda>_. Fin 1), ix_maxTypo = 2,
     to_runes = map of_char, of_runes = map char_of, word_range = id, pair_range = id, gram_range = (\<lambda>w. [])\<rparr>"

definition demo_empty :: "((string \<times> bytes) list, (string, u32) LRUCache) indexer_state" where
  "demo_empty = \<lparr>ix_ng = demo_index, ix_signs = (\<lambda>_. None)\<rparr>"

lemma demo_laws: "indexer_laws demo_indexer demo_from_json"
proof -
  have "\<forall>rule \<in> set (newTokenizer no_match no_match no_match). regex_law rule \<and> TokenType rule \<noteq> WORD"
    by (simp add: newTokenizer_def regex_law_def no_match_def)
  moreover have "iterates demo_stemmer demo_stemmer" by (simp add: iterates_def)
  ultimately show ?thesis
    using demo_json_inverse list_db_laws ascii_laws by (auto simp: indexer_laws_def demo_indexer_def demo_stemmer_def)
qed

lemma demo_ok: "index_ok demo_indexer demo_empty Map.empty"
proof -
  have "word_lru.inv list_db Map.empty demo_index" unfolding demo_index_def
    by (rule empty_index_inv) (simp_all add: list_db_def)
  then show ?thesis
    by (simp add: index_ok_def demo_empty_def demo_indexer_def ix_db_def demo_index_def empty_index_def wf_freqs_def list_db_def)
qed

definition demo_feats :: CrawlFeatures where
  "demo_feats = \<lparr>DomDepth = 1, TagCount = 2, UrlLen = 15, UrlCount = 1, PathLen = 1, HostLen = 6\<rparr>"

definition demo_passages :: "Passage list" where
  "demo_passages = [\<lparr>PText = ''The cats'', PType = HeaderType\<rparr>, \<lparr>PText = ''2 jumping cats'', PType = BodyType\<rparr>]"

lemma demo_page:
  "page_tokens demo_indexer demo_passages = [(HeaderType, ''cat''), (BodyType, ''2''), (BodyType, ''jump''), (BodyType, ''cat'')]"
  "page_words demo_indexer demo_passages = [''cats'', ''jumping'', ''cats'']"
proof -
  have env: "ix_unicode demo_indexer = ascii" "ix_stemmer demo_indexer = demo_stemmer" by (simp_all add: demo_indexer_def)
  have one: "fst (TokenizeAndStem ascii demo_stemmer ''The cats'') = [''cats'']" "map Value (snd (TokenizeAndStem ascii demo_stemmer ''The cats'')) = [''cat'']"
    by code_simp+
  have two: "fst (TokenizeAndStem ascii demo_stemmer ''2 jumping cats'') = [''jumping'', ''cats'']"
    "map Value (snd (TokenizeAndStem ascii demo_stemmer ''2 jumping cats'')) = [''2'', ''jump'', ''cat'']" by code_simp+
  have all: "passage_tokens demo_indexer p = map (Pair (PType p)) (filter (\<lambda>v. length v \<le> 64) (map Value (snd (TokenizeAndStem ascii demo_stemmer (PText p)))))" for p
    by (simp add: passage_tokens_def env filter_map comp_def)
  show "page_tokens demo_indexer demo_passages = [(HeaderType, ''cat''), (BodyType, ''2''), (BodyType, ''jump''), (BodyType, ''cat'')]"
    by (simp add: page_tokens_def demo_passages_def all one two)
  have "snd (TokenizeAndStem ascii demo_stemmer ''The cats'') \<noteq> []" "snd (TokenizeAndStem ascii demo_stemmer ''2 jumping cats'') \<noteq> []"
    using one(2) two(2) by auto
  then show "page_words demo_indexer demo_passages = [''cats'', ''jumping'', ''cats'']"
    by (simp add: page_words_def passage_words_def demo_passages_def env case_prod_beta one two)
qed

lemma demo_facts:
  "ix_kv demo_indexer = list_db" "ix_db demo_empty = []" "DocId demo_page_doc = replicate 32 7" "length (DocId demo_page_doc) = 32"
  "\<forall>p \<in> set demo_passages. PType p = BodyType \<or> PType p = HeaderType"
  by (simp_all add: demo_indexer_def demo_empty_def demo_index_def empty_index_def ix_db_def demo_page_doc_def demo_passages_def)

lemma demo_room: "card (dom (Map.empty :: string \<rightharpoonup> u32) \<union> set (page_words demo_indexer demo_passages)) + 1 < 2 ^ 32"
  using card_length [of "[''cats'', ''jumping'', ''cats'']"] by (simp add: demo_page)

lemma demo_cat:
  "wf_word (ix_kv demo_indexer) (ix_db demo_empty) ''cat''" "\<forall>(t, v) \<in> set (page_tokens demo_indexer demo_passages). \<not> prefix (''cat'' @ ''_'') v"
  "occurrences ''cat'' (page_tokens demo_indexer demo_passages) = [\<lparr>I = 0, Type = HeaderType\<rparr>, \<lparr>I = 3, Type = BodyType\<rparr>]"
  using empty_db_wf by (simp_all add: demo_facts demo_page occurrences_def)

lemma demo_handled:
  "\<exists>pr' st'. HandleDocumentWords demo_indexer demo_empty demo_page_doc f (Fin 1) demo_passages = Inr ((None, pr'), st')"
proof -
  obtain e pr' st' where h: "HandleDocumentWords demo_indexer demo_empty demo_page_doc f (Fin 1) demo_passages = Inr ((e, pr'), st')"
    using HandleDocumentWords_ok [OF demo_laws demo_ok demo_room demo_facts(5,4) demo_cat(1,2), of f "Fin 1"] by blast
  obtain dw where dw: "doc_words_of demo_indexer demo_passages = Inr dw" "allWordTokens dw = page_words demo_indexer demo_passages"
    "counts_tokens dw (page_tokens demo_indexer demo_passages)"
    using doc_words_of_counts [OF demo_facts(5)] by blast
  then have "dw_i dw = 4" by (simp add: counts_tokens_def demo_page)
  then have "ix_json demo_indexer (DocId demo_page_doc, DocURL demo_page_doc, dw_i dw) \<noteq> None" by (simp add: demo_indexer_def demo_to_json_def)
  moreover have "\<not> skip_page demo_indexer f dw" by (simp add: skip_page_def demo_indexer_def)
  moreover have "check_similar demo_indexer False (ix_signs demo_empty) (allWordTokens dw) = Inr (0, ix_signs demo_empty)"
    by (simp add: check_similar_def dw(2) demo_page)
  ultimately have "e = None" using HandleDocumentWords_accepts [OF h dw(1)] by blast
  then show ?thesis using h by blast
qed

theorem page_indexed_witness:
  "\<exists>pr' st'. HandleDocumentWords demo_indexer demo_empty demo_page_doc demo_feats (Fin 1) demo_passages = Inr ((None, pr'), st') \<and>
     GetDocumentsByWord list_db (ix_db st') ''cat'' =
       Inr (Inr [replicate 32 7 \<mapsto> stored_entry [\<lparr>I = 0, Type = HeaderType\<rparr>, \<lparr>I = 3, Type = BodyType\<rparr>]]) \<and>
     GetDocumentByID list_db demo_from_json (ix_db st') (replicate 32 7) = Inr (demo_page_doc\<lparr>TokenCount := 4\<rparr>)"
proof -
  have "GetDocumentsByWord (ix_kv demo_indexer) (ix_db demo_empty) ''cat'' = Inr (Inr Map.empty)"
    using empty_db_lookup by (simp add: demo_facts)
  from page_indexed [OF demo_laws demo_ok demo_room demo_facts(5,4) demo_cat(1,2) this, of demo_feats "Fin 1"] demo_handled [of demo_feats]
  show ?thesis by (auto simp: demo_facts(1-4) demo_cat(3) [unfolded demo_page] demo_page)
qed

end
