(* ===== verification/Query.thy ===== *)
theory Query
  imports PageIndex
begin

text \<open>
  What \<open>HandleTextQuery\<close> answers: its two lists belong together, known words are looked up as they are, and a
  page just indexed is found by every query made of its tokens.
\<close>

section \<open>Lemmas\<close>

text \<open>What an entry of the answer is: the documents of the token, or of the two halves it was split into.\<close>

definition answers :: "('db, 's) indexer_env \<Rightarrow> ('db, 's) indexer_state \<Rightarrow> string \<Rightarrow> doc_entries \<Rightarrow> bool" where
  "answers env st w d \<longleftrightarrow>
     (\<exists>docs. lookup_word env st w = Inr (Inr docs) \<and>
        (d = docs \<or> (\<exists>w2 docs2. lookup_word env st w2 = Inr (Inr docs2) \<and> d = merge_docs docs docs2)))"

definition aligned :: "('db, 's) indexer_env \<Rightarrow> ('db, 's) indexer_state \<Rightarrow> query_state \<Rightarrow> bool" where
  "aligned env st q \<longleftrightarrow> list_all2 (answers env st) (q_tokens q) (reverthIndex q)"

lemma correct_word_keeps:
  "correct_word env st q = Inr (Inr (q', r)) \<Longrightarrow> q_tokens q' = q_tokens q \<and> reverthIndex q' = reverthIndex q \<and>
   (\<forall>t d. r = Some (t, d) \<longrightarrow> answers env st (Value t) d)"
  unfolding correct_word_def Let_def
  by (auto simp: answers_def split: if_splits sum.splits list.splits)

lemma query_step_aligned:
  assumes "query_step env st q t = Inr (Inr q')" "aligned env st q"
  shows "aligned env st q' \<and> length (q_tokens q') \<le> length (q_tokens q) + 1"
proof -
  obtain docs where docs: "lookup_word env st (Value t) = Inr (Inr docs)"
    using assms(1) by (auto simp: query_step_def split: sum.splits)
  show ?thesis
  proof (cases "docs = Map.empty \<and> TType t = WORD")
    case True
    then obtain q1 r where c: "correct_word env st q = Inr (Inr (q1, r))"
      using assms(1) docs by (auto simp: query_step_def Let_def split: sum.splits)
    note k = correct_word_keeps [OF c]
    show ?thesis
    proof (cases r)
      case None
      then show ?thesis using assms True docs c k by (auto simp: query_step_def aligned_def)
    next
      case (Some td)
      obtain t1 d where "td = (t1, d)" by (cases td)
      then show ?thesis using assms True docs c k Some by (auto simp: query_step_def aligned_def Let_def intro!: list_all2_appendI)
    qed
  next
    case False
    have "answers env st (Value t) docs" using docs by (simp add: answers_def)
    then show ?thesis using assms docs False by (auto simp: query_step_def aligned_def Let_def intro!: list_all2_appendI split: if_splits)
  qed
qed

lemma answer_loop_aligned:
  "answer_loop env st q ts = Inr (Inr q') \<Longrightarrow> aligned env st q \<Longrightarrow>
   aligned env st q' \<and> length (q_tokens q') \<le> length (q_tokens q) + length ts"
proof (induction ts arbitrary: q)
  case (Cons t ts)
  obtain q1 where q1: "query_step env st q t = Inr (Inr q1)" "answer_loop env st q1 ts = Inr (Inr q')"
    using Cons.prems(1) by (auto split: sum.splits)
  show ?case using Cons.IH [OF q1(2)] query_step_aligned [OF q1(1) Cons.prems(2)] by auto
qed simp

lemma answer_loop_known:
  "\<forall>t \<in> set ts. lookup_word env st (Value t) = Inr (Inr (E (Value t))) \<and> (TType t = WORD \<longrightarrow> E (Value t) \<noteq> Map.empty) \<Longrightarrow>
   \<exists>n. answer_loop env st q ts =
     Inr (Inr (q\<lparr>q_wordPos := n, q_tokens := q_tokens q @ map Value ts, reverthIndex := reverthIndex q @ map (E \<circ> Value) ts\<rparr>))"
proof (induction ts arbitrary: q)
  case Nil
  show ?case by (intro exI [of _ "q_wordPos q"]) simp
next
  case (Cons t ts)
  let ?q = "q\<lparr>q_wordPos := (if TType t = WORD then q_wordPos q + 1 else q_wordPos q), q_tokens := q_tokens q @ [Value t], reverthIndex := reverthIndex q @ [E (Value t)]\<rparr>"
  have "query_step env st q t = Inr (Inr ?q)" using Cons.prems by (auto simp: query_step_def Let_def)
  then show ?case using Cons.IH [of ?q] Cons.prems by auto
qed

lemma lookup_word_wf: "pebble_laws (ix_kv env) \<Longrightarrow> wf_word (ix_kv env) (ix_db st) w \<Longrightarrow> lookup_word env st w = Inr (Inr (word_entries env st w))"
  by (simp add: lookup_word_def word_entries_def GetDocumentsByWord_wf)

lemma known_query:
  assumes "TokenizeAndStem (ix_unicode env) (ix_stemmer env) txt = (ws, toks)" "toks \<noteq> []" "pebble_laws (ix_kv env)"
    and "\<forall>t \<in> set toks. wf_word (ix_kv env) (ix_db st) (Value t) \<and> (TType t = WORD \<longrightarrow> word_entries env st (Value t) \<noteq> Map.empty)"
  shows "HandleTextQuery env st txt = Inr (Inr (map Value toks, map (\<lambda>t. word_entries env st (Value t)) toks))"
proof -
  have "\<forall>t \<in> set toks. lookup_word env st (Value t) = Inr (Inr (word_entries env st (Value t))) \<and> (TType t = WORD \<longrightarrow> word_entries env st (Value t) \<noteq> Map.empty)"
    using assms(3,4) by (simp add: lookup_word_wf)
  from answer_loop_known [OF this, of "\<lparr>q_words = ws, q_lenWords = length ws, q_wordPos = 0, q_tokens = [], reverthIndex = []\<rparr>"]
  show ?thesis using assms(1,2) by (auto simp: HandleTextQuery_def comp_def)
qed

text \<open>A word of a page is found under it.\<close>

definition indexed_under :: "('db, 's) indexer_env \<Rightarrow> ('db, 's) indexer_state \<Rightarrow> bytes \<Rightarrow> (byte \<times> string) list \<Rightarrow> string \<Rightarrow> bool" where
  "indexed_under env st d toks w \<longleftrightarrow> wf_word (ix_kv env) (ix_db st) w \<and> word_entries env st w d = Some (stored_entry (occurrences w toks))"

lemma handled_word:
  assumes laws: "indexer_laws env js" "index_ok env st M" "card (dom M \<union> set (page_words env ps)) + 1 < 2 ^ 32"
    and page: "\<forall>p \<in> set ps. PType p = BodyType \<or> PType p = HeaderType" "length (DocId doc) = 32"
    and handled: "HandleDocumentWords env st doc f pr ps = Inr ((None, pr'), st')"
    and w: "w \<in> snd ` set (page_tokens env ps)" "wf_word (ix_kv env) (ix_db st) w" "\<forall>(ty, v) \<in> set (page_tokens env ps). \<not> prefix (w @ ''_'') v"
  shows "indexed_under env st' (DocId doc) (page_tokens env ps) w"
  using HandleDocumentWords_ok [OF laws page w(2,3), of f pr] handled w(1) by (auto simp: page_effect_def indexed_under_def)

lemma indexed_query:
  assumes "TokenizeAndStem (ix_unicode env) (ix_stemmer env) txt = (ws, toks)" "toks \<noteq> []" "pebble_laws (ix_kv env)"
    and found: "\<And>t. t \<in> set toks \<Longrightarrow> indexed_under env st d ptoks (Value t)"
  shows "\<exists>docs. HandleTextQuery env st txt = Inr (Inr (map Value toks, docs)) \<and>
    list_all2 (\<lambda>t e. e d = Some (stored_entry (occurrences (Value t) ptoks))) toks docs"
proof -
  have "\<forall>t \<in> set toks. wf_word (ix_kv env) (ix_db st) (Value t) \<and> (TType t = WORD \<longrightarrow> word_entries env st (Value t) \<noteq> Map.empty)"
    using found by (fastforce simp: indexed_under_def)
  then have "HandleTextQuery env st txt = Inr (Inr (map Value toks, map (\<lambda>t. word_entries env st (Value t)) toks))"
    using known_query [OF assms(1-3)] by blast
  moreover have "list_all2 (\<lambda>t e. e d = Some (stored_entry (occurrences (Value t) ptoks))) toks (map (\<lambda>t. word_entries env st (Value t)) toks)"
    using found by (simp add: list_all2_map2 list_all2_same indexed_under_def)
  ultimately show ?thesis by blast
qed

section \<open>Properties\<close>

text \<open>
  The two lists of an answer belong together: they have the same length, at most one entry for each token of
  the query, and an entry holds the documents of its token, or, where the word was split in two, those of both.
\<close>

theorem query_lists_aligned:
  assumes "HandleTextQuery env st txt = Inr (Inr (toks, docs))"
  shows "list_all2 (answers env st) toks docs \<and>
    length toks \<le> length (snd (TokenizeAndStem (ix_unicode env) (ix_stemmer env) txt))"
proof -
  obtain ws ts where t: "TokenizeAndStem (ix_unicode env) (ix_stemmer env) txt = (ws, ts)" by (cases "TokenizeAndStem (ix_unicode env) (ix_stemmer env) txt")
  let ?q = "\<lparr>q_words = ws, q_lenWords = length ws, q_wordPos = 0, q_tokens = [], reverthIndex = []\<rparr>"
  obtain q where q: "answer_loop env st ?q ts = Inr (Inr q)" "toks = q_tokens q" "docs = reverthIndex q"
  proof (cases "answer_loop env st ?q ts")
    case (Inr r)
    then show thesis using assms t that by (cases r) (auto simp: HandleTextQuery_def split: if_splits)
  qed (use assms t in \<open>auto simp: HandleTextQuery_def split: if_splits\<close>)
  have "aligned env st ?q" by (simp add: aligned_def)
  from answer_loop_aligned [OF q(1) this] show ?thesis using q(2,3) t by (simp add: aligned_def)
qed

lemma demo_number:
  "HandleTextQuery demo_indexer demo_empty ''2'' = Inr (Inr ([''2''], [Map.empty]))"
proof -
  have env: "ix_unicode demo_indexer = ascii" "ix_stemmer demo_indexer = demo_stemmer" by (simp_all add: demo_indexer_def)
  obtain t where t: "TokenizeAndStem ascii demo_stemmer ''2'' = ([], [t])" "Value t = ''2''" "TType t = NUMBER"
  proof
    show "TokenizeAndStem ascii demo_stemmer ''2'' = ([], [\<lparr>TType = NUMBER, Value = ''2'', startPos = 0, endPos = 1\<rparr>])" by code_simp
  qed simp_all
  have "word_entries demo_indexer demo_empty ''2'' = Map.empty"
    by (simp add: word_entries_def demo_facts entry_of_def list_db_def fun_eq_iff)
  then show ?thesis using known_query [of demo_indexer "''2''" "[]" "[t]" demo_empty] t empty_db_wf list_db_laws by (simp add: env demo_facts)
qed

theorem query_lists_aligned_witness:
  "list_all2 (answers demo_indexer demo_empty) [''2''] [Map.empty] \<and>
   length [''2''] \<le> length (snd (TokenizeAndStem (ix_unicode demo_indexer) (ix_stemmer demo_indexer) ''2''))"
  by (rule query_lists_aligned [OF demo_number])

text \<open>
  From the text of a page to the answer of a query: if the indexer accepts a page, then every query whose
  tokens all occur in the page is answered, uncorrected, with one entry for each of its tokens, and each entry
  has the page, with the occurrences of the token in it.
\<close>

theorem page_answers_query:
  assumes laws: "indexer_laws env js" "index_ok env st M" "card (dom M \<union> set (page_words env ps)) + 1 < 2 ^ 32"
    and page: "\<forall>p \<in> set ps. PType p = BodyType \<or> PType p = HeaderType" "length (DocId doc) = 32"
    and handled: "HandleDocumentWords env st doc f pr ps = Inr ((None, pr'), st')"
    and query: "TokenizeAndStem (ix_unicode env) (ix_stemmer env) txt = (ws, toks)" "toks \<noteq> []" "Value ` set toks \<subseteq> snd ` set (page_tokens env ps)"
    and words: "\<forall>t \<in> set toks. wf_word (ix_kv env) (ix_db st) (Value t) \<and> (\<forall>(ty, v) \<in> set (page_tokens env ps). \<not> prefix (Value t @ ''_'') v)"
  shows "\<exists>docs. HandleTextQuery env st' txt = Inr (Inr (map Value toks, docs)) \<and>
    list_all2 (\<lambda>t d. d (DocId doc) = Some (stored_entry (occurrences (Value t) (page_tokens env ps)))) toks docs"
proof -
  have "pebble_laws (ix_kv env)" using laws(1) by (simp add: indexer_laws_def)
  moreover have "indexed_under env st' (DocId doc) (page_tokens env ps) (Value t)" if "t \<in> set toks" for t
    by (rule handled_word [OF laws page handled]) (use query(3) words that in auto)
  ultimately show ?thesis by (rule indexed_query [OF query(1,2)])
qed

lemma demo_query:
  "\<exists>t. TokenizeAndStem (ix_unicode demo_indexer) (ix_stemmer demo_indexer) ''cats'' = ([''cats''], [t]) \<and> Value t = ''cat''"
proof -
  have "TokenizeAndStem ascii demo_stemmer ''cats'' = ([''cats''], [\<lparr>TType = WORD, Value = ''cat'', startPos = 0, endPos = 0\<rparr>])" by code_simp
  then show ?thesis by (simp add: demo_indexer_def)
qed

theorem page_answers_query_witness:
  "\<exists>pr' st' d. HandleDocumentWords demo_indexer demo_empty demo_page_doc demo_feats (Fin 1) demo_passages = Inr ((None, pr'), st') \<and>
     HandleTextQuery demo_indexer st' ''cats'' = Inr (Inr ([''cat''], [d])) \<and>
     d (replicate 32 7) = Some (stored_entry [\<lparr>I = 0, Type = HeaderType\<rparr>, \<lparr>I = 3, Type = BodyType\<rparr>])"
proof -
  obtain t where t: "TokenizeAndStem (ix_unicode demo_indexer) (ix_stemmer demo_indexer) ''cats'' = ([''cats''], [t])" "Value t = ''cat''"
    using demo_query by blast
  obtain pr' st' where h: "HandleDocumentWords demo_indexer demo_empty demo_page_doc demo_feats (Fin 1) demo_passages = Inr ((None, pr'), st')"
    using demo_handled by blast
  have "Value ` set [t] \<subseteq> snd ` set (page_tokens demo_indexer demo_passages)" by (simp add: t(2) demo_page)
  moreover have "\<forall>t \<in> set [t]. wf_word (ix_kv demo_indexer) (ix_db demo_empty) (Value t) \<and>
      (\<forall>(ty, v) \<in> set (page_tokens demo_indexer demo_passages). \<not> prefix (Value t @ ''_'') v)" using demo_cat(1,2) by (simp add: t(2))
  ultimately obtain docs where "HandleTextQuery demo_indexer st' ''cats'' = Inr (Inr (map Value [t], docs))"
    "list_all2 (\<lambda>t d. d (DocId demo_page_doc) = Some (stored_entry (occurrences (Value t) (page_tokens demo_indexer demo_passages)))) [t] docs"
    using page_answers_query [OF demo_laws demo_ok demo_room demo_facts(5,4) h t(1)] by blast
  then show ?thesis using h by (auto simp: list_all2_Cons1 t(2) demo_cat(3) demo_facts)
qed

end
