(* ===== verification/UrlHandling.thy ===== *)
theory UrlHandling
  imports GoStrings Model
begin

text \<open>
  Links (\<open>scraper/urlHandling.go\<close>, \<open>resetUrl\<close> of \<open>sitemapHandling.go\<close>). Parsing, resolving and printing of
  URLs belong to \<open>net/url\<close> and are the record \<open>url_lib\<close>.
\<close>

record url_lib =
  url_Parse :: "string \<Rightarrow> go_url option"
  ResolveReference :: "go_url \<Rightarrow> go_url \<Rightarrow> go_url"
  url_String :: "go_url \<Rightarrow> string"
  encode_query :: "string \<Rightarrow> string"
  query_values :: "string \<Rightarrow> string \<Rightarrow> string list"
  path_Ext :: "string \<Rightarrow> string"

datatype url_error = EmptyUrl | IgnoredUrl | ParseError | InvalidScheme string

definition makeAbsoluteURL :: "url_lib \<Rightarrow> string \<Rightarrow> go_url \<Rightarrow> url_error + string" where
  "makeAbsoluteURL lib raw baseURL =
     (let rawURL = trim_space raw in
      if rawURL = [] then Inl EmptyUrl
      else if has_prefix rawURL ''#'' \<or> has_prefix (to_lower rawURL) ''javascript:'' then Inl IgnoredUrl
      else case url_Parse lib rawURL of
        None \<Rightarrow> Inl ParseError
      | Some u \<Rightarrow>
          let resolved = (ResolveReference lib baseURL u)\<lparr>Fragment := []\<rparr> in
          if Scheme resolved \<noteq> ''https'' then Inl (InvalidScheme (Scheme resolved))
          else Inr (url_String lib resolved))"

definition trim_prefix :: "string \<Rightarrow> string \<Rightarrow> string" where
  "trim_prefix s p = (if has_prefix s p then drop (length p) s else s)"

definition trim_end :: "string \<Rightarrow> string \<Rightarrow> string" where
  "trim_end s p = (if has_suffix s p then take (length s - length p) s else s)"

definition normalizeUrl :: "url_lib \<Rightarrow> go_url \<Rightarrow> string" where
  "normalizeUrl lib uri =
     (let host = trim_prefix (to_lower (Hostname uri)) ''www.'';
          path0 = Path uri;
          path1 = (if str_contains path0 ''//'' then str_replace ''//'' ''/'' path0 else path0);
          path2 = trim_end path1 ''/'';
          query = encode_query lib (RawQuery uri)
      in host @ path2 @ (if query \<noteq> [] then ''?'' @ query else []))"

definition isSameOrigin :: "go_url \<Rightarrow> go_url \<Rightarrow> bool" where
  "isSameOrigin rawURL baseURL = str_contains (Hostname baseURL) (Hostname rawURL)"

definition resetUrl :: "go_url \<Rightarrow> string" where
  "resetUrl uri = Scheme uri @ ''://'' @ Hostname uri @ ''/''"

section \<open>Lemmas\<close>

text \<open>The visited map does not tell the scheme, the fragment, the case of the host or a final slash apart.\<close>

lemma to_lower_idem [simp]: "to_lower (to_lower s) = to_lower s"
proof -
  have "to_lower_char (to_lower_char c) = to_lower_char c" for c
  proof (cases "65 \<le> (of_char c :: nat) \<and> (of_char c :: nat) \<le> 90")
    case True
    then have "to_lower_char c = char_of (of_char c + 32 :: nat)" "of_char c + 32 < (256 :: nat)" by (simp_all add: to_lower_char_def)
    then have "of_char (to_lower_char c) = (of_char c + 32 :: nat)" by simp
    then show ?thesis using True by (simp add: to_lower_char_def [of "to_lower_char c"])
  next
    case False
    then have "to_lower_char c = c" unfolding to_lower_char_def by (rule if_not_P)
    then show ?thesis by simp
  qed
  then show ?thesis by (simp add: to_lower_def)
qed

lemma normalizeUrl_scheme: "normalizeUrl lib (uri\<lparr>Scheme := s, Fragment := f, Hostname := to_lower (Hostname uri)\<rparr>) = normalizeUrl lib uri"
  by (simp add: normalizeUrl_def Let_def)

lemma isSameOrigin_iff: "isSameOrigin u b \<longleftrightarrow> sublist (Hostname u) (Hostname b)"
  by (simp add: isSameOrigin_def str_contains_iff)

text \<open>A link to another host counts as the same origin if its name is a part of the base's name.\<close>

lemma other_host_same_origin:
  "isSameOrigin \<lparr>Scheme = ''https'', Hostname = ''ample.com'', Path = [], RawQuery = [], Fragment = []\<rparr>
     \<lparr>Scheme = ''https'', Hostname = ''example.com'', Path = [], RawQuery = [], Fragment = []\<rparr>"
  by (simp add: isSameOrigin_iff sublist_Cons_right)

lemma makeAbsoluteURL_https:
  "makeAbsoluteURL lib raw b = Inr s \<Longrightarrow> \<exists>u. Scheme u = ''https'' \<and> Fragment u = [] \<and> s = url_String lib u"
  by (auto simp: makeAbsoluteURL_def Let_def split: if_splits option.splits intro!: exI [of _ "ResolveReference lib b _\<lparr>Fragment := []\<rparr>"])

end
