(* ===== verification/Robots.thy ===== *)
theory Robots
  imports GoStrings
begin

text \<open>
  The robots.txt parser (\<open>internal/utils/parser/robotsTXT.go\<close>). The download of the file is not modelled.
\<close>

section \<open>Library functions\<close>

text \<open>\<open>strings.Fields\<close>.\<close>

function str_fields :: "string \<Rightarrow> string list" where
  "str_fields s =
     (case dropWhile is_space s of
        [] \<Rightarrow> []
      | c # cs \<Rightarrow> takeWhile (\<lambda>x. \<not> is_space x) (c # cs) # str_fields (dropWhile (\<lambda>x. \<not> is_space x) (c # cs)))"
  by pat_completeness auto
termination
proof (relation "measure length")
  fix s c cs assume eq: "dropWhile is_space s = c # cs"
  then have "\<not> is_space c" using hd_dropWhile [of is_space s] by simp
  then have "length (dropWhile (\<lambda>x. \<not> is_space x) (c # cs)) \<le> length cs" by (simp add: length_dropWhile_le)
  moreover have "length (c # cs) \<le> length s" using length_dropWhile_le [of is_space s] unfolding eq .
  ultimately show "(dropWhile (\<lambda>x. \<not> is_space x) (c # cs), s) \<in> measure length" by simp
qed simp

declare str_fields.simps [simp del]

text \<open>\<open>strconv.Atoi\<close>, without its error: 0 for a syntax error, the nearest bound for a range error.\<close>

definition atoi :: "string \<Rightarrow> int" where
  "atoi s =
     (let neg = (s \<noteq> [] \<and> hd s = CHR ''-''); ds = (if s \<noteq> [] \<and> hd s \<in> {CHR ''-'', CHR ''+''} then tl s else s) in
      if ds = [] \<or> \<not> list_all is_digit ds then 0
      else max (- (2 ^ 63)) (min (2 ^ 63 - 1) (if neg then - digits_value ds else digits_value ds)))"

section \<open>Rules\<close>

record Rule =
  Allow :: "string list"
  Disallow :: "string list"
  Delay :: int

type_synonym RobotsTxt = "string \<rightharpoonup> Rule"

definition empty_rule :: Rule where
  "empty_rule = \<lparr>Allow = [], Disallow = [], Delay = 0\<rparr>"

text \<open>The variables of the loop; \<open>currentRule\<close> points to a rule of its own, the map holds copies.\<close>

record robots_state =
  Rules :: RobotsTxt
  currentRule :: "Rule option"

text \<open>The directive and value of a line; \<open>None\<close> is a line that is skipped.\<close>

definition line_parts :: "string \<Rightarrow> (string \<times> string) option" where
  "line_parts raw =
     (let line = trim_space raw in
      if length line = 0 \<or> has_prefix line ''#'' then None
      else case str_fields line of d # v # _ \<Rightarrow> Some (to_lower d, v) | _ \<Rightarrow> None)"

definition robots_line :: "robots_state \<Rightarrow> string \<Rightarrow> robots_state go" where
  "robots_line st raw =
     (case line_parts raw of
        None \<Rightarrow> Inr st
      | Some (directive, val) \<Rightarrow>
          if directive = ''user-agent:'' then
            (let cur = (if Rules st val = None then Some empty_rule else currentRule st) in
             case cur of
               None \<Rightarrow> Inl NilDereference
             | Some r \<Rightarrow> Inr \<lparr>Rules = (Rules st)(val \<mapsto> r), currentRule = cur\<rparr>)
          else if directive = ''allow:'' then
            Inr (st\<lparr>currentRule := map_option (\<lambda>r. r\<lparr>Allow := Allow r @ [val]\<rparr>) (currentRule st)\<rparr>)
          else if directive = ''disallow:'' then
            Inr (st\<lparr>currentRule := map_option (\<lambda>r. r\<lparr>Disallow := Disallow r @ [val]\<rparr>) (currentRule st)\<rparr>)
          else if directive = ''crawl-delay:'' then
            Inr (st\<lparr>currentRule := map_option (\<lambda>r. r\<lparr>Delay := atoi val\<rparr>) (currentRule st)\<rparr>)
          else Inr st)"

fun robots_lines :: "robots_state \<Rightarrow> string list \<Rightarrow> robots_state go" where
  "robots_lines st [] = Inr st"
| "robots_lines st (l # ls) = (case robots_line st l of Inl p \<Rightarrow> Inl p | Inr st' \<Rightarrow> robots_lines st' ls)"

definition ParseRobotsTxt :: "string \<Rightarrow> RobotsTxt go" where
  "ParseRobotsTxt content =
     map_sum id Rules (robots_lines \<lparr>Rules = Map.empty, currentRule = None\<rparr> (str_split (CHR 0x0A) content))"

definition IsAllowed :: "RobotsTxt \<Rightarrow> string \<Rightarrow> string \<Rightarrow> bool" where
  "IsAllowed r userAgent url =
     (case r userAgent of
        None \<Rightarrow> True
      | Some rule \<Rightarrow>
          if list_ex (has_prefix url) (Disallow rule) then False
          else if list_ex (has_prefix url) (Allow rule) then True
          else True)"

section \<open>Lemmas\<close>

text \<open>The agents named by the file, in order.\<close>

definition agent_of :: "string \<Rightarrow> string list" where
  "agent_of raw = (case line_parts raw of Some (d, v) \<Rightarrow> if d = ''user-agent:'' then [v] else [] | None \<Rightarrow> [])"

definition robots_agents :: "string \<Rightarrow> string list" where
  "robots_agents content = concat (map agent_of (str_split (CHR 0x0A) content))"

text \<open>No line makes the parser panic: the first user-agent line sets \<open>currentRule\<close>.\<close>

definition robots_inv :: "robots_state \<Rightarrow> bool" where
  "robots_inv st \<longleftrightarrow> (Rules st \<noteq> Map.empty \<longrightarrow> currentRule st \<noteq> None)"

lemma robots_line_inv: "robots_inv st \<Longrightarrow> \<exists>st'. robots_line st l = Inr st' \<and> robots_inv st'"
  by (auto simp: robots_line_def robots_inv_def Let_def split: option.splits)

lemma robots_lines_return: "robots_inv st \<Longrightarrow> \<exists>st'. robots_lines st ls = Inr st'"
proof (induction ls arbitrary: st)
  case (Cons l ls)
  then show ?case using robots_line_inv [OF Cons.prems, of l] by auto
qed simp

lemma ParseRobotsTxt_returns: "\<exists>r. ParseRobotsTxt content = Inr r"
  using robots_lines_return [of "\<lparr>Rules = Map.empty, currentRule = None\<rparr>" "str_split (CHR 0x0A) content"]
  by (auto simp: ParseRobotsTxt_def robots_inv_def)

text \<open>An agent that is new gets an empty rule; the other directives do not touch the map.\<close>

lemma robots_line_rules:
  "robots_line st l = Inr st' \<Longrightarrow> set (agent_of l) \<inter> dom (Rules st) = {} \<Longrightarrow>
   dom (Rules st') = dom (Rules st) \<union> set (agent_of l) \<and> (\<forall>a \<in> set (agent_of l). Rules st' a = Some empty_rule) \<and>
   (\<forall>a. a \<notin> set (agent_of l) \<longrightarrow> Rules st' a = Rules st a)"
  by (auto simp: robots_line_def agent_of_def Let_def split: option.splits prod.splits if_splits)

lemma robots_lines_rules:
  "robots_inv st \<Longrightarrow> distinct (concat (map agent_of ls)) \<Longrightarrow> set (concat (map agent_of ls)) \<inter> dom (Rules st) = {} \<Longrightarrow>
   ran (Rules st) \<subseteq> {empty_rule} \<Longrightarrow>
   \<exists>st'. robots_lines st ls = Inr st' \<and> ran (Rules st') \<subseteq> {empty_rule}"
proof (induction ls arbitrary: st)
  case (Cons l ls)
  obtain st1 where st1: "robots_line st l = Inr st1" "robots_inv st1" using robots_line_inv [OF Cons.prems(1)] by blast
  have "set (agent_of l) \<inter> dom (Rules st) = {}" using Cons.prems(3) by auto
  note r = robots_line_rules [OF st1(1) this]
  have "ran (Rules st1) \<subseteq> {empty_rule}"
  proof
    fix x assume "x \<in> ran (Rules st1)"
    then obtain a where "Rules st1 a = Some x" by (auto simp: ran_def)
    then show "x \<in> {empty_rule}" using r Cons.prems(4) by (cases "a \<in> set (agent_of l)") (auto intro: ranI)
  qed
  moreover have "set (concat (map agent_of ls)) \<inter> dom (Rules st1) = {}" using r Cons.prems(2,3) by auto
  moreover have "distinct (concat (map agent_of ls))" using Cons.prems(2) by simp
  ultimately show ?case using Cons.IH [OF st1(2)] st1(1) by simp
qed simp

lemma robots_rules_empty:
  assumes "distinct (robots_agents content)" "ParseRobotsTxt content = Inr r" "r agent = Some rule"
  shows "rule = empty_rule"
proof -
  obtain st where st: "robots_lines \<lparr>Rules = Map.empty, currentRule = None\<rparr> (str_split (CHR 0x0A) content) = Inr st"
    "ran (Rules st) \<subseteq> {empty_rule}"
    using robots_lines_rules [of "\<lparr>Rules = Map.empty, currentRule = None\<rparr>" "str_split (CHR 0x0A) content"] assms(1)
    by (auto simp: robots_inv_def robots_agents_def)
  have "r = Rules st" using assms(2) st(1) by (simp add: ParseRobotsTxt_def)
  then have "rule \<in> ran (Rules st)" using assms(3) by (auto intro: ranI)
  then show ?thesis using st(2) by auto
qed

section \<open>Properties\<close>

text \<open>
  C33: rules have no effect: of a file that names every agent once, whatever it disallows or delays, the parser
  keeps only empty rules (the copy put into the map is made before the directives are read), so every URL is
  allowed for every agent and no delay is known.
\<close>

theorem robots_rules_ignored:
  assumes "distinct (robots_agents content)"
  shows "\<exists>r. ParseRobotsTxt content = Inr r \<and> (\<forall>agent url. IsAllowed r agent url) \<and> (\<forall>agent rule. r agent = Some rule \<longrightarrow> Delay rule = 0)"
proof -
  obtain r where r: "ParseRobotsTxt content = Inr r" using ParseRobotsTxt_returns by blast
  note e = robots_rules_empty [OF assms r]
  have "IsAllowed r agent url" for agent url
    using e [of agent] by (cases "r agent") (auto simp: IsAllowed_def empty_rule_def)
  moreover have "Delay rule = 0" if "r agent = Some rule" for agent rule using e [OF that] by (simp add: empty_rule_def)
  ultimately show ?thesis using r by blast
qed

definition demo_robots :: string where
  "demo_robots = ''User-agent: *'' @ [CHR 0x0A] @ ''Disallow: /private''"

theorem robots_rules_ignored_witness:
  "robots_agents demo_robots = [''*''] \<and> (\<exists>r. ParseRobotsTxt demo_robots = Inr r \<and> IsAllowed r ''*'' ''/private/x'')"
proof -
  have agents: "robots_agents demo_robots = [''*'']" by code_simp
  then have "distinct (robots_agents demo_robots)" by simp
  from robots_rules_ignored [OF this] show ?thesis using agents by blast
qed

end
