(* ===== verification/HtmlHandling.thy ===== *)
theory HtmlHandling
  imports UrlHandling Robots
begin

text \<open>
  The page parser (\<open>parseHTMLStream\<close> and \<open>isGarbage\<close> of \<open>scraper/htmlHandling.go\<close>). The HTML tokenizer is
  not under the program's control: a page is the list of its tokens, whose end is the error token.
\<close>

datatype html_token = StartTag string "(string \<times> string) list" | EndTag string | TextTok string | OtherTok

record page_state =
  headerType :: byte
  garbageTagCounter :: int
  page_links :: "LinkToken list"
  pasages :: "Passage list"
  curDomDepth :: int
  features :: CrawlFeatures

text \<open>What the parser reads of the scraper: visited pages with their depth, and the rules of the host.\<close>

record page_env =
  env_lib :: url_lib
  env_visited :: "string \<rightharpoonup> int"
  env_rules :: "RobotsTxt option"
  env_base :: go_url
  currentDeep :: int

section \<open>Tags\<close>

definition garbageTags :: "string list" where
  "garbageTags = [''script'', ''style'', ''iframe'', ''aside'', ''nav'', ''footer'', ''div'']"

definition isGarbage :: "string \<Rightarrow> bool" where
  "isGarbage tag \<longleftrightarrow> tag \<in> set garbageTags"

definition ad_attr :: "string \<times> string \<Rightarrow> bool" where
  "ad_attr attr \<longleftrightarrow> fst attr \<in> {''class'', ''id''} \<and>
     (str_contains (snd attr) ''ad'' \<or> str_contains (snd attr) ''banner'' \<or> str_contains (snd attr) ''promo'')"

text \<open>The link of a \<open>href\<close> value, if it is one to follow.\<close>

definition anchor_link :: "page_env \<Rightarrow> string \<Rightarrow> LinkToken option" where
  "anchor_link env val =
     (case makeAbsoluteURL (env_lib env) val (env_base env) of
        Inl e \<Rightarrow> None
      | Inr link \<Rightarrow>
          if link = [] then None
          else case url_Parse (env_lib env) link of
            None \<Rightarrow> None
          | Some uri \<Rightarrow>
              let normalized = normalizeUrl (env_lib env) uri;
                  ext = to_lower (path_Ext (env_lib env) (Path uri));
                  types = query_values (env_lib env) (RawQuery uri) ''format'';
                  tok = \<lparr>Link = uri, Priority = Fin 0, Depth = 0, SameDomain = isSameOrigin uri (env_base env)\<rparr>
              in if ext = ''.pdf'' \<or> ext = ''.xml'' then None
                 else if types \<noteq> [] \<and> ''html'' \<notin> set types then None
                 else if (case env_rules env of None \<Rightarrow> False | Some rules \<Rightarrow> \<not> IsAllowed rules ''*'' (Path uri)) then None
                 else case env_visited env normalized of
                   Some depth \<Rightarrow> if depth \<ge> currentDeep env then Some tok else None
                 | None \<Rightarrow> Some tok)"

text \<open>The loop over the attributes of an anchor ends with the first \<open>href\<close>.\<close>

fun anchor_attrs :: "page_env \<Rightarrow> (string \<times> string) list \<Rightarrow> LinkToken option" where
  "anchor_attrs env [] = None"
| "anchor_attrs env ((k, v) # attrs) = (if k = ''href'' then anchor_link env v else anchor_attrs env attrs)"

definition add_link :: "page_state \<Rightarrow> LinkToken option \<Rightarrow> page_state" where
  "add_link st l =
     (case l of
        None \<Rightarrow> st
      | Some tok \<Rightarrow> st\<lparr>page_links := page_links st @ [tok], features := (features st)\<lparr>UrlCount := UrlCount (features st) + 1\<rparr>\<rparr>)"

definition not_english :: "(string \<times> string) list \<Rightarrow> bool" where
  "not_english attrs \<longleftrightarrow> (\<exists>attr \<in> set attrs. fst attr = ''lang'' \<and> \<not> str_contains (to_lower (snd attr)) ''en'')"

text \<open>A start tag outside garbage; \<open>True\<close> ends the parse.\<close>

definition start_tag :: "page_env \<Rightarrow> page_state \<Rightarrow> string \<Rightarrow> (string \<times> string) list \<Rightarrow> page_state \<times> bool" where
  "start_tag env st tagName attrs =
     (if tagName = ''html'' then (st, not_english attrs)
      else if tagName = ''h1'' \<or> tagName = ''h2'' then (st\<lparr>headerType := headerType st + of_char (tagName ! 1)\<rparr>, False)
      else if tagName = ''div'' then
        (if garbageTagCounter st > 0 then (st\<lparr>garbageTagCounter := garbageTagCounter st + 1\<rparr>, False)
         else if list_ex ad_attr attrs then (st\<lparr>garbageTagCounter := garbageTagCounter st + 1\<rparr>, False)
         else (st, False))
      else if tagName = ''a'' then (add_link st (anchor_attrs env attrs), False)
      else if tagName \<in> {''script'', ''style'', ''iframe'', ''aside'', ''nav'', ''footer''} then
        (st\<lparr>garbageTagCounter := garbageTagCounter st + 1\<rparr>, False)
      else (st, False))"

definition deepest :: "page_state \<Rightarrow> page_state" where
  "deepest st = (if curDomDepth st > DomDepth (features st) then st\<lparr>features := (features st)\<lparr>DomDepth := curDomDepth st\<rparr>\<rparr> else st)"

definition end_tag :: "page_state \<Rightarrow> string \<Rightarrow> page_state go" where
  "end_tag st0 name =
     (let st1 = deepest st0; st = st1\<lparr>curDomDepth := curDomDepth st1 - 1\<rparr>; tagName = to_lower name in
      if tagName = [] then Inl IndexOutOfRange
      else if tagName ! 0 = CHR ''h'' \<and> length tagName > 1 \<and> (tagName ! 1 = CHR ''1'' \<or> tagName ! 1 = CHR ''2'') then
        Inr (st\<lparr>headerType := headerType st - of_char (tagName ! 1)\<rparr>)
      else if garbageTagCounter st > 0 \<and> isGarbage tagName then Inr (st\<lparr>garbageTagCounter := garbageTagCounter st - 1\<rparr>)
      else Inr st)"

definition text_token :: "page_state \<Rightarrow> string \<Rightarrow> page_state go" where
  "text_token st txt =
     (if garbageTagCounter st > 0 then Inr st
      else
        let b = trim_space txt in
        if b = [] then Inr st
        else map_sum id (\<lambda>p. st\<lparr>pasages := pasages st @ [p]\<rparr>)
          (NewPassage (if headerType st > 0 then HeaderType else BodyType) b 0))"

text \<open>One turn of the loop; the second part says whether the parse ends.\<close>

definition page_step :: "page_env \<Rightarrow> page_state \<Rightarrow> html_token \<Rightarrow> (page_state \<times> bool) go" where
  "page_step env st tok =
     (case tok of
        StartTag name attrs \<Rightarrow>
          let st' = st\<lparr>curDomDepth := curDomDepth st + 1, features := (features st)\<lparr>TagCount := TagCount (features st) + 1\<rparr>\<rparr> in
          Inr (if garbageTagCounter st' > 0 then (st', False) else start_tag env st' name attrs)
      | EndTag name \<Rightarrow> map_sum id (\<lambda>st'. (st', False)) (end_tag st name)
      | TextTok txt \<Rightarrow> map_sum id (\<lambda>st'. (st', False)) (text_token st txt)
      | OtherTok \<Rightarrow> Inr (st, False))"

text \<open>The loop; every 128th turn looks at the context, which \<open>done\<close> says to be over.\<close>

fun page_loop :: "page_env \<Rightarrow> (nat \<Rightarrow> bool) \<Rightarrow> nat \<Rightarrow> page_state \<Rightarrow> html_token list \<Rightarrow> page_state go" where
  "page_loop env ctx_done n st [] = Inr (if (n + 1) mod 128 = 0 \<and> ctx_done (n + 1) then st else deepest st)"
| "page_loop env ctx_done n st (tok # toks) =
     (if (n + 1) mod 128 = 0 \<and> ctx_done (n + 1) then Inr st
      else case page_step env st tok of
        Inl p \<Rightarrow> Inl p
      | Inr (st', stop) \<Rightarrow> if stop then Inr st' else page_loop env ctx_done (n + 1) st' toks)"

definition parseHTMLStream :: "page_env \<Rightarrow> (nat \<Rightarrow> bool) \<Rightarrow> html_token list \<Rightarrow> CrawlFeatures \<Rightarrow>
    (LinkToken list \<times> Passage list \<times> CrawlFeatures) go" where
  "parseHTMLStream env ctx_done page feats =
     map_sum id (\<lambda>st. (page_links st, pasages st, features st))
       (page_loop env ctx_done 0 \<lparr>headerType = 0, garbageTagCounter = 0, page_links = [], pasages = [], curDomDepth = 0, features = feats\<rparr> page)"

section \<open>Lemmas\<close>

text \<open>A link the crawler may follow.\<close>

definition followed :: "page_env \<Rightarrow> LinkToken \<Rightarrow> bool" where
  "followed env tok \<longleftrightarrow>
     (\<exists>u. Scheme u = ''https'' \<and> Fragment u = [] \<and> url_Parse (env_lib env) (url_String (env_lib env) u) = Some (Link tok)) \<and>
     to_lower (path_Ext (env_lib env) (Path (Link tok))) \<notin> {''.pdf'', ''.xml''} \<and>
     (case env_rules env of None \<Rightarrow> True | Some rules \<Rightarrow> IsAllowed rules ''*'' (Path (Link tok))) \<and>
     (case env_visited env (normalizeUrl (env_lib env) (Link tok)) of None \<Rightarrow> True | Some depth \<Rightarrow> currentDeep env \<le> depth) \<and>
     SameDomain tok = isSameOrigin (Link tok) (env_base env)"

lemma anchor_link_followed: "anchor_link env v = Some tok \<Longrightarrow> followed env tok"
proof -
  assume a: "anchor_link env v = Some tok"
  then obtain link where link: "makeAbsoluteURL (env_lib env) v (env_base env) = Inr link"
    by (cases "makeAbsoluteURL (env_lib env) v (env_base env)") (simp_all add: anchor_link_def)
  obtain u where u: "Scheme u = ''https''" "Fragment u = []" "link = url_String (env_lib env) u"
    using makeAbsoluteURL_https [OF link] by blast
  have "url_Parse (env_lib env) link = Some (Link tok) \<and>
      to_lower (path_Ext (env_lib env) (Path (Link tok))) \<notin> {''.pdf'', ''.xml''} \<and>
      (case env_rules env of None \<Rightarrow> True | Some rules \<Rightarrow> IsAllowed rules ''*'' (Path (Link tok))) \<and>
      (case env_visited env (normalizeUrl (env_lib env) (Link tok)) of None \<Rightarrow> True | Some depth \<Rightarrow> currentDeep env \<le> depth) \<and>
      SameDomain tok = isSameOrigin (Link tok) (env_base env)"
    using a link by (auto simp: anchor_link_def Let_def split: if_splits option.splits)
  then show ?thesis using u unfolding followed_def by blast
qed

lemma anchor_attrs_followed: "anchor_attrs env attrs = Some tok \<Longrightarrow> followed env tok"
  by (induction attrs rule: anchor_attrs.induct) (auto split: if_splits intro: anchor_link_followed)

text \<open>What holds of the state throughout: \<open>u0\<close> is the first \<open>UrlCount\<close>.\<close>

definition page_inv :: "page_env \<Rightarrow> int \<Rightarrow> page_state \<Rightarrow> bool" where
  "page_inv env u0 st \<longleftrightarrow>
     (\<forall>tok \<in> set (page_links st). followed env tok) \<and>
     UrlCount (features st) = u0 + int (length (page_links st)) \<and>
     (\<forall>p \<in> set (pasages st). PText p \<noteq> [] \<and> PText p \<in> range trim_space \<and> PType p \<in> {BodyType, HeaderType}) \<and>
     0 \<le> garbageTagCounter st"

lemma page_inv_deepest [simp]: "page_inv env u0 (deepest st) = page_inv env u0 st"
  by (simp add: page_inv_def deepest_def)

lemma start_tag_inv: "page_inv env u0 st \<Longrightarrow> page_inv env u0 (fst (start_tag env st name attrs))"
  by (auto simp: start_tag_def add_link_def page_inv_def split: option.splits intro: anchor_attrs_followed)

lemma page_step_inv:
  assumes "page_inv env u0 st" "page_step env st tok = Inr (st', stop)"
  shows "page_inv env u0 st'"
proof (cases tok)
  case (StartTag name attrs)
  let ?st = "st\<lparr>curDomDepth := curDomDepth st + 1, features := (features st)\<lparr>TagCount := TagCount (features st) + 1\<rparr>\<rparr>"
  have inv: "page_inv env u0 ?st" using assms(1) by (simp add: page_inv_def)
  show ?thesis using assms(2) StartTag inv start_tag_inv [OF inv, of name attrs] by (auto simp: page_step_def Let_def split: if_splits)
next
  case (EndTag name)
  have "page_inv env u0 (deepest st)" using assms(1) by simp
  then show ?thesis using assms(2) EndTag by (auto simp: page_step_def end_tag_def page_inv_def Let_def split: if_splits)
next
  case (TextTok s)
  then show ?thesis using assms by (auto simp: page_step_def text_token_def page_inv_def Let_def split: if_splits)
qed (use assms in \<open>simp add: page_step_def\<close>)

lemma page_loop_inv: "page_inv env u0 st \<Longrightarrow> page_loop env d n st toks = Inr st' \<Longrightarrow> page_inv env u0 st'"
proof (induction env d n st toks rule: page_loop.induct)
  case (2 env d n st tok toks)
  then show ?case by (auto split: if_splits sum.splits prod.splits dest: page_step_inv)
qed (auto split: if_splits)

text \<open>Only an end tag without a name would be a panic, and the tokenizer never yields one.\<close>

lemma page_step_ok: "tok \<noteq> EndTag [] \<Longrightarrow> \<exists>r. page_step env st tok = Inr r"
  by (cases tok) (auto simp: page_step_def end_tag_def text_token_def to_lower_def Let_def)

lemma page_loop_ok: "EndTag [] \<notin> set toks \<Longrightarrow> \<exists>st'. page_loop env d n st toks = Inr st'"
proof (induction toks arbitrary: n st)
  case (Cons tok toks)
  then obtain st' stop where "page_step env st tok = Inr (st', stop)" using page_step_ok [of tok env st] by auto
  then show ?case using Cons by simp
qed simp

section \<open>Properties\<close>

text \<open>
  C22: whatever the page, the parser returns without a panic; every link it returns is an absolute https link
  without a fragment, not to a PDF or XML file, allowed by the rules, and not visited at a smaller depth than the
  page's; \<open>UrlCount\<close> grows by the number of links; every passage is nonempty trimmed text of one of the two types.
\<close>

theorem page_links_followed:
  assumes "EndTag [] \<notin> set page"
  shows "\<exists>links ps feats. parseHTMLStream env ctx_done page f0 = Inr (links, ps, feats) \<and>
    list_all (followed env) links \<and> UrlCount feats = UrlCount f0 + int (length links) \<and>
    list_all (\<lambda>p. PText p \<noteq> [] \<and> PText p \<in> range trim_space \<and> PType p \<in> {BodyType, HeaderType}) ps"
proof -
  let ?st = "\<lparr>headerType = 0, garbageTagCounter = 0, page_links = [], pasages = [], curDomDepth = 0, features = f0\<rparr>"
  obtain st' where st': "page_loop env ctx_done 0 ?st page = Inr st'" using page_loop_ok [OF assms] by blast
  have "page_inv env (UrlCount f0) ?st" by (simp add: page_inv_def)
  then have "page_inv env (UrlCount f0) st'" using st' by (rule page_loop_inv)
  then show ?thesis using st' by (auto simp: parseHTMLStream_def page_inv_def list_all_iff)
qed


definition demo_env :: page_env where
  "demo_env = \<lparr>env_lib = \<lparr>url_Parse = (\<lambda>s. Some \<lparr>Scheme = ''https'', Hostname = s, Path = [], RawQuery = [], Fragment = []\<rparr>),
       ResolveReference = (\<lambda>b u. u), url_String = Hostname, encode_query = id, query_values = (\<lambda>q k. []), path_Ext = (\<lambda>s. [])\<rparr>,
     env_visited = Map.empty, env_rules = None, env_base = \<lparr>Scheme = ''https'', Hostname = ''go.dev'', Path = [], RawQuery = [], Fragment = []\<rparr>,
     currentDeep = 0\<rparr>"

definition no_features :: CrawlFeatures where
  "no_features = \<lparr>DomDepth = 0, TagCount = 0, UrlLen = 0, UrlCount = 0, PathLen = 0, HostLen = 0\<rparr>"

definition demo_page :: "html_token list" where
  "demo_page = [StartTag ''a'' [(''href'', ''go.dev'')], TextTok '' home '', EndTag ''a'']"

theorem page_links_followed_witness:
  "\<exists>links ps feats. parseHTMLStream demo_env (\<lambda>_. False) demo_page no_features = Inr (links, ps, feats) \<and>
     UrlCount feats = 1 \<and> map (Hostname \<circ> Link) links = [''go.dev''] \<and> map PText ps = [''home''] \<and> list_all (followed demo_env) links"
proof -
  have run: "map_sum id (\<lambda>(links, ps, feats). (map (Hostname \<circ> Link) links, map PText ps)) (parseHTMLStream demo_env (\<lambda>_. False) demo_page no_features) = Inr ([''go.dev''], [''home''])"
    by code_simp
  have "EndTag [] \<notin> set demo_page" by (simp add: demo_page_def)
  from page_links_followed [OF this, of demo_env "\<lambda>_. False" no_features] obtain links ps feats where
    p: "parseHTMLStream demo_env (\<lambda>_. False) demo_page no_features = Inr (links, ps, feats)" "list_all (followed demo_env) links"
      "UrlCount feats = UrlCount no_features + int (length links)" by blast
  then have eqs: "map (Hostname \<circ> Link) links = [''go.dev'']" "map PText ps = [''home'']" using run by simp_all
  then have "length links = 1" by (auto simp: map_eq_Cons_conv)
  then show ?thesis using p eqs by (simp add: no_features_def)
qed

section \<open>Blocks\<close>

text \<open>A simple page: headings, paragraphs and garbage elements, each with one text.\<close>

datatype block = Heading string string | Para string string | Garbage string string

fun block_tokens :: "block \<Rightarrow> html_token list" where
  "block_tokens (Heading tag t) = [StartTag tag [], TextTok t, EndTag tag]"
| "block_tokens (Para tag t) = [StartTag tag [], TextTok t, EndTag tag]"
| "block_tokens (Garbage tag t) = [StartTag tag [], TextTok t, EndTag tag]"

fun block_ok :: "block \<Rightarrow> bool" where
  "block_ok (Heading tag t) \<longleftrightarrow> tag \<in> {''h1'', ''h2''}"
| "block_ok (Para tag t) \<longleftrightarrow> tag \<in> {''p'', ''li'', ''td'', ''span'', ''b''}"
| "block_ok (Garbage tag t) \<longleftrightarrow> tag \<in> {''script'', ''style'', ''iframe'', ''aside'', ''nav'', ''footer''}"

definition text_passages :: "byte \<Rightarrow> string \<Rightarrow> Passage list" where
  "text_passages ty t = (if trim_space t = [] then [] else [\<lparr>PText = trim_space t, PType = ty\<rparr>])"

fun block_passages :: "block \<Rightarrow> Passage list" where
  "block_passages (Heading tag t) = text_passages HeaderType t"
| "block_passages (Para tag t) = text_passages BodyType t"
| "block_passages (Garbage tag t) = []"

text \<open>Between blocks nothing is open.\<close>

definition at_rest :: "page_state \<Rightarrow> bool" where
  "at_rest st \<longleftrightarrow> headerType st = 0 \<and> garbageTagCounter st = 0"

lemma page_loop_cons:
  "page_step env st tok = Inr (st', False) \<Longrightarrow> page_loop env (\<lambda>_. False) n st (tok # toks) = page_loop env (\<lambda>_. False) (n + 1) st' toks"
  by simp

text \<open>The effect of one token on the counters and the passages.\<close>

definition step_to :: "page_env \<Rightarrow> page_state \<Rightarrow> html_token \<Rightarrow> byte \<Rightarrow> int \<Rightarrow> Passage list \<Rightarrow> bool" where
  "step_to env st tok h g ps \<longleftrightarrow>
     (\<exists>st'. page_step env st tok = Inr (st', False) \<and> headerType st' = h \<and> garbageTagCounter st' = g \<and> pasages st' = pasages st @ ps)"

lemma step_heading_start:
  "garbageTagCounter st = 0 \<Longrightarrow> tag \<in> {''h1'', ''h2''} \<Longrightarrow> step_to env st (StartTag tag []) (headerType st + of_char (tag ! 1)) 0 []"
  by (auto simp: step_to_def page_step_def start_tag_def)

lemma step_para_start:
  "garbageTagCounter st = 0 \<Longrightarrow> tag \<in> {''p'', ''li'', ''td'', ''span'', ''b''} \<Longrightarrow> step_to env st (StartTag tag []) (headerType st) 0 []"
  by (auto simp: step_to_def page_step_def start_tag_def)

lemma step_garbage_start:
  "garbageTagCounter st = 0 \<Longrightarrow> tag \<in> {''script'', ''style'', ''iframe'', ''aside'', ''nav'', ''footer''} \<Longrightarrow>
   step_to env st (StartTag tag []) (headerType st) 1 []"
  by (auto simp: step_to_def page_step_def start_tag_def)

lemma step_in_garbage: "0 < garbageTagCounter st \<Longrightarrow> step_to env st (StartTag tag attrs) (headerType st) (garbageTagCounter st) []"
  by (auto simp: step_to_def page_step_def Let_def)

lemma step_text:
  "garbageTagCounter st = 0 \<Longrightarrow> step_to env st (TextTok t) (headerType st) 0 (text_passages (if headerType st > 0 then HeaderType else BodyType) t)"
  by (auto simp: step_to_def page_step_def text_token_def text_passages_def Let_def)

lemma step_text_garbage: "0 < garbageTagCounter st \<Longrightarrow> step_to env st (TextTok t) (headerType st) (garbageTagCounter st) []"
  by (auto simp: step_to_def page_step_def text_token_def)

lemma deepest_keeps [simp]: "headerType (deepest st) = headerType st" "garbageTagCounter (deepest st) = garbageTagCounter st"
  "pasages (deepest st) = pasages st"
  by (simp_all add: deepest_def)

lemma step_heading_end:
  assumes "tag \<in> {''h1'', ''h2''}"
  shows "step_to env st (EndTag tag) (headerType st - of_char (tag ! 1)) (garbageTagCounter st) []"
proof -
  have "to_lower tag = tag" "tag \<noteq> []" "tag ! 0 = CHR ''h''" "length tag > 1" "tag ! 1 = CHR ''1'' \<or> tag ! 1 = CHR ''2''"
    using assms by (auto simp: to_lower_def to_lower_char_def)
  then show ?thesis by (simp add: step_to_def page_step_def end_tag_def Let_def)
qed

lemma step_other_end:
  assumes "to_lower tag = tag" "tag \<noteq> []" "tag ! 0 \<noteq> CHR ''h''" "0 \<le> garbageTagCounter st"
  shows "step_to env st (EndTag tag) (headerType st) (if 0 < garbageTagCounter st \<and> isGarbage tag then garbageTagCounter st - 1 else garbageTagCounter st) []"
  using assms by (auto simp: step_to_def page_step_def end_tag_def Let_def)

lemma block_end_tag:
  assumes "tag \<in> {''p'', ''li'', ''td'', ''span'', ''b''} \<or> tag \<in> {''script'', ''style'', ''iframe'', ''aside'', ''nav'', ''footer''}"
  shows "to_lower tag = tag" "tag \<noteq> []" "tag ! 0 \<noteq> CHR ''h''" "isGarbage tag \<longleftrightarrow> tag \<notin> {''p'', ''li'', ''td'', ''span'', ''b''}"
  using assms by (auto simp: to_lower_def to_lower_char_def isGarbage_def garbageTags_def)

text \<open>Three tokens in a row.\<close>

lemma page_loop_three:
  assumes "step_to env st a h1 g1 ps1" "\<And>st. headerType st = h1 \<Longrightarrow> garbageTagCounter st = g1 \<Longrightarrow> step_to env st b h2 g2 ps2"
    "\<And>st. headerType st = h2 \<Longrightarrow> garbageTagCounter st = g2 \<Longrightarrow> step_to env st c h3 g3 ps3"
  shows "\<exists>st'. headerType st' = h3 \<and> garbageTagCounter st' = g3 \<and> pasages st' = pasages st @ ps1 @ ps2 @ ps3 \<and>
    page_loop env (\<lambda>_. False) n st (a # b # c # toks) = page_loop env (\<lambda>_. False) (n + 3) st' toks"
proof -
  obtain s1 where s1: "page_step env st a = Inr (s1, False)" "headerType s1 = h1" "garbageTagCounter s1 = g1" "pasages s1 = pasages st @ ps1"
    using assms(1) by (auto simp: step_to_def)
  obtain s2 where s2: "page_step env s1 b = Inr (s2, False)" "headerType s2 = h2" "garbageTagCounter s2 = g2" "pasages s2 = pasages s1 @ ps2"
    using assms(2) [OF s1(2,3)] by (auto simp: step_to_def)
  obtain s3 where s3: "page_step env s2 c = Inr (s3, False)" "headerType s3 = h3" "garbageTagCounter s3 = g3" "pasages s3 = pasages s2 @ ps3"
    using assms(3) [OF s2(2,3)] by (auto simp: step_to_def)
  have "n + 1 + 1 + 1 = n + 3" by simp
  then have "page_loop env (\<lambda>_. False) n st (a # b # c # toks) = page_loop env (\<lambda>_. False) (n + 3) s3 toks"
    by (simp only: page_loop_cons [OF s1(1)] page_loop_cons [OF s2(1)] page_loop_cons [OF s3(1)])
  moreover have "pasages s3 = pasages st @ ps1 @ ps2 @ ps3" using s1(4) s2(4) s3(4) by simp
  ultimately show ?thesis using s3(2,3) by blast
qed

lemma of_char_digits: "(of_char (CHR ''1'') :: byte) > 0" "(of_char (CHR ''2'') :: byte) > 0"
  by code_simp+

lemma page_loop_block:
  assumes "block_ok b" "at_rest st"
  shows "\<exists>st'. at_rest st' \<and> pasages st' = pasages st @ block_passages b \<and>
    page_loop env (\<lambda>_. False) n st (block_tokens b @ toks) = page_loop env (\<lambda>_. False) (n + 3) st' toks"
proof -
  have st: "headerType st = 0" "garbageTagCounter st = 0" using assms(2) by (simp_all add: at_rest_def)
  obtain tag t where toks: "block_tokens b = [StartTag tag [], TextTok t, EndTag tag]" by (cases b) auto
  have "\<exists>h g ps. step_to env st (StartTag tag []) h g [] \<and>
      (\<forall>st. headerType st = h \<and> garbageTagCounter st = g \<longrightarrow> step_to env st (TextTok t) h g ps) \<and>
      (\<forall>st. headerType st = h \<and> garbageTagCounter st = g \<longrightarrow> step_to env st (EndTag tag) 0 0 []) \<and> ps = block_passages b"
  proof (cases b)
    case (Heading tag' t')
    then have tag: "tag \<in> {''h1'', ''h2''}" "t' = t" "tag' = tag" using assms(1) toks by simp_all
    let ?h = "of_char (tag ! 1) :: byte"
    have pos: "?h > 0" using tag(1) of_char_digits by auto
    have "step_to env st (StartTag tag []) ?h 0 []" using step_heading_start [OF st(2) tag(1), of env] st by simp
    moreover have "step_to env st' (TextTok t) ?h 0 (text_passages HeaderType t)" if "headerType st' = ?h" "garbageTagCounter st' = 0" for st'
      using step_text [OF that(2), of env t] that(1) pos by simp
    moreover have "step_to env st' (EndTag tag) 0 0 []" if "headerType st' = ?h" "garbageTagCounter st' = 0" for st'
      using step_heading_end [OF tag(1), of env st'] that by simp
    ultimately show ?thesis using Heading tag(2) by (intro exI [of _ ?h] exI [of _ 0] exI [of _ "text_passages HeaderType t"]) simp
  next
    case (Para tag' t')
    then have tag: "tag \<in> {''p'', ''li'', ''td'', ''span'', ''b''}" "t' = t" "tag' = tag" using assms(1) toks by simp_all
    have "step_to env st (StartTag tag []) 0 0 []" using step_para_start [OF st(2) tag(1), of env] st by simp
    moreover have "step_to env st' (TextTok t) 0 0 (text_passages BodyType t)" if "headerType st' = 0" "garbageTagCounter st' = 0" for st'
      using step_text [OF that(2), of env t] that(1) by simp
    moreover have "step_to env st' (EndTag tag) 0 0 []" if "headerType st' = 0" "garbageTagCounter st' = 0" for st'
      using step_other_end [OF block_end_tag(1-3) [OF disjI1 [OF tag(1)]], of st' env] that by simp
    ultimately show ?thesis using Para tag(2) by (intro exI [of _ 0] exI [of _ "text_passages BodyType t"]) simp
  next
    case (Garbage tag' t')
    then have tag: "tag \<in> {''script'', ''style'', ''iframe'', ''aside'', ''nav'', ''footer''}" "t' = t" "tag' = tag" using assms(1) toks by simp_all
    then have garb: "isGarbage tag" by (auto simp: isGarbage_def garbageTags_def)
    have "step_to env st (StartTag tag []) 0 1 []" using step_garbage_start [OF st(2) tag(1), of env] st by simp
    moreover have "step_to env st' (TextTok t) 0 1 []" if "headerType st' = 0" "garbageTagCounter st' = 1" for st'
      using step_text_garbage [of st' env t] that by simp
    moreover have "step_to env st' (EndTag tag) 0 0 []" if "headerType st' = 0" "garbageTagCounter st' = 1" for st'
      using step_other_end [OF block_end_tag(1-3) [OF disjI2 [OF tag(1)]], of st' env] that garb by simp
    ultimately show ?thesis using Garbage by (intro exI [of _ 0] exI [of _ 1] exI [of _ "[]"]) simp
  qed
  then obtain h g where s: "step_to env st (StartTag tag []) h g []"
    "\<And>st. headerType st = h \<Longrightarrow> garbageTagCounter st = g \<Longrightarrow> step_to env st (TextTok t) h g (block_passages b)"
    "\<And>st. headerType st = h \<Longrightarrow> garbageTagCounter st = g \<Longrightarrow> step_to env st (EndTag tag) 0 0 []" by auto
  obtain st' where "headerType st' = 0" "garbageTagCounter st' = 0" "pasages st' = pasages st @ [] @ block_passages b @ []"
    "page_loop env (\<lambda>_. False) n st (StartTag tag [] # TextTok t # EndTag tag # toks) = page_loop env (\<lambda>_. False) (n + 3) st' toks"
    using page_loop_three [OF s, of n toks] by blast
  then show ?thesis using toks by (intro exI [of _ st']) (simp add: at_rest_def del: page_loop.simps)
qed


lemma page_loop_blocks:
  "\<forall>b \<in> set bs. block_ok b \<Longrightarrow> at_rest st \<Longrightarrow>
   \<exists>st'. page_loop env (\<lambda>_. False) n st (concat (map block_tokens bs)) = Inr st' \<and> pasages st' = pasages st @ concat (map block_passages bs)"
proof (induction bs arbitrary: n st)
  case (Cons b bs)
  then have ok: "block_ok b" "\<forall>b \<in> set bs. block_ok b" by simp_all
  obtain st1 where st1: "at_rest st1" "pasages st1 = pasages st @ block_passages b"
    "page_loop env (\<lambda>_. False) n st (block_tokens b @ concat (map block_tokens bs)) =
     page_loop env (\<lambda>_. False) (n + 3) st1 (concat (map block_tokens bs))"
    using page_loop_block [OF ok(1) Cons.prems(2)] by blast
  from Cons.IH [OF ok(2) st1(1), of "n + 3"] st1(2,3) show ?case by auto
qed simp

lemma page_loop_texts:
  "headerType st = h \<Longrightarrow> h > 0 \<Longrightarrow> garbageTagCounter st = 0 \<Longrightarrow>
   \<exists>st'. page_loop env (\<lambda>_. False) n st (map TextTok ts) = Inr st' \<and> pasages st' = pasages st @ concat (map (text_passages HeaderType) ts)"
proof (induction ts arbitrary: n st)
  case (Cons t ts)
  obtain st1 where st1: "page_step env st (TextTok t) = Inr (st1, False)" "headerType st1 = h" "garbageTagCounter st1 = 0"
    "pasages st1 = pasages st @ text_passages HeaderType t"
    using step_text [OF Cons.prems(3), of env t] Cons.prems(1,2) by (auto simp: step_to_def)
  from Cons.IH [OF st1(2) Cons.prems(2) st1(3), of "n + 1"] st1(1,4) show ?case by (auto simp del: page_loop.simps simp: page_loop_cons)
qed simp

section \<open>Properties of pages\<close>

text \<open>
  C31: on a page of headings, paragraphs and garbage elements (scripts, navigation and the like) the passages are
  the nonempty texts of the headings, as header passages, and of the paragraphs, as body passages, in order.
\<close>

theorem blocks_classified:
  assumes "\<forall>b \<in> set bs. block_ok b"
  shows "\<exists>links feats. parseHTMLStream env (\<lambda>_. False) (concat (map block_tokens bs)) f0 = Inr (links, concat (map block_passages bs), feats)"
proof -
  let ?st = "\<lparr>headerType = 0, garbageTagCounter = 0, page_links = [], pasages = [], curDomDepth = 0, features = f0\<rparr>"
  have "at_rest ?st" by (simp add: at_rest_def)
  from page_loop_blocks [OF assms this, of env 0] show ?thesis by (auto simp: parseHTMLStream_def)
qed

theorem blocks_classified_witness:
  "\<exists>links feats. parseHTMLStream demo_env (\<lambda>_. False)
     (concat (map block_tokens [Heading ''h1'' ''Title'', Garbage ''script'' ''x=1'', Para ''p'' ''text''])) no_features =
   Inr (links, [\<lparr>PText = ''Title'', PType = HeaderType\<rparr>, \<lparr>PText = ''text'', PType = BodyType\<rparr>], feats)"
proof -
  have "\<forall>b \<in> set [Heading ''h1'' ''Title'', Garbage ''script'' ''x=1'', Para ''p'' ''text'']. block_ok b" by simp
  moreover have "concat (map block_passages [Heading ''h1'' ''Title'', Garbage ''script'' ''x=1'', Para ''p'' ''text'']) =
      [\<lparr>PText = ''Title'', PType = HeaderType\<rparr>, \<lparr>PText = ''text'', PType = BodyType\<rparr>]" by code_simp
  ultimately show ?thesis using blocks_classified [of _ demo_env no_features] by metis
qed

text \<open>
  A heading inside a garbage element spoils the rest of the page: its start tag is skipped but its end tag is
  not, the counter of open headings wraps around, and all text that follows counts as header text.
\<close>

theorem heading_in_garbage:
  "\<exists>links feats. parseHTMLStream env (\<lambda>_. False)
     ([StartTag ''nav'' [], StartTag ''h1'' attrs, EndTag ''h1'', EndTag ''nav''] @ map TextTok ts) f0 =
   Inr (links, concat (map (text_passages HeaderType) ts), feats)"
proof -
  let ?st = "\<lparr>headerType = 0, garbageTagCounter = 0, page_links = [], pasages = [], curDomDepth = 0, features = f0\<rparr>"
  let ?h = "- of_char (CHR ''1'') :: byte"
  have "step_to env ?st (StartTag ''nav'' []) 0 1 []" using step_garbage_start [of ?st "''nav''" env] by simp
  moreover have "step_to env st (StartTag ''h1'' attrs) 0 1 []" if "headerType st = 0" "garbageTagCounter st = 1" for st
    using step_in_garbage [of st env "''h1''" attrs] that by simp
  moreover have "step_to env st (EndTag ''h1'') ?h 1 []" if "headerType st = 0" "garbageTagCounter st = 1" for st
    using step_heading_end [of "''h1''" env st] that by simp
  ultimately obtain st1 where st1: "headerType st1 = ?h" "garbageTagCounter st1 = 1" "pasages st1 = []"
    "page_loop env (\<lambda>_. False) 0 ?st (StartTag ''nav'' [] # StartTag ''h1'' attrs # EndTag ''h1'' # EndTag ''nav'' # map TextTok ts) =
     page_loop env (\<lambda>_. False) 3 st1 (EndTag ''nav'' # map TextTok ts)"
    using page_loop_three [of env ?st "StartTag ''nav'' []" 0 1 "[]" "StartTag ''h1'' attrs" 0 1 "[]" "EndTag ''h1''" ?h 1 "[]" 0
        "EndTag ''nav'' # map TextTok ts"] by (auto simp del: page_loop.simps)
  have "step_to env st1 (EndTag ''nav'') ?h 0 []"
    using step_other_end [of "''nav''" st1 env] st1(1,2) block_end_tag [of "''nav''"] by simp
  then obtain st2 where st2: "page_step env st1 (EndTag ''nav'') = Inr (st2, False)" "headerType st2 = ?h" "garbageTagCounter st2 = 0" "pasages st2 = []"
    using st1(3) by (auto simp: step_to_def)
  have "?h > 0" by code_simp
  from page_loop_texts [OF st2(2) this st2(3), of env "3 + 1" ts] st2(4) st1(4) page_loop_cons [OF st2(1), of 3]
  show ?thesis by (auto simp: parseHTMLStream_def simp del: page_loop.simps)
qed

text \<open>Two more cases of content taken for what it is not.\<close>

text \<open>An inner element's end tag ends the outer garbage element: \<open>menu\<close> is indexed though it is navigation.\<close>

lemma garbage_ends_early:
  "map_sum id (\<lambda>(l, ps, f). map PText ps) (parseHTMLStream demo_env (\<lambda>_. False)
     [StartTag ''nav'' [], StartTag ''div'' [], EndTag ''div'', TextTok ''menu'', EndTag ''nav''] no_features) = Inr [''menu'']"
  by code_simp

text \<open>A division whose class is \<open>header\<close> contains the letters of \<open>ad\<close> and is dropped as advertising.\<close>

lemma header_is_an_ad: "ad_attr (''class'', ''header'')"
  by code_simp

end
