(* ===== verification/RateLimiter.thy ===== *)
theory RateLimiter
  imports Prelude
begin

text \<open>
  The per-host rate limiter (\<open>scraper/rateLimiter.go\<close>) as a labelled step relation: the ticker
  goroutine, the callers of \<open>GetToken\<close> and the caller of \<open>Shutdown\<close>, one rule per way through their
  \<open>select\<close>s.
\<close>

section \<open>The limiter\<close>

record rateLimiter =
  token :: nat
  token_closed :: bool
  rl_quit :: bool
  handler :: bool
  rl_rate :: int
  rl_crash :: "go_panic option"

text \<open>
  \<open>time.NewTicker\<close> panics on a period that is not positive. The period is a 64-bit number of nanoseconds, so the
  product of the rate and a second wraps around.
\<close>

definition DefaultDelay :: int where
  "DefaultDelay = 3"

definition ticker_period :: "int \<Rightarrow> int" where
  "ticker_period rate = (1000000000 * rate + 2 ^ 63) mod 2 ^ 64 - 2 ^ 63"

definition NewRateLimiter :: "int \<Rightarrow> rateLimiter" where
  "NewRateLimiter rate =
     \<lparr>token = 0, token_closed = False, rl_quit = False, handler = True, rl_rate = rate,
      rl_crash = (if ticker_period rate \<le> 0 then Some (ExplicitPanic ''non-positive interval for NewTicker'') else None)\<rparr>"

datatype rl_event = Tick | HandlerExit | Granted | GotClosed | GotQuit | GotCtx | ShutdownQuit | ShutdownClose

text \<open>The send of the ticker: \<open>select { case rl.token <- struct{}{}: default: }\<close>, capacity 1.\<close>

definition offer_token :: "rateLimiter \<Rightarrow> rateLimiter" where
  "offer_token s =
     (if token_closed s then s\<lparr>rl_crash := Some SendOnClosedChannel\<rparr>
      else if token s < 1 then s\<lparr>token := token s + 1\<rparr> else s)"

inductive rl_step :: "rateLimiter \<Rightarrow> rl_event \<Rightarrow> rateLimiter \<Rightarrow> bool" where
  tick: "rl_crash s = None \<Longrightarrow> handler s \<Longrightarrow> rl_step s Tick (offer_token s)"
| handler_quit: "rl_crash s = None \<Longrightarrow> handler s \<Longrightarrow> rl_quit s \<Longrightarrow> rl_step s HandlerExit (s\<lparr>handler := False\<rparr>)"
| get_token: "rl_crash s = None \<Longrightarrow> token s > 0 \<Longrightarrow> rl_step s Granted (s\<lparr>token := token s - 1\<rparr>)"
| get_closed: "rl_crash s = None \<Longrightarrow> token s = 0 \<Longrightarrow> token_closed s \<Longrightarrow> rl_step s GotClosed s"
| get_quit: "rl_crash s = None \<Longrightarrow> rl_quit s \<Longrightarrow> rl_step s GotQuit s"
| get_ctx: "rl_crash s = None \<Longrightarrow> rl_step s GotCtx s"
| shutdown_quit: "rl_crash s = None \<Longrightarrow> rl_step s ShutdownQuit
    (if rl_quit s then s\<lparr>rl_crash := Some CloseOfClosedChannel\<rparr> else s\<lparr>rl_quit := True\<rparr>)"
| shutdown_close: "rl_crash s = None \<Longrightarrow> rl_quit s \<Longrightarrow> \<not> handler s \<Longrightarrow> rl_step s ShutdownClose
    (if token_closed s then s\<lparr>rl_crash := Some CloseOfClosedChannel\<rparr> else s\<lparr>token_closed := True\<rparr>)"

inductive rl_run :: "rateLimiter \<Rightarrow> rl_event list \<Rightarrow> rateLimiter \<Rightarrow> bool" where
  run_nil: "rl_run s [] s"
| run_snoc: "rl_run s es t \<Longrightarrow> rl_step t e u \<Longrightarrow> rl_run s (es @ [e]) u"

inductive_cases rl_stepE: "rl_step s e t"
inductive_simps rl_step_Granted: "rl_step s Granted t"

section \<open>Invariants\<close>

definition rl_inv :: "rateLimiter \<Rightarrow> bool" where
  "rl_inv s \<longleftrightarrow> token s \<le> 1 \<and> (token_closed s \<longrightarrow> \<not> handler s) \<and> (\<not> handler s \<longrightarrow> rl_quit s) \<and>
     rl_crash s \<noteq> Some SendOnClosedChannel"

lemma rl_step_inv: "rl_step s e t \<Longrightarrow> rl_inv s \<Longrightarrow> rl_inv t"
  by (auto simp: rl_inv_def offer_token_def elim!: rl_stepE split: if_splits)

lemma rl_run_inv: "rl_run s es t \<Longrightarrow> rl_inv s \<Longrightarrow> rl_inv t"
  by (induction rule: rl_run.induct) (auto intro: rl_step_inv)

lemma rl_new_inv: "rl_inv (NewRateLimiter rate)"
  by (simp add: rl_inv_def NewRateLimiter_def)

definition rl_count :: "rl_event \<Rightarrow> rl_event list \<Rightarrow> nat" where
  "rl_count e es = length (filter (\<lambda>x. x = e) es)"

lemma rl_run_tokens: "rl_run s es t \<Longrightarrow> rl_count Granted es + token t \<le> rl_count Tick es + token s"
proof (induction rule: rl_run.induct)
  case (run_snoc s es t e u)
  have "rl_count Granted [e] + token u \<le> rl_count Tick [e] + token t"
    using run_snoc(2) by (auto simp: rl_count_def offer_token_def elim!: rl_stepE)
  then show ?case using run_snoc(3) by (simp add: rl_count_def)
qed (simp add: rl_count_def)

section \<open>Properties\<close>

text \<open>
  C25: the limiter's rate: in any stretch of a run at most one request more is granted than the ticker
  fired in it, and at most as many from the start; the ticker never sends on the closed channel.
\<close>

theorem rate_limited:
  assumes "rl_run (NewRateLimiter rate) es s" "rl_run s fs t"
  shows "rl_count Granted es \<le> rl_count Tick es \<and> rl_count Granted fs \<le> rl_count Tick fs + 1 \<and>
    rl_crash t \<noteq> Some SendOnClosedChannel"
proof -
  have "rl_inv s" "rl_inv t" using rl_run_inv [OF assms(1) rl_new_inv] rl_run_inv [OF assms(2)] by auto
  then show ?thesis
    using rl_run_tokens [OF assms(1)] rl_run_tokens [OF assms(2)] by (auto simp: rl_inv_def NewRateLimiter_def)
qed

lemma demo_run: "rl_run (NewRateLimiter 3) [Tick] ((NewRateLimiter 3)\<lparr>token := 1\<rparr>)"
proof -
  have "rl_step (NewRateLimiter 3) Tick ((NewRateLimiter 3)\<lparr>token := 1\<rparr>)"
    using tick [of "NewRateLimiter 3"] by (simp add: offer_token_def NewRateLimiter_def ticker_period_def)
  from run_snoc [OF run_nil this] show ?thesis by simp
qed

theorem rate_limited_witness: "rl_count Granted [Granted] \<le> rl_count Tick [Granted] + 1"
proof -
  have "rl_step ((NewRateLimiter 3)\<lparr>token := 1\<rparr>) Granted (NewRateLimiter 3)"
    using get_token [of "(NewRateLimiter 3)\<lparr>token := 1\<rparr>"] by (simp add: NewRateLimiter_def ticker_period_def)
  from rate_limited [OF demo_run run_snoc [OF run_nil this]] show ?thesis by simp
qed

end
