(* ===== verification/Scraper.thy ===== *)
theory Scraper
  imports HtmlHandling RateLimiter
begin

text \<open>
  The crawl step (\<open>scraper/scraper.go\<close>), the fetch of a page (\<open>htmlHandling.go\<close>) and sitemaps and rules
  (\<open>sitemapHandling.go\<close>). The network, \<open>gob\<close>, SHA-256, the HTML tokenizer and the interface
  \<open>indexer\<close> on a state \<open>'ix\<close> are fields of \<open>scrape_env\<close>, as are the answers of the contexts; the two caches are
  operations of their own. A submitted link is an entry of \<open>sc_submitted\<close>; the pool is in \<open>WorkerPool\<close>.
\<close>

section \<open>Environment and state\<close>

text \<open>A response; its body is \<open>None\<close> if it cannot be read. \<open>do_request\<close> is the \<open>n\<close>-th last try for a URL.\<close>

record http_response =
  StatusCode :: int
  ContentType :: string
  Body :: "string option"

text \<open>
  The tokens of \<open>encoding/xml\<close> that matter: a start tag with its local name and the decoded element, \<open>None\<close> if
  that is an error. \<open>xml_tokens\<close> says too whether the tokens end with the end of the text.
\<close>

datatype xml_token = XmlStart string "string option" | XmlOther

record ('c, 'r, 'l, 'ix) scrape_env =
  sc_lib :: url_lib
  sha256 :: "string \<Rightarrow> bytes"
  link_get :: "'c \<Rightarrow> bytes \<Rightarrow> (LinkToken list option \<times> 'c) go"
  link_put :: "'c \<Rightarrow> bytes \<Rightarrow> LinkToken list \<Rightarrow> 'c go"
  rules_get :: "'r \<Rightarrow> string \<Rightarrow> (RobotsTxt option \<times> 'r) go"
  rules_put :: "'r \<Rightarrow> string \<Rightarrow> RobotsTxt \<Rightarrow> 'r go"
  limit_get :: "'l \<Rightarrow> string \<Rightarrow> (rateLimiter option \<times> 'l) go"
  limit_put :: "'l \<Rightarrow> string \<Rightarrow> rateLimiter \<Rightarrow> 'l go"
  gob_Encode :: "LinkToken list \<Rightarrow> bytes option"
  gob_Decode :: "bytes \<Rightarrow> LinkToken list option"
  OnlySameDomain :: bool
  do_request :: "string \<Rightarrow> nat \<Rightarrow> http_response option"
  ctx_over :: "nat \<Rightarrow> bool"
  global_over :: bool
  read_over :: bool
  meta_charset :: "string \<Rightarrow> string option"
  decode_charset :: "string \<Rightarrow> string \<Rightarrow> string"
  xml_tokens :: "string \<Rightarrow> xml_token list \<times> bool"
  html_tokens :: "string \<Rightarrow> html_token list"
  parse_done :: "nat \<Rightarrow> bool"
  handle_words :: "'ix \<Rightarrow> Document \<Rightarrow> CrawlFeatures \<Rightarrow> f64 \<Rightarrow> Passage list \<Rightarrow> ((f64 \<times> bool) \<times> 'ix) go"
  put_urls :: "'ix \<Rightarrow> bytes \<Rightarrow> bytes \<Rightarrow> 'ix"
  get_urls :: "'ix \<Rightarrow> bytes \<Rightarrow> bytes option"

record ('c, 'r, 'l, 'ix) scrape_state =
  sc_visited :: "string \<rightharpoonup> int"
  sc_links :: 'c
  sc_rules :: 'r
  sc_limits :: 'l
  sc_index :: 'ix
  sc_submitted :: "LinkToken list"

section \<open>Rules and sitemaps\<close>

definition BaseXMLPageError :: string where
  "BaseXMLPageError = ''sitemap page''"

text \<open>\<open>None\<close> is an error.\<close>

definition robots_url :: "string \<Rightarrow> string" where
  "robots_url url = url @ ''/robots.txt''"

definition FetchRobotsTxt :: "('c, 'r, 'l, 'ix) scrape_env \<Rightarrow> string \<Rightarrow> string option" where
  "FetchRobotsTxt env url =
     (case do_request env (robots_url url) 0 of
        None \<Rightarrow> None
      | Some resp \<Rightarrow> if StatusCode resp \<noteq> 200 then None else Body resp)"

text \<open>\<open>decodeSitemap\<close> and \<open>getSitemapURLs\<close>; the status of the response is not looked at.\<close>

definition decodeSitemap :: "xml_token list \<times> bool \<Rightarrow> string + string list" where
  "decodeSitemap r =
     (if snd r then Inr (concat (map (\<lambda>t. case t of XmlStart name (Some url) \<Rightarrow> if name = ''loc'' then [url] else [] | _ \<Rightarrow> []) (fst r)))
      else Inl ''XML syntax error'')"

definition byte_order_mark :: string where
  "byte_order_mark = [CHR 0xEF, CHR 0xBB, CHR 0xBF]"

definition sitemap_body :: "string \<Rightarrow> string" where
  "sitemap_body body =
     trim_prefix (trim_prefix (str_replace (''xmlns='' @ CHR 0x22 # ''http://www.sitemaps.org/schemas/sitemap/0.9'' @ [CHR 0x22]) [] body)
       byte_order_mark) byte_order_mark"

definition getSitemapURLs :: "('c, 'r, 'l, 'ix) scrape_env \<Rightarrow> string \<Rightarrow> string + string list" where
  "getSitemapURLs env url =
     (case do_request env url 0 of
        None \<Rightarrow> Inl ''request failed''
      | Some resp \<Rightarrow>
          (case Body resp of
             None \<Rightarrow> Inl ''read failed''
           | Some body \<Rightarrow> decodeSitemap (xml_tokens env (sitemap_body body))))"

text \<open>\<open>processSitemap\<close>: the entries that are absolute https links.\<close>

definition processSitemap :: "('c, 'r, 'l, 'ix) scrape_env \<Rightarrow> go_url \<Rightarrow> string \<Rightarrow> string + string list" where
  "processSitemap env baseURL sitemapURL =
     (case getSitemapURLs env sitemapURL of
        Inl e \<Rightarrow> Inl e
      | Inr items \<Rightarrow> Inr (concat (map (\<lambda>item.
          case makeAbsoluteURL (sc_lib env) item baseURL of Inl e \<Rightarrow> [] | Inr url \<Rightarrow> if url = [] then [] else [url]) items)))"

definition sitemap_url :: "url_lib \<Rightarrow> go_url \<Rightarrow> string" where
  "sitemap_url lib url =
     (let sitemapURL = resetUrl url in
      if \<not> str_contains sitemapURL ''sitemap'' then trim_end (url_String lib url) ''/'' @ ''/'' @ ''sitemap'' @ ''.xml''
      else sitemapURL)"

definition haveSitemap :: "('c, 'r, 'l, 'ix) scrape_env \<Rightarrow> go_url \<Rightarrow> string + string list" where
  "haveSitemap env url = processSitemap env url (sitemap_url (sc_lib env) url)"

definition sitemap_links :: "('c, 'r, 'l, 'ix) scrape_env \<Rightarrow> go_url \<Rightarrow> string list \<Rightarrow> LinkToken list" where
  "sitemap_links env current urls =
     concat (map (\<lambda>link. case url_Parse (sc_lib env) link of
         None \<Rightarrow> []
       | Some parsed \<Rightarrow>
           let same = isSameOrigin parsed current in
           if \<not> same \<and> OnlySameDomain env then []
           else [\<lparr>Link = parsed, Priority = Fin 0, Depth = 0, SameDomain = same\<rparr>]) urls)"

text \<open>The links and the text of the error, which is never nil.\<close>

definition prepareSitemapLinks :: "('c, 'r, 'l, 'ix) scrape_env \<Rightarrow> go_url \<Rightarrow> LinkToken list \<times> string" where
  "prepareSitemapLinks env current =
     (case haveSitemap env current of
        Inl e \<Rightarrow> ([], e)
      | Inr urls \<Rightarrow> (sitemap_links env current urls, BaseXMLPageError))"

text \<open>The delay of the rules replaces a default limiter of the host; an absent rule is the zero value.\<close>

definition crawl_delay :: "RobotsTxt \<Rightarrow> int" where
  "crawl_delay rules = (case rules ''*'' of None \<Rightarrow> 0 | Some r \<Rightarrow> Delay r)"

definition apply_delay :: "('c, 'r, 'l, 'ix) scrape_env \<Rightarrow> 'l \<Rightarrow> string \<Rightarrow> RobotsTxt \<Rightarrow> 'l go" where
  "apply_delay env lc host rules =
     (case limit_get env lc host of
        Inl p \<Rightarrow> Inl p
      | Inr (known, lc1) \<Rightarrow>
          (case known of
             None \<Rightarrow> Inr lc1
           | Some rl \<Rightarrow>
               if rl_rate rl = DefaultDelay \<and> crawl_delay rules > 0 then limit_put env lc1 host (NewRateLimiter (crawl_delay rules))
               else Inr lc1))"

definition fetchPageRulesAndOffers :: "('c, 'r, 'l, 'ix) scrape_env \<Rightarrow> 'l \<Rightarrow> go_url \<Rightarrow>
    ((LinkToken list \<times> RobotsTxt option \<times> string) \<times> 'l) go" where
  "fetchPageRulesAndOffers env lc cur =
     (let (links, err) = prepareSitemapLinks env cur in
      case FetchRobotsTxt env (resetUrl cur) of
        None \<Rightarrow> Inr ((links, None, err), lc)
      | Some r \<Rightarrow>
          if r = [] then Inr ((links, None, err), lc)
          else case ParseRobotsTxt r of
            Inl p \<Rightarrow> Inl p
          | Inr rules \<Rightarrow> map_sum id (\<lambda>lc'. ((links, Some rules, err), lc')) (apply_delay env lc (Hostname cur) rules))"

section \<open>Downloading a page\<close>

text \<open>\<open>charsetFromResponse\<close>; the expression for the meta element is a parameter.\<close>

definition wantedCharset :: string where
  "wantedCharset = ''utf-8''"

definition charsetFromResponse :: "(string \<rightharpoonup> string) \<Rightarrow> (string \<Rightarrow> string option) \<Rightarrow> string \<Rightarrow> string" where
  "charsetFromResponse header meta html =
     (let cset = to_lower (case header ''Charset'' of None \<Rightarrow> [] | Some v \<Rightarrow> v) in
      if cset \<noteq> [] then cset
      else case meta html of Some m \<Rightarrow> to_lower (trim_space m) | None \<Rightarrow> wantedCharset)"

text \<open>The header of the request, which is also where the charset is looked up.\<close>

definition request_header :: "string \<rightharpoonup> string" where
  "request_header = [''User-Agent'' \<mapsto> ''WFTSBot/1.0'', ''Accept'' \<mapsto> ''text/html'']"

definition numOfTries :: nat where
  "numOfTries = 3"

definition page_text :: "('c, 'r, 'l, 'ix) scrape_env \<Rightarrow> string \<Rightarrow> string" where
  "page_text env body =
     (let chset = charsetFromResponse request_header (meta_charset env) body in
      if chset \<noteq> wantedCharset then decode_charset env chset body else body)"

text \<open>
  \<open>getHTML\<close>: \<open>ctx_over\<close>, \<open>global_over\<close> and \<open>read_over\<close> are the answers of the contexts; \<open>None\<close> is an error.
  Waiting for a token of the limiter is a step of \<open>RateLimiter\<close>.
\<close>

fun getHTML :: "('c, 'r, 'l, 'ix) scrape_env \<Rightarrow> string \<Rightarrow> nat \<Rightarrow> string option" where
  "getHTML env url 0 = None"
| "getHTML env url (Suc n) =
     (case do_request env url (Suc n) of
        None \<Rightarrow> None
      | Some resp \<Rightarrow>
          if StatusCode resp = 429 \<and> \<not> ctx_over env (Suc n) then getHTML env url n
          else if StatusCode resp < 200 \<or> StatusCode resp \<ge> 300 then None
          else if global_over env then None
          else if \<not> str_contains (ContentType resp) ''text/html'' then None
          else case Body resp of
            None \<Rightarrow> None
          | Some body \<Rightarrow> if read_over env then None else Some (page_text env (take (10 * 1024 * 1024) body)))"

text \<open>The limiter of the host, a new one if there is none.\<close>

definition host_limiter :: "('c, 'r, 'l, 'ix) scrape_env \<Rightarrow> 'l \<Rightarrow> string \<Rightarrow> (rateLimiter \<times> 'l) go" where
  "host_limiter env lc host =
     (case limit_get env lc host of
        Inl p \<Rightarrow> Inl p
      | Inr (Some rl, lc1) \<Rightarrow> Inr (rl, lc1)
      | Inr (None, lc1) \<Rightarrow> map_sum id (Pair (NewRateLimiter DefaultDelay)) (limit_put env lc1 host (NewRateLimiter DefaultDelay)))"

section \<open>Fetching and submitting\<close>

text \<open>\<open>*pr += math.Log(...)\<close>.\<close>

definition add_real :: "f64 \<Rightarrow> real \<Rightarrow> f64" where
  "add_real x r = (case x of Fin a \<Rightarrow> Fin (a + r) | _ \<Rightarrow> x)"

text \<open>\<open>fetchHTMLcontent\<close>: the links, the priority, and whether there was no error.\<close>

definition fetchHTMLcontent :: "('c, 'r, 'l, 'ix) scrape_env \<Rightarrow> ('c, 'r, 'l, 'ix) scrape_state \<Rightarrow> f64 \<Rightarrow> go_url \<Rightarrow> string \<Rightarrow> int \<Rightarrow>
    ((LinkToken list \<times> f64 \<times> bool) \<times> ('c, 'r, 'l, 'ix) scrape_state) go" where
  "fetchHTMLcontent env st0 pr cur nrm gd =
     (case host_limiter env (sc_limits st0) (Hostname cur) of
        Inl p \<Rightarrow> Inl p
      | Inr (rl, ll) \<Rightarrow>
     let st = st0\<lparr>sc_limits := ll\<rparr>; curl = url_String (sc_lib env) cur in
     case getHTML env curl numOfTries of
        None \<Rightarrow> Inr (([], pr, False), st)
      | Some doc \<Rightarrow>
          if doc = [] then Inr (([], pr, False), st)
          else
            let hashed = sha256 env nrm;
                document = \<lparr>DocId = hashed, DocURL = curl, TokenCount = 0\<rparr>;
                feats = \<lparr>DomDepth = 0, TagCount = 0, UrlLen = int (length curl), UrlCount = 0,
                  PathLen = int (length (Path cur)), HostLen = int (length (Hostname cur))\<rparr>
            in case rules_get env (sc_rules st) (Hostname cur) of
              Inl p \<Rightarrow> Inl p
            | Inr (rules, rc) \<Rightarrow>
                (case parseHTMLStream \<lparr>env_lib = sc_lib env, env_visited = sc_visited st, env_rules = rules, env_base = cur, currentDeep = gd\<rparr>
                    (parse_done env) (html_tokens env doc) feats of
                   Inl p \<Rightarrow> Inl p
                 | Inr (links, passages, feats') \<Rightarrow>
                     let st1 = st\<lparr>sc_rules := rc\<rparr> in
                     case (if links = [] then Inr (pr, sc_links st1)
                           else map_sum id (Pair (add_real pr (ln (real (length links) + 1)))) (link_put env (sc_links st1) hashed links)) of
                       Inl p \<Rightarrow> Inl p
                     | Inr (pr1, lc) \<Rightarrow>
                         map_sum id (\<lambda>((pr', ok), ix). ((links, pr', ok), st1\<lparr>sc_links := lc, sc_index := ix\<rparr>))
                           (handle_words env (sc_index st1) document feats' pr1 passages)))"

text \<open>\<open>math.Pow(x, 0.6)\<close>.\<close>

definition pow06 :: "f64 \<Rightarrow> f64" where
  "pow06 x = (case x of
     NaN \<Rightarrow> NaN | Fin a \<Rightarrow> (if a < 0 then NaN else Fin (a powr (6 / 10))) | PosInf \<Rightarrow> PosInf | NegInf \<Rightarrow> PosInf)"

definition link_priority :: "f64 \<Rightarrow> bool \<Rightarrow> int \<Rightarrow> int \<Rightarrow> f64 \<Rightarrow> f64" where
  "link_priority priority same depth visPenalty parent =
     (let p = (if same then fmul priority (Fin 2) else priority);
          depthPriority = 1 / real_of_int (depth + 1) / real_of_int (visPenalty + 1)
      in fmul (fmul (fmul p (Fin 3)) (Fin depthPriority)) (pow06 parent))"

text \<open>The loop that submits the links; \<open>over n\<close> is the answer of the context at the \<open>n\<close>-th link.\<close>

fun submit_links :: "bool \<Rightarrow> (nat \<Rightarrow> bool) \<Rightarrow> nat \<Rightarrow> LinkToken \<Rightarrow> f64 \<Rightarrow> int \<Rightarrow> LinkToken list \<Rightarrow> LinkToken list \<Rightarrow> CompletionState \<times> LinkToken list" where
  "submit_links same_only over n curLink priority visPenalty [] submitted = (Done, submitted)"
| "submit_links same_only over n curLink priority visPenalty (link # links) submitted =
     (if same_only \<and> \<not> SameDomain link then submit_links same_only over (n + 1) curLink priority visPenalty links submitted
      else if over n then (Canceled, submitted)
      else
        let depth = Depth curLink + 1;
            link' = link\<lparr>Depth := depth, Priority := link_priority priority (SameDomain link) depth visPenalty (Priority curLink)\<rparr>
        in submit_links same_only over (n + 1) curLink priority visPenalty links (submitted @ [link']))"

definition submit_all :: "('c, 'r, 'l, 'ix) scrape_env \<Rightarrow> (nat \<Rightarrow> bool) \<Rightarrow> LinkToken \<Rightarrow> f64 \<Rightarrow> int \<Rightarrow> LinkToken list \<Rightarrow>
    ('c, 'r, 'l, 'ix) scrape_state \<Rightarrow> (CompletionState \<times> ('c, 'r, 'l, 'ix) scrape_state) go" where
  "submit_all env over curLink priority visPenalty links st =
     (let (c, sub) = submit_links (OnlySameDomain env) over 0 curLink priority visPenalty links (sc_submitted st) in
      Inr (c, st\<lparr>sc_submitted := sub\<rparr>))"

text \<open>A page seen before at a greater depth: its links from the cache or the database.\<close>

definition reload_links :: "('c, 'r, 'l, 'ix) scrape_env \<Rightarrow> ('c, 'r, 'l, 'ix) scrape_state \<Rightarrow> bytes \<Rightarrow>
    (LinkToken list option \<times> ('c, 'r, 'l, 'ix) scrape_state) go" where
  "reload_links env st hashed =
     (case link_get env (sc_links st) hashed of
        Inl p \<Rightarrow> Inl p
      | Inr (Some links, lc) \<Rightarrow> Inr (Some links, st\<lparr>sc_links := lc\<rparr>)
      | Inr (None, lc) \<Rightarrow>
          (case get_urls env (sc_index st) hashed of
             None \<Rightarrow> Inr (None, st\<lparr>sc_links := lc\<rparr>)
           | Some encoded \<Rightarrow>
               (case gob_Decode env encoded of
                  None \<Rightarrow> Inr (None, st\<lparr>sc_links := lc\<rparr>)
                | Some links \<Rightarrow>
                    if links = [] then Inr (Some links, st\<lparr>sc_links := lc\<rparr>)
                    else (case link_put env lc hashed links of
                        Inl p \<Rightarrow> Inl p
                      | Inr lc' \<Rightarrow> Inr (Some links, st\<lparr>sc_links := lc'\<rparr>)))))"

text \<open>The branch of a page that offers no sitemap links.\<close>

definition scrape_page :: "('c, 'r, 'l, 'ix) scrape_env \<Rightarrow> (nat \<Rightarrow> bool) \<Rightarrow> ('c, 'r, 'l, 'ix) scrape_state \<Rightarrow> LinkToken \<Rightarrow> string \<Rightarrow>
    (CompletionState \<times> ('c, 'r, 'l, 'ix) scrape_state) go" where
  "scrape_page env over st curLink normalized =
     (let hashed = sha256 env normalized; st1 = st\<lparr>sc_visited := (sc_visited st)(normalized \<mapsto> Depth curLink)\<rparr> in
      case sc_visited st normalized of
        Some prevDepth \<Rightarrow>
          if prevDepth \<le> Depth curLink then Inr (Done, st)
          else
            (case reload_links env st1 hashed of
               Inl p \<Rightarrow> Inl p
             | Inr (None, st2) \<Rightarrow> Inr (Error, st2)
             | Inr (Some links, st2) \<Rightarrow>
                 if links = [] then Inr (Done, st2)
                 else submit_all env over curLink (Fin 1) (prevDepth - Depth curLink) links st2)
      | None \<Rightarrow>
          (case fetchHTMLcontent env st1 (Fin 1) (Link curLink) normalized (Depth curLink) of
             Inl p \<Rightarrow> Inl p
           | Inr ((links, priority, ok), st2) \<Rightarrow>
               if \<not> ok then Inr (Error, st2)
               else if links = [] then Inr (Done, st2)
               else (case gob_Encode env links of
                   None \<Rightarrow> Inr (Error, st2)
                 | Some b \<Rightarrow>
                     submit_all env over curLink priority 0 links
                       (st2\<lparr>sc_index := put_urls env (sc_index st2) hashed b\<rparr>))))"

text \<open>\<open>ScrapeWithContext\<close>: \<open>ctx0\<close> and \<open>ctx1\<close> are the answers of the context at the start and after the rules.\<close>

definition ScrapeWithContext :: "('c, 'r, 'l, 'ix) scrape_env \<Rightarrow> bool \<Rightarrow> bool \<Rightarrow> (nat \<Rightarrow> bool) \<Rightarrow> ('c, 'r, 'l, 'ix) scrape_state \<Rightarrow> LinkToken \<Rightarrow>
    (CompletionState \<times> ('c, 'r, 'l, 'ix) scrape_state) go" where
  "ScrapeWithContext env ctx0 ctx1 over st0 curLink =
     (if ctx0 then Inr (Canceled, st0)
      else
        let normalized = normalizeUrl (sc_lib env) (Link curLink) in
        case fetchPageRulesAndOffers env (sc_limits st0) (Link curLink) of
          Inl p \<Rightarrow> Inl p
        | Inr ((links, rls, err), ll) \<Rightarrow>
            let st = st0\<lparr>sc_limits := ll\<rparr> in
            if err = BaseXMLPageError \<or> ctx1 then Inr (Done, st)
            else
              (case (case rls of
                   None \<Rightarrow> Inr (sc_rules st)
                 | Some r \<Rightarrow> (case rules_get env (sc_rules st) (Hostname (Link curLink)) of
                       Inl p \<Rightarrow> Inl p
                     | Inr (Some r', rc) \<Rightarrow> Inr rc
                     | Inr (None, rc) \<Rightarrow> rules_put env rc (Hostname (Link curLink)) r)) of
                 Inl p \<Rightarrow> Inl p
               | Inr rc \<Rightarrow>
                   let st1 = st\<lparr>sc_rules := rc\<rparr> in
                   if links = [] then scrape_page env over st1 curLink normalized
                   else submit_all env over curLink (Fin 1) 0 links st1))"

end
