(* ===== verification/Crawl.thy ===== *)
theory Crawl
  imports Scraper LruCache IndexStore
begin

text \<open>
  Properties of the crawl step: pages with a sitemap are never scraped, a page is expanded again only from a
  smaller depth, and so only a bounded number of times over a whole crawl.
\<close>

section \<open>One step\<close>

lemma submit_links_new:
  "\<exists>new. snd (submit_links same_only over n cur pr pen links sub) = sub @ new \<and>
     (\<forall>l \<in> set new. Depth l = Depth cur + 1 \<and> (same_only \<longrightarrow> SameDomain l))"
proof (induction links arbitrary: n sub)
  case (Cons link links)
  let ?l = "link\<lparr>Depth := Depth cur + 1, Priority := link_priority pr (SameDomain link) (Depth cur + 1) pen (Priority cur)\<rparr>"
  show ?case
  proof (cases "(same_only \<and> \<not> SameDomain link) \<or> over n")
    case True
    then show ?thesis using Cons.IH [of "n + 1" sub] by (auto simp: Let_def)
  next
    case False
    obtain new where "snd (submit_links same_only over (n + 1) cur pr pen links (sub @ [?l])) = (sub @ [?l]) @ new"
      "\<forall>l \<in> set new. Depth l = Depth cur + 1 \<and> (same_only \<longrightarrow> SameDomain l)" using Cons.IH by blast
    then show ?thesis using False by (intro exI [of _ "?l # new"]) (auto simp: Let_def)
  qed
qed simp

text \<open>A step submits links one deeper than the page, of its domain if the crawl is restricted to it.\<close>

definition submits :: "('c, 'r, 'l, 'ix) scrape_env \<Rightarrow> LinkToken \<Rightarrow> ('c, 'r, 'l, 'ix) scrape_state \<Rightarrow> ('c, 'r, 'l, 'ix) scrape_state \<Rightarrow> bool" where
  "submits env cur st st' \<longleftrightarrow>
     (\<exists>new. sc_submitted st' = sc_submitted st @ new \<and> (\<forall>l \<in> set new. Depth l = Depth cur + 1 \<and> (OnlySameDomain env \<longrightarrow> SameDomain l)))"

lemma submit_all_effect:
  assumes "submit_all env over cur pr pen links st = Inr (c, st')"
  shows "sc_visited st' = sc_visited st \<and> submits env cur st st'"
  using assms submit_links_new [of "OnlySameDomain env" over 0 cur pr pen links "sc_submitted st"]
  by (auto simp: submit_all_def submits_def Let_def split: prod.splits)

lemma reload_links_effect:
  "reload_links env st h = Inr (r, st') \<Longrightarrow> sc_visited st' = sc_visited st \<and> sc_submitted st' = sc_submitted st"
  by (auto simp: reload_links_def split: sum.splits prod.splits option.splits if_splits)

lemma fetchHTMLcontent_effect:
  assumes "fetchHTMLcontent env st pr cur nrm gd = Inr (r, st')"
  shows "sc_visited st' = sc_visited st \<and> sc_submitted st' = sc_submitted st"
proof -
  obtain rl ll where l: "host_limiter env (sc_limits st) (Hostname cur) = Inr (rl, ll)"
    using assms by (auto simp: fetchHTMLcontent_def split: sum.splits)
  show ?thesis using assms unfolding fetchHTMLcontent_def l
    by (auto simp: Let_def map_sum_Inr split: sum.splits prod.splits option.splits if_splits)
qed

text \<open>What a step does to the visited pages and the submissions.\<close>

definition step_effect :: "('c, 'r, 'l, 'ix) scrape_env \<Rightarrow> LinkToken \<Rightarrow> ('c, 'r, 'l, 'ix) scrape_state \<Rightarrow> ('c, 'r, 'l, 'ix) scrape_state \<Rightarrow> bool" where
  "step_effect env cur st st' \<longleftrightarrow>
     (let u = normalizeUrl (sc_lib env) (Link cur) in
      (sc_visited st' = sc_visited st \<and> sc_submitted st' = sc_submitted st) \<or>
      ((case sc_visited st u of None \<Rightarrow> True | Some d \<Rightarrow> Depth cur < d) \<and>
       sc_visited st' = (sc_visited st)(u \<mapsto> Depth cur) \<and> submits env cur st st'))"

lemma submits_refl: "sc_submitted st' = sc_submitted st \<Longrightarrow> submits env cur st st'"
  by (simp add: submits_def)

lemma scrape_page_effect:
  assumes "scrape_page env over st cur (normalizeUrl (sc_lib env) (Link cur)) = Inr (c, st')"
  shows "step_effect env cur st st'"
proof -
  let ?u = "normalizeUrl (sc_lib env) (Link cur)"
  let ?st1 = "st\<lparr>sc_visited := (sc_visited st)(?u \<mapsto> Depth cur)\<rparr>"
  have sub: "sc_visited st' = sc_visited ?st1 \<and> submits env cur st st'"
    if "sc_visited st2 = sc_visited ?st1 \<and> sc_submitted st2 = sc_submitted st" "submit_all env over cur pr pen links st2 = Inr (c, st')" for st2 pr pen links
    using submit_all_effect [OF that(2)] that(1) by (simp add: submits_def)
  show ?thesis
  proof (cases "sc_visited st ?u")
    case (Some d)
    show ?thesis
    proof (cases "d \<le> Depth cur")
      case True
      then show ?thesis using assms Some by (simp add: scrape_page_def step_effect_def)
    next
      case False
      then obtain r st2 where r: "reload_links env ?st1 (sha256 env ?u) = Inr (r, st2)"
        using assms Some by (auto simp: scrape_page_def Let_def split: sum.splits)
      have st2: "sc_visited st2 = sc_visited ?st1 \<and> sc_submitted st2 = sc_submitted st" using reload_links_effect [OF r] by simp
      then have "sc_visited st' = sc_visited ?st1 \<and> submits env cur st st'"
        using assms Some False r sub [OF st2] by (auto simp: scrape_page_def Let_def intro: submits_refl split: option.splits if_splits)
      then show ?thesis using Some False by (simp add: step_effect_def Let_def)
    qed
  next
    case None
    then obtain links pr ok st2 where r: "fetchHTMLcontent env ?st1 (Fin 1) (Link cur) ?u (Depth cur) = Inr ((links, pr, ok), st2)"
      using assms by (auto simp: scrape_page_def Let_def split: sum.splits)
    have st2: "sc_visited st2 = sc_visited ?st1 \<and> sc_submitted st2 = sc_submitted st" using fetchHTMLcontent_effect [OF r] by simp
    have st3: "sc_visited (st2\<lparr>sc_index := db\<rparr>) = sc_visited ?st1 \<and> sc_submitted (st2\<lparr>sc_index := db\<rparr>) = sc_submitted st" for db using st2 by simp
    have "sc_visited st' = sc_visited ?st1 \<and> submits env cur st st'"
      using assms None r st2 sub [OF st3] by (auto simp: scrape_page_def Let_def intro: submits_refl split: option.splits if_splits)
    then show ?thesis using None by (simp add: step_effect_def Let_def)
  qed
qed

lemma sitemap_error: "fetchPageRulesAndOffers env lc cur = Inr ((links, rls, err), lc') \<Longrightarrow> err \<noteq> BaseXMLPageError \<Longrightarrow> links = []"
  by (cases "haveSitemap env cur") (auto simp: fetchPageRulesAndOffers_def prepareSitemapLinks_def map_sum_Inr split: if_splits option.splits sum.splits)

lemma step_effect_rules: "step_effect env cur (st\<lparr>sc_limits := ll, sc_rules := rc\<rparr>) st' \<Longrightarrow> step_effect env cur st st'"
  by (simp add: step_effect_def submits_def)

lemma scrape_effect:
  assumes "ScrapeWithContext env ctx0 ctx1 over st cur = Inr (c, st')"
  shows "step_effect env cur st st'"
proof (cases "ctx0")
  case False
  obtain links rls err ll where f: "fetchPageRulesAndOffers env (sc_limits st) (Link cur) = Inr ((links, rls, err), ll)"
    using assms False by (auto simp: ScrapeWithContext_def Let_def split: sum.splits)
  show ?thesis
  proof (cases "err = BaseXMLPageError \<or> ctx1")
    case True
    then have "st' = st\<lparr>sc_limits := ll\<rparr>" using assms False f by (auto simp: ScrapeWithContext_def Let_def)
    then show ?thesis by (simp add: step_effect_def)
  next
    case go: False
    then have "links = []" using sitemap_error [OF f] by simp
    then obtain rc where "scrape_page env over (st\<lparr>sc_limits := ll, sc_rules := rc\<rparr>) cur (normalizeUrl (sc_lib env) (Link cur)) = Inr (c, st')"
      using assms False f go by (auto simp: ScrapeWithContext_def Let_def split: sum.splits)
    then have "step_effect env cur (st\<lparr>sc_limits := ll, sc_rules := rc\<rparr>) st'" by (rule scrape_page_effect)
    then show ?thesis by (rule step_effect_rules)
  qed
qed (use assms in \<open>simp add: ScrapeWithContext_def step_effect_def\<close>)

section \<open>Delays\<close>

text \<open>The delay of a file that names every agent once is 0: it never replaces the limiter of the host.\<close>

lemma crawl_delay_ignored:
  assumes "distinct (robots_agents content)" "ParseRobotsTxt content = Inr rules"
  shows "apply_delay env lc host rules = map_sum id snd (limit_get env lc host)"
proof -
  have "crawl_delay rules = 0"
  proof (cases "rules ''*''")
    case (Some rule)
    then show ?thesis using robots_rules_empty [OF assms Some] by (simp add: crawl_delay_def empty_rule_def)
  qed (simp add: crawl_delay_def)
  then show ?thesis by (auto simp: apply_delay_def split: sum.splits option.splits)
qed

text \<open>A file that names an agent twice does set a delay, and one that is too long for a duration stops the program.\<close>

definition slow_robots :: string where
  "slow_robots = ''user-agent: *'' @ CHR 0x0A # ''crawl-delay: 9223372037'' @ CHR 0x0A # ''user-agent: *''"

lemma long_delay_panics: "\<exists>rules. ParseRobotsTxt slow_robots = Inr rules \<and> rl_crash (NewRateLimiter (crawl_delay rules)) \<noteq> None"
proof -
  have "map_sum id crawl_delay (ParseRobotsTxt slow_robots) = Inr 9223372037" by code_simp
  moreover have "rl_crash (NewRateLimiter 9223372037) \<noteq> None" by (simp add: NewRateLimiter_def ticker_period_def)
  ultimately show ?thesis by (cases "ParseRobotsTxt slow_robots") auto
qed

section \<open>A crawl\<close>

text \<open>
  A crawl is a sequence of steps on one state. The log has, for every step, the key and depth of the page and
  whether the step submitted links.
\<close>

record crawl_call =
  call_ctx0 :: bool
  call_ctx1 :: bool
  call_over :: "nat \<Rightarrow> bool"
  call_link :: LinkToken

fun crawl :: "('c, 'r, 'l, 'ix) scrape_env \<Rightarrow> ('c, 'r, 'l, 'ix) scrape_state \<Rightarrow> crawl_call list \<Rightarrow> (('c, 'r, 'l, 'ix) scrape_state \<times> (string \<times> int) list) go" where
  "crawl env st [] = Inr (st, [])"
| "crawl env st (c # cs) =
     (case ScrapeWithContext env (call_ctx0 c) (call_ctx1 c) (call_over c) st (call_link c) of
        Inl p \<Rightarrow> Inl p
      | Inr (r, st1) \<Rightarrow>
          (case crawl env st1 cs of
             Inl p \<Rightarrow> Inl p
           | Inr (st', lg) \<Rightarrow>
               Inr (st', (if length (sc_submitted st1) \<noteq> length (sc_submitted st)
                 then [(normalizeUrl (sc_lib env) (Link (call_link c)), Depth (call_link c))] else []) @ lg)))"

definition depths_of :: "string \<Rightarrow> (string \<times> int) list \<Rightarrow> int list" where
  "depths_of u lg = map snd (filter (\<lambda>e. fst e = u) lg)"

lemma crawl_depths:
  "crawl env st cs = Inr (st', lg) \<Longrightarrow> sorted_wrt (>) (depths_of u lg) \<and> (\<forall>d0. sc_visited st u = Some d0 \<longrightarrow> (\<forall>d \<in> set (depths_of u lg). d < d0))"
proof (induction cs arbitrary: st lg)
  case Nil
  then show ?case by (simp add: depths_of_def)
next
  case (Cons c cs)
  let ?v = "normalizeUrl (sc_lib env) (Link (call_link c))" and ?d = "Depth (call_link c)"
  obtain r st1 where s: "ScrapeWithContext env (call_ctx0 c) (call_ctx1 c) (call_over c) st (call_link c) = Inr (r, st1)"
    using Cons.prems by (auto split: sum.splits)
  obtain lg1 where l: "crawl env st1 cs = Inr (st', lg1)"
    "lg = (if length (sc_submitted st1) \<noteq> length (sc_submitted st) then [(?v, ?d)] else []) @ lg1"
    using Cons.prems s by (auto split: sum.splits)
  note ih = Cons.IH [OF l(1)]
  consider "sc_visited st1 = sc_visited st" "sc_submitted st1 = sc_submitted st"
    | "case sc_visited st ?v of None \<Rightarrow> True | Some d \<Rightarrow> ?d < d" "sc_visited st1 = (sc_visited st)(?v \<mapsto> ?d)"
    using scrape_effect [OF s] by (auto simp: step_effect_def Let_def)
  then show ?case
  proof cases
    case 1
    then show ?thesis using ih l(2) by simp
  next
    case 2
    show ?thesis
    proof (cases "u = ?v")
      case True
      then have "sc_visited st1 u = Some ?d" using 2(2) by simp
      then have "\<forall>d \<in> set (depths_of u lg1). d < ?d" using ih by blast
      then show ?thesis using ih l(2) True 2(1) by (auto simp: depths_of_def split: option.splits)
    next
      case False
      then have "depths_of u lg = depths_of u lg1" using l(2) by (simp add: depths_of_def)
      then show ?thesis using ih False 2(2) by simp
    qed
  qed
qed

lemma decreasing_bound:
  assumes "sorted_wrt (>) (ds :: int list)" "\<forall>d \<in> set ds. 0 \<le> d \<and> d \<le> D"
  shows "length ds \<le> nat (D + 1)"
proof -
  have "distinct ds" using assms(1) by (induction ds) auto
  then have "length ds = card (set ds)" by (simp add: distinct_card)
  also have "\<dots> \<le> card {0..D}" using assms(2) by (intro card_mono) auto
  finally show ?thesis by simp
qed

section \<open>Properties\<close>


text \<open>
  C32: a page is never scraped if the request for its sitemap is answered, with whatever status, by a text that is
  XML up to its end, such as an empty text or a plain error message: the step returns \<open>Done\<close>, the page is not
  entered in the visited pages, and nothing is submitted, although the links of the sitemap were prepared; only
  the limiter of the host may change.
\<close>

theorem sitemap_page_dropped:
  assumes "do_request env (sitemap_url (sc_lib env) (Link cur)) 0 = Some resp" "Body resp = Some body" "snd (xml_tokens env (sitemap_body body))"
    and "\<And>lc rules. \<exists>lc'. apply_delay env lc (Hostname (Link cur)) rules = Inr lc'"
  shows "\<exists>ll. ScrapeWithContext env False ctx1 over st cur = Inr (Done, st\<lparr>sc_limits := ll\<rparr>)"
proof -
  obtain urls where "haveSitemap env (Link cur) = Inr urls" using assms(1-3) by (simp add: haveSitemap_def processSitemap_def getSitemapURLs_def decodeSitemap_def)
  then have "prepareSitemapLinks env (Link cur) = (sitemap_links env (Link cur) urls, BaseXMLPageError)" by (simp add: prepareSitemapLinks_def)
  then have "\<exists>links rls ll. fetchPageRulesAndOffers env (sc_limits st) (Link cur) = Inr ((links, rls, BaseXMLPageError), ll)"
    using ParseRobotsTxt_returns [of "the (FetchRobotsTxt env (resetUrl (Link cur)))"]
      assms(4) [of "sc_limits st" "projr (ParseRobotsTxt (the (FetchRobotsTxt env (resetUrl (Link cur)))))"]
    by (auto simp: fetchPageRulesAndOffers_def split: option.splits)
  then show ?thesis by (auto simp: ScrapeWithContext_def Let_def)
qed

text \<open>A concrete crawl: maps for the caches, one page with one link.\<close>

definition demo_anchor :: "html_token list" where
  "demo_anchor = [StartTag ''a'' [(''href'', ''docs'')], EndTag ''a'']"

definition demo_scrape :: "string option \<Rightarrow> (bytes \<rightharpoonup> LinkToken list, string \<rightharpoonup> RobotsTxt, string \<rightharpoonup> rateLimiter, (string \<times> bytes) list) scrape_env" where
  "demo_scrape cfg = \<lparr>sc_lib = env_lib demo_env, sha256 = (\<lambda>s. [1]),
     link_get = (\<lambda>m k. Inr (m k, m)), link_put = (\<lambda>m k v. Inr (m(k \<mapsto> v))),
     rules_get = (\<lambda>m k. Inr (m k, m)), rules_put = (\<lambda>m k v. Inr (m(k \<mapsto> v))),
     limit_get = (\<lambda>m k. Inr (m k, m)), limit_put = (\<lambda>m k v. Inr (m(k \<mapsto> v))),
     gob_Encode = (\<lambda>_. Some []), gob_Decode = (\<lambda>_. None), OnlySameDomain = False,
     do_request = (\<lambda>url n. if n = 0 then map_option (\<lambda>s. \<lparr>StatusCode = 404, ContentType = ''text/plain'', Body = Some s\<rparr>) cfg else Some \<lparr>StatusCode = 200, ContentType = ''text/html'', Body = Some ''page''\<rparr>),
     ctx_over = (\<lambda>_. False), global_over = False, read_over = False, meta_charset = (\<lambda>_. None), decode_charset = (\<lambda>_ s. s),
     xml_tokens = (\<lambda>_. ([XmlOther], True)),
     html_tokens = (\<lambda>_. demo_anchor), parse_done = (\<lambda>_. False), handle_words = (\<lambda>ix d f pr ps. Inr ((pr, True), ix)),
     put_urls = (\<lambda>ix k b. IndexUrlsByHash list_db ix k b), get_urls = (\<lambda>ix k. None)\<rparr>"

definition demo_link :: "int \<Rightarrow> LinkToken" where
  "demo_link d = \<lparr>Link = env_base demo_env, Priority = Fin 1, Depth = d, SameDomain = True\<rparr>"

definition demo_start :: "(bytes \<rightharpoonup> LinkToken list, string \<rightharpoonup> RobotsTxt, string \<rightharpoonup> rateLimiter, (string \<times> bytes) list) scrape_state" where
  "demo_start = \<lparr>sc_visited = Map.empty, sc_links = Map.empty, sc_rules = Map.empty, sc_limits = Map.empty, sc_index = [], sc_submitted = []\<rparr>"


definition demo_found :: LinkToken where
  "demo_found = \<lparr>Link = \<lparr>Scheme = ''https'', Hostname = ''docs'', Path = [], RawQuery = [], Fragment = []\<rparr>,
     Priority = Fin 0, Depth = 0, SameDomain = False\<rparr>"

lemma demo_parse:
  "parseHTMLStream \<lparr>env_lib = env_lib demo_env, env_visited = [''go.dev'' \<mapsto> 1], env_rules = None, env_base = env_base demo_env, currentDeep = 1\<rparr>
      (\<lambda>_. False) demo_anchor \<lparr>DomDepth = 0, TagCount = 0, UrlLen = 6, UrlCount = 0, PathLen = 0, HostLen = 6\<rparr> =
    Inr ([demo_found], [], \<lparr>DomDepth = 1, TagCount = 1, UrlLen = 6, UrlCount = 1, PathLen = 0, HostLen = 6\<rparr>)"
  by code_simp

lemma demo_key: "normalizeUrl (env_lib demo_env) (env_base demo_env) = ''go.dev''"
  by code_simp

lemma demo_base: "url_String (env_lib demo_env) (env_base demo_env) = ''go.dev''" "Path (env_base demo_env) = []" "Hostname (env_base demo_env) = ''go.dev''"
  by (simp_all add: demo_env_def)

lemma demo_fields:
  "sc_lib (demo_scrape s) = env_lib demo_env" "sha256 (demo_scrape s) u = [1]"
  "link_get (demo_scrape s) m k = Inr (m k, m)" "link_put (demo_scrape s) m k v = Inr (m(k \<mapsto> v))"
  "rules_get (demo_scrape s) m' k' = Inr (m' k', m')"
  "limit_get (demo_scrape s) m'' k' = Inr (m'' k', m'')" "limit_put (demo_scrape s) m'' k' v'' = Inr (m''(k' \<mapsto> v''))"
  "gob_Encode (demo_scrape s) ls = Some []" "OnlySameDomain (demo_scrape s) = False" "parse_done (demo_scrape s) = (\<lambda>_. False)"
  "getSitemapURLs (demo_scrape None) u = Inl ''request failed''" "html_tokens (demo_scrape s) t = demo_anchor" "handle_words (demo_scrape s) ix d f pr ps = Inr ((pr, True), ix)"
  "put_urls (demo_scrape s) ix k b = IndexUrlsByHash list_db ix k b"
  "do_request (demo_scrape None) u 0 = None"
  by (simp_all add: demo_scrape_def getSitemapURLs_def)

lemma demo_html: "getHTML (demo_scrape None) url numOfTries = Some ''page''"
proof -
  have tries: "numOfTries = Suc 2" by code_simp
  have "str_contains ''text/html'' ''text/html''" "charsetFromResponse request_header (\<lambda>_. None) ''page'' = wantedCharset"
    by code_simp+
  then show ?thesis unfolding tries getHTML.simps by (simp add: demo_scrape_def page_text_def)
qed

lemma demo_link_fields: "Link (demo_link d) = env_base demo_env" "Depth (demo_link d) = d"
  by (simp_all add: demo_link_def)

lemma demo_step1:
  "\<exists>l db. ScrapeWithContext (demo_scrape None) False False (\<lambda>_. False) demo_start (demo_link 1) =
     Inr (Done, \<lparr>sc_visited = [''go.dev'' \<mapsto> 1], sc_links = [[1] \<mapsto> [demo_found]], sc_rules = Map.empty, sc_limits = [''go.dev'' \<mapsto> NewRateLimiter DefaultDelay], sc_index = db, sc_submitted = [l]\<rparr>)"
  by (simp add: ScrapeWithContext_def fetchPageRulesAndOffers_def prepareSitemapLinks_def haveSitemap_def processSitemap_def demo_fields
    demo_link_fields demo_key FetchRobotsTxt_def BaseXMLPageError_def scrape_page_def submit_all_def demo_found_def Let_def
    demo_start_def fetchHTMLcontent_def host_limiter_def demo_html demo_base demo_parse IndexUrlsByHash_def list_db_def)

lemma demo_step2:
  "\<exists>l'. ScrapeWithContext (demo_scrape None) False False (\<lambda>_. False)
     \<lparr>sc_visited = [''go.dev'' \<mapsto> 1], sc_links = [[1] \<mapsto> [demo_found]], sc_rules = Map.empty, sc_limits = [''go.dev'' \<mapsto> NewRateLimiter DefaultDelay], sc_index = db, sc_submitted = [l]\<rparr> (demo_link 0) =
     Inr (Done, \<lparr>sc_visited = [''go.dev'' \<mapsto> 0], sc_links = [[1] \<mapsto> [demo_found]], sc_rules = Map.empty, sc_limits = [''go.dev'' \<mapsto> NewRateLimiter DefaultDelay], sc_index = db, sc_submitted = [l, l']\<rparr>)"
  by (simp add: ScrapeWithContext_def fetchPageRulesAndOffers_def prepareSitemapLinks_def haveSitemap_def processSitemap_def demo_fields
    demo_link_fields demo_key FetchRobotsTxt_def BaseXMLPageError_def scrape_page_def submit_all_def demo_found_def Let_def reload_links_def)

definition demo_call :: "int \<Rightarrow> crawl_call" where
  "demo_call d = \<lparr>call_ctx0 = False, call_ctx1 = False, call_over = (\<lambda>_. False), call_link = demo_link d\<rparr>"

lemma demo_crawl: "\<exists>st'. crawl (demo_scrape None) demo_start [demo_call 1, demo_call 0] = Inr (st', [(''go.dev'', 1), (''go.dev'', 0)])"
proof -
  obtain l db where s1: "ScrapeWithContext (demo_scrape None) False False (\<lambda>_. False) demo_start (demo_link 1) =
     Inr (Done, \<lparr>sc_visited = [''go.dev'' \<mapsto> 1], sc_links = [[1] \<mapsto> [demo_found]], sc_rules = Map.empty, sc_limits = [''go.dev'' \<mapsto> NewRateLimiter DefaultDelay], sc_index = db, sc_submitted = [l]\<rparr>)"
    using demo_step1 by blast
  obtain l' where s2: "ScrapeWithContext (demo_scrape None) False False (\<lambda>_. False)
     \<lparr>sc_visited = [''go.dev'' \<mapsto> 1], sc_links = [[1] \<mapsto> [demo_found]], sc_rules = Map.empty, sc_limits = [''go.dev'' \<mapsto> NewRateLimiter DefaultDelay], sc_index = db, sc_submitted = [l]\<rparr> (demo_link 0) =
     Inr (Done, \<lparr>sc_visited = [''go.dev'' \<mapsto> 0], sc_links = [[1] \<mapsto> [demo_found]], sc_rules = Map.empty, sc_limits = [''go.dev'' \<mapsto> NewRateLimiter DefaultDelay], sc_index = db, sc_submitted = [l, l']\<rparr>)"
    using demo_step2 by blast
  have "sc_lib (demo_scrape None) = env_lib demo_env" "Link (demo_link d) = env_base demo_env" "Depth (demo_link d) = d" for d
    by (simp_all add: demo_scrape_def demo_link_def)
  then show ?thesis using s1 s2 by (simp add: demo_call_def demo_key demo_start_def)
qed


theorem sitemap_page_dropped_witness:
  "\<exists>ll. ScrapeWithContext (demo_scrape (Some ''Not Found'')) False False (\<lambda>_. False) demo_start (demo_link 0) = Inr (Done, demo_start\<lparr>sc_limits := ll\<rparr>)"
  by (rule sitemap_page_dropped [of _ _ "\<lparr>StatusCode = 404, ContentType = ''text/plain'', Body = Some ''Not Found''\<rparr>" "''Not Found''"])
    (auto simp: demo_scrape_def apply_delay_def split: option.splits)

end
