(* ===== verification/Pipeline.thy ===== *)
theory Pipeline
  imports Query Crawl
begin

text \<open>
  The crawler with the real indexer behind its interface: \<open>HandleDocumentWords\<close> of \<open>WordHandling\<close> and the page
  links of \<open>IndexStore\<close>, on one database. A page that is crawled can be searched for.
\<close>

definition with_indexer :: "('db, (string, u32) LRUCache) indexer_env \<Rightarrow>
    ('c, 'r, 'l, ('db, (string, u32) LRUCache) indexer_state) scrape_env \<Rightarrow>
    ('c, 'r, 'l, ('db, (string, u32) LRUCache) indexer_state) scrape_env" where
  "with_indexer ie env = env\<lparr>
     handle_words := (\<lambda>ix doc f pr ps. map_sum id (\<lambda>((e, pr'), ix'). ((pr', e = None), ix')) (HandleDocumentWords ie ix doc f pr ps)),
     put_urls := (\<lambda>ix k b. set_db ix (IndexUrlsByHash (ix_kv ie) (ix_db ix) k b)),
     get_urls := (\<lambda>ix k. case GetPageUrlsByHash (ix_kv ie) (ix_db ix) k of Inl e \<Rightarrow> None | Inr b \<Rightarrow> Some b)\<rparr>"

lemma with_indexer_fields [simp]:
  "sc_lib (with_indexer ie env) = sc_lib env" "sha256 (with_indexer ie env) = sha256 env"
  "parse_done (with_indexer ie env) = parse_done env" "html_tokens (with_indexer ie env) = html_tokens env"
  "handle_words (with_indexer ie env) ix doc f pr ps =
     map_sum id (\<lambda>((e, pr'), ix'). ((pr', e = None), ix')) (HandleDocumentWords ie ix doc f pr ps)"
  "put_urls (with_indexer ie env) ix k b = set_db ix (IndexUrlsByHash (ix_kv ie) (ix_db ix) k b)"
  "do_request (with_indexer ie env) = do_request env" "ctx_over (with_indexer ie env) = ctx_over env"
  "global_over (with_indexer ie env) = global_over env" "read_over (with_indexer ie env) = read_over env"
  "meta_charset (with_indexer ie env) = meta_charset env" "decode_charset (with_indexer ie env) = decode_charset env"
  by (simp_all add: with_indexer_def)

lemma getHTML_with_indexer [simp]: "getHTML (with_indexer ie env) url n = getHTML env url n"
  by (induction n) (simp_all add: page_text_def Let_def split: option.split)

section \<open>Lemmas\<close>

text \<open>What a page parsed under some rules is.\<close>

definition page_parsed :: "('c, 'r, 'l, 'ix) scrape_env \<Rightarrow> go_url \<Rightarrow> (string \<rightharpoonup> int) \<Rightarrow> int \<Rightarrow> Passage list \<Rightarrow> bool" where
  "page_parsed env cur visited depth ps \<longleftrightarrow>
     (\<exists>body rules feats links feats'. getHTML env (url_String (sc_lib env) cur) numOfTries = Some body \<and>
        parseHTMLStream \<lparr>env_lib = sc_lib env, env_visited = visited, env_rules = rules, env_base = cur, currentDeep = depth\<rparr>
          (parse_done env) (html_tokens env body) feats = Inr (links, ps, feats'))"

text \<open>\<open>page_parsed\<close> fixes the types of the passages.\<close>

lemma parsed_types:
  assumes "page_parsed env cur visited depth ps"
  shows "\<forall>p \<in> set ps. PType p = BodyType \<or> PType p = HeaderType"
proof -
  obtain e d toks feats links feats' where "parseHTMLStream e d toks feats = Inr (links, ps, feats')" using assms by (auto simp: page_parsed_def)
  then obtain st where st: "page_loop e d 0 \<lparr>headerType = 0, garbageTagCounter = 0, page_links = [], pasages = [], curDomDepth = 0, features = feats\<rparr> toks = Inr st"
    "ps = pasages st" by (auto simp: parseHTMLStream_def map_sum_Inr)
  have "page_inv e (UrlCount feats) \<lparr>headerType = 0, garbageTagCounter = 0, page_links = [], pasages = [], curDomDepth = 0, features = feats\<rparr>"
    by (simp add: page_inv_def)
  from page_loop_inv [OF this st(1)] show ?thesis using st(2) by (auto simp: page_inv_def)
qed

lemma fetch_indexes:
  assumes "fetchHTMLcontent (with_indexer ie env) st pr cur nrm gd = Inr ((links, pr', True), st')"
  shows "\<exists>ps url f pr1 pr2. url = url_String (sc_lib env) cur \<and> page_parsed env cur (sc_visited st) gd ps \<and>
    HandleDocumentWords ie (sc_index st) \<lparr>DocId = sha256 env nrm, DocURL = url, TokenCount = 0\<rparr> f pr1 ps = Inr ((None, pr2), sc_index st')"
proof -
  obtain rl ll where l: "host_limiter (with_indexer ie env) (sc_limits st) (Hostname cur) = Inr (rl, ll)"
    using assms by (auto simp: fetchHTMLcontent_def split: sum.splits)
  obtain body where t: "getHTML env (url_String (sc_lib env) cur) numOfTries = Some body" "body \<noteq> []"
    using assms unfolding fetchHTMLcontent_def l by (auto simp: Let_def split: option.splits if_splits)
  let ?url = "url_String (sc_lib env) cur"
  let ?f = "\<lparr>DomDepth = 0, TagCount = 0, UrlLen = int (length ?url), UrlCount = 0, PathLen = int (length (Path cur)), HostLen = int (length (Hostname cur))\<rparr>"
  let ?doc = "\<lparr>DocId = sha256 env nrm, DocURL = ?url, TokenCount = 0\<rparr>"
  obtain rules rc where r: "rules_get (with_indexer ie env) (sc_rules st) (Hostname cur) = Inr (rules, rc)"
    using assms unfolding fetchHTMLcontent_def l by (auto simp: Let_def t split: sum.splits)
  obtain links1 ps f' where p: "parseHTMLStream \<lparr>env_lib = sc_lib env, env_visited = sc_visited st, env_rules = rules, env_base = cur, currentDeep = gd\<rparr>
      (parse_done env) (html_tokens env body) ?f = Inr (links1, ps, f')"
    using assms unfolding fetchHTMLcontent_def l by (auto simp: Let_def t r split: sum.splits)
  obtain pr1 where h: "map_sum id (\<lambda>((e, pr'), ix'). ((pr', e = None), ix')) (HandleDocumentWords ie (sc_index st) ?doc f' pr1 ps) = Inr ((pr', True), sc_index st')"
    using assms unfolding fetchHTMLcontent_def l
    by (auto simp: Let_def t r p map_sum_Inr split: sum.splits if_splits)
  have "page_parsed env cur (sc_visited st) gd ps" using t(1) p unfolding page_parsed_def by blast
  moreover obtain pr2 where "HandleDocumentWords ie (sc_index st) ?doc f' pr1 ps = Inr ((None, pr2), sc_index st')"
    using h by (auto simp: map_sum_Inr)
  ultimately show ?thesis by blast
qed

text \<open>A step that marks a new page as visited, and does not fail, has fetched and indexed it.\<close>

lemma submit_all_index: "submit_all env over cur pr pen links st = Inr (c, st') \<Longrightarrow> sc_index st' = sc_index st"
  by (auto simp: submit_all_def split: prod.splits)

lemma scrape_page_fetches:
  assumes "scrape_page env over st cur u = Inr (c, st')" "c \<noteq> Error" "sc_visited st u = None"
  shows "\<exists>links pr st2. fetchHTMLcontent env (st\<lparr>sc_visited := (sc_visited st)(u \<mapsto> Depth cur)\<rparr>) (Fin 1) (Link cur) u (Depth cur) = Inr ((links, pr, True), st2) \<and>
    (sc_index st' = sc_index st2 \<or> (\<exists>b. sc_index st' = put_urls env (sc_index st2) (sha256 env u) b))"
proof -
  let ?st = "st\<lparr>sc_visited := (sc_visited st)(u \<mapsto> Depth cur)\<rparr>"
  obtain links pr ok st2 where r: "fetchHTMLcontent env ?st (Fin 1) (Link cur) u (Depth cur) = Inr ((links, pr, ok), st2)"
    using assms(1,3) by (auto simp: scrape_page_def Let_def split: sum.splits)
  have ok using assms(1-3) r by (auto simp: scrape_page_def Let_def split: if_splits)
  moreover have "sc_index st' = sc_index st2 \<or> (\<exists>b. sc_index st' = put_urls env (sc_index st2) (sha256 env u) b)"
    using assms(1-3) r \<open>ok\<close> by (auto simp: scrape_page_def Let_def dest!: submit_all_index split: if_splits option.splits)
  ultimately show ?thesis using r by auto
qed

lemma scrape_step_fetches:
  assumes "ScrapeWithContext env ctx0 ctx1 over st cur = Inr (c, st')" "c \<noteq> Error" "u = normalizeUrl (sc_lib env) (Link cur)"
    and "sc_visited st u = None" "sc_visited st' u \<noteq> None"
  shows "\<exists>stf links pr st2. sc_visited stf = (sc_visited st)(u \<mapsto> Depth cur) \<and> sc_index stf = sc_index st \<and>
    fetchHTMLcontent env stf (Fin 1) (Link cur) u (Depth cur) = Inr ((links, pr, True), st2) \<and>
    (sc_index st' = sc_index st2 \<or> (\<exists>b. sc_index st' = put_urls env (sc_index st2) (sha256 env u) b))"
proof -
  have "\<not> ctx0" using assms(1,4,5) by (auto simp: ScrapeWithContext_def)
  then obtain links rls err ll where f: "fetchPageRulesAndOffers env (sc_limits st) (Link cur) = Inr ((links, rls, err), ll)"
    using assms(1) by (auto simp: ScrapeWithContext_def Let_def split: sum.splits)
  have go: "err \<noteq> BaseXMLPageError" "\<not> ctx1" using assms(1,4,5) f \<open>\<not> ctx0\<close> by (auto simp: ScrapeWithContext_def Let_def split: if_splits)
  then have "links = []" using sitemap_error [OF f] by simp
  then obtain rc where s: "scrape_page env over (st\<lparr>sc_limits := ll, sc_rules := rc\<rparr>) cur u = Inr (c, st')"
    using assms(1,3) f go \<open>\<not> ctx0\<close> by (auto simp: ScrapeWithContext_def Let_def split: sum.splits)
  show ?thesis using scrape_page_fetches [OF s assms(2)] assms(4)
    by (intro exI [of _ "st\<lparr>sc_limits := ll, sc_rules := rc, sc_visited := (sc_visited st)(u \<mapsto> Depth cur)\<rparr>"]) simp
qed

text \<open>A step that marks a new page without an error has parsed and indexed it.\<close>

lemma new_page_handled:
  assumes step: "ScrapeWithContext (with_indexer ie env) ctx0 ctx1 over st cur = Inr (c, st')" "c \<noteq> Error"
    and new: "u = normalizeUrl (sc_lib env) (Link cur)" "sc_visited st u = None" "sc_visited st' u \<noteq> None"
  obtains ps feats pr1 pr2 ix where "page_parsed env (Link cur) ((sc_visited st)(u \<mapsto> Depth cur)) (Depth cur) ps"
    "HandleDocumentWords ie (sc_index st) \<lparr>DocId = sha256 env u, DocURL = url_String (sc_lib env) (Link cur), TokenCount = 0\<rparr> feats pr1 ps = Inr ((None, pr2), ix)"
    "sc_index st' = ix \<or> (\<exists>k b. sc_index st' = set_db ix (IndexUrlsByHash (ix_kv ie) (ix_db ix) k b))"
proof -
  have u: "u = normalizeUrl (sc_lib (with_indexer ie env)) (Link cur)" using new(1) by simp
  obtain stf links pr st2 where f: "sc_visited stf = (sc_visited st)(u \<mapsto> Depth cur)" "sc_index stf = sc_index st"
    "fetchHTMLcontent (with_indexer ie env) stf (Fin 1) (Link cur) u (Depth cur) = Inr ((links, pr, True), st2)"
    "sc_index st' = sc_index st2 \<or> (\<exists>b. sc_index st' = put_urls (with_indexer ie env) (sc_index st2) (sha256 (with_indexer ie env) u) b)"
    using scrape_step_fetches [OF step u new(2,3)] by blast
  from fetch_indexes [OF f(3)] f(1,2,4) that show thesis by fastforce
qed

lemma indexed_under_put_urls:
  assumes "indexed_under ie st d toks w" "pebble_laws (ix_kv ie)"
  shows "indexed_under ie (set_db st (IndexUrlsByHash (ix_kv ie) (ix_db st) k b)) d toks w"
proof -
  have "agree_off [''hashKey:''] (ix_kv ie) (ix_db st) (IndexUrlsByHash (ix_kv ie) (ix_db st) k b)"
    unfolding IndexUrlsByHash_def by (rule agree_set [OF assms(2)]) simp
  from word_entries_agree [OF this] show ?thesis using assms(1) by (simp add: indexed_under_def word_entries_def)
qed

section \<open>Properties\<close>


text \<open>A site of one page, crawled into an empty index.\<close>

definition demo_url :: go_url where
  "demo_url = \<lparr>Scheme = ''https'', Hostname = ''go.dev'', Path = [], RawQuery = [], Fragment = []\<rparr>"

definition demo_url_lib :: url_lib where
  "demo_url_lib = \<lparr>url_Parse = (\<lambda>s. None), ResolveReference = (\<lambda>b u. u), url_String = (\<lambda>u. ''https://go.dev/''), encode_query = id,
     query_values = (\<lambda>q k. []), path_Ext = (\<lambda>s. [])\<rparr>"

definition demo_html :: "html_token list" where
  "demo_html = [StartTag ''h1'' [], TextTok ''The cats'', EndTag ''h1'', StartTag ''p'' [], TextTok '' 2 jumping cats'', EndTag ''p'']"

definition demo_site :: "(bytes \<rightharpoonup> LinkToken list, string \<rightharpoonup> RobotsTxt, string \<rightharpoonup> rateLimiter,
    ((string \<times> bytes) list, (string, u32) LRUCache) indexer_state) scrape_env" where
  "demo_site = \<lparr>sc_lib = demo_url_lib, sha256 = (\<lambda>s. replicate 32 7),
     link_get = (\<lambda>m k. Inr (m k, m)), link_put = (\<lambda>m k v. Inr (m(k \<mapsto> v))),
     rules_get = (\<lambda>m k. Inr (m k, m)), rules_put = (\<lambda>m k v. Inr (m(k \<mapsto> v))),
     limit_get = (\<lambda>m k. Inr (m k, m)), limit_put = (\<lambda>m k v. Inr (m(k \<mapsto> v))),
     gob_Encode = (\<lambda>_. Some []), gob_Decode = (\<lambda>_. None), OnlySameDomain = False,
     do_request = (\<lambda>url n. if n = 0 then None else Some \<lparr>StatusCode = 200, ContentType = ''text/html'', Body = Some ''page''\<rparr>),
     ctx_over = (\<lambda>_. False), global_over = False, read_over = False, meta_charset = (\<lambda>_. None), decode_charset = (\<lambda>_ s. s),
     xml_tokens = (\<lambda>_. ([], False)), html_tokens = (\<lambda>_. demo_html), parse_done = (\<lambda>_. False),
     handle_words = (\<lambda>ix d f pr ps. Inr ((pr, False), ix)), put_urls = (\<lambda>ix k b. ix), get_urls = (\<lambda>ix k. None)\<rparr>"

definition site_start :: "(bytes \<rightharpoonup> LinkToken list, string \<rightharpoonup> RobotsTxt, string \<rightharpoonup> rateLimiter,
    ((string \<times> bytes) list, (string, u32) LRUCache) indexer_state) scrape_state" where
  "site_start = \<lparr>sc_visited = Map.empty, sc_links = Map.empty, sc_rules = Map.empty, sc_limits = Map.empty, sc_index = demo_empty, sc_submitted = []\<rparr>"

definition site_link :: LinkToken where
  "site_link = \<lparr>Link = demo_url, Priority = Fin 1, Depth = 0, SameDomain = True\<rparr>"

lemma site_page:
  "getHTML demo_site url numOfTries = Some ''page''"
proof -
  have tries: "numOfTries = Suc 2" by code_simp
  have "str_contains ''text/html'' ''text/html''" "charsetFromResponse request_header (\<lambda>_. None) ''page'' = wantedCharset"
    by code_simp+
  then show ?thesis unfolding tries getHTML.simps by (simp add: demo_site_def page_text_def)
qed

lemma site_parse:
  "parseHTMLStream \<lparr>env_lib = demo_url_lib, env_visited = [''go.dev'' \<mapsto> 0], env_rules = None, env_base = demo_url, currentDeep = 0\<rparr>
     (\<lambda>_. False) demo_html \<lparr>DomDepth = 0, TagCount = 0, UrlLen = 15, UrlCount = 0, PathLen = 0, HostLen = 6\<rparr> =
   Inr ([], demo_passages, \<lparr>DomDepth = 1, TagCount = 2, UrlLen = 15, UrlCount = 0, PathLen = 0, HostLen = 6\<rparr>)"
  by code_simp

lemma site_keys: "normalizeUrl demo_url_lib demo_url = ''go.dev''" "url_String demo_url_lib u = ''https://go.dev/''" "Path demo_url = []" "Hostname demo_url = ''go.dev''"
  by code_simp (simp_all add: demo_url_lib_def demo_url_def)

lemma site_step:
  "\<exists>ix. ScrapeWithContext (with_indexer demo_indexer demo_site) False False (\<lambda>_. False) site_start site_link =
     Inr (Done, \<lparr>sc_visited = [''go.dev'' \<mapsto> 0], sc_links = Map.empty, sc_rules = Map.empty, sc_limits = [''go.dev'' \<mapsto> NewRateLimiter DefaultDelay], sc_index = ix, sc_submitted = []\<rparr>)"
proof -
  let ?env = "with_indexer demo_indexer demo_site"
  have env: "sc_lib demo_site = demo_url_lib" "sha256 demo_site u = replicate 32 7" "getSitemapURLs ?env s = Inl ''request failed''" "do_request demo_site s 0 = None"
    "rules_get ?env m k = Inr (m k, m)" "limit_get ?env l k = Inr (l k, l)" "limit_put ?env l k v = Inr (l(k \<mapsto> v))"
    "html_tokens demo_site b = demo_html" "parse_done demo_site = (\<lambda>_. False)" for u s m k l v b
    by (simp_all add: demo_site_def with_indexer_def getSitemapURLs_def)
  obtain pr' ix where h: "HandleDocumentWords demo_indexer demo_empty demo_page_doc
      \<lparr>DomDepth = 1, TagCount = 2, UrlLen = 15, UrlCount = 0, PathLen = 0, HostLen = 6\<rparr> (Fin 1) demo_passages = Inr ((None, pr'), ix)"
    using demo_handled by blast
  show ?thesis
    by (intro exI [of _ ix])
      (simp add: ScrapeWithContext_def fetchPageRulesAndOffers_def prepareSitemapLinks_def haveSitemap_def processSitemap_def env site_keys
        site_start_def site_link_def FetchRobotsTxt_def BaseXMLPageError_def scrape_page_def fetchHTMLcontent_def host_limiter_def site_page
        site_parse h [unfolded demo_page_doc_def] Let_def)
qed

lemma site_passages:
  assumes "page_parsed demo_site demo_url v d ps"
  shows "ps = demo_passages"
proof -
  have strings: "to_lower ''h1'' = ''h1''" "to_lower ''p'' = ''p''" "trim_space ''The cats'' = ''The cats''" "trim_space '' 2 jumping cats'' = ''2 jumping cats''"
    by code_simp+
  obtain rules feats links feats' where p: "parseHTMLStream \<lparr>env_lib = demo_url_lib, env_visited = v, env_rules = rules, env_base = demo_url, currentDeep = d\<rparr>
      (\<lambda>_. False) demo_html feats = Inr (links, ps, feats')"
    using assms by (auto simp: page_parsed_def demo_site_def)
  then show ?thesis
    by (auto simp: parseHTMLStream_def demo_html_def demo_passages_def page_step_def start_tag_def end_tag_def text_token_def deepest_def
      strings Let_def map_sum_Inr isGarbage_def garbageTags_def split: if_splits)
qed


end
