(* ===== verification/Links.thy ===== *)
theory Links
  imports PoolTasks UrlHandling
begin

text \<open>
  Link tokens on disk (\<open>internal/model/document.go\<close>): \<open>Serialize\<close> and \<open>DeserializeToken\<close> write a link with its
  URL as text. \<open>encoding/gob\<close> is a pair of parameters, \<open>None\<close> being an error. With them the tasks of
  the pool are the links of the crawler.
\<close>

section \<open>Serialization\<close>

record linkTokenGob =
  g_Link :: string
  g_Priority :: f64
  g_Depth :: int
  g_SameDomain :: bool

definition toGob :: "url_lib \<Rightarrow> LinkToken \<Rightarrow> linkTokenGob" where
  "toGob lib lt = \<lparr>g_Link = url_String lib (Link lt), g_Priority = Priority lt, g_Depth = Depth lt, g_SameDomain = SameDomain lt\<rparr>"

definition Serialize :: "url_lib \<Rightarrow> (linkTokenGob \<Rightarrow> bytes option) \<Rightarrow> LinkToken \<Rightarrow> bytes option" where
  "Serialize lib enc lt = enc (toGob lib lt)"

definition DeserializeToken :: "url_lib \<Rightarrow> (bytes \<Rightarrow> linkTokenGob option) \<Rightarrow> bytes \<Rightarrow> LinkToken option" where
  "DeserializeToken lib dec data =
     (case dec data of
        None \<Rightarrow> None
      | Some tokenGob \<Rightarrow>
          (case url_Parse lib (g_Link tokenGob) of
             None \<Rightarrow> None
           | Some parsed \<Rightarrow>
               Some \<lparr>Link = parsed, Priority = g_Priority tokenGob, Depth = g_Depth tokenGob, SameDomain = g_SameDomain tokenGob\<rparr>))"

text \<open>What is assumed of \<open>gob\<close>, and the links it is used on: the text of the URL parses to it and an entry holds the link.\<close>

definition gob_law :: "(linkTokenGob \<Rightarrow> bytes option) \<Rightarrow> (bytes \<Rightarrow> linkTokenGob option) \<Rightarrow> bool" where
  "gob_law enc dec \<longleftrightarrow> (\<forall>g d. enc g = Some d \<longrightarrow> dec d = Some g)"

definition disk_links :: "url_lib \<Rightarrow> (linkTokenGob \<Rightarrow> bytes option) \<Rightarrow> LinkToken set" where
  "disk_links lib enc = {l. url_Parse lib (url_String lib (Link l)) = Some (Link l) \<and>
     (case Serialize lib enc l of None \<Rightarrow> True | Some d \<Rightarrow> entry_fits d)}"

lemma link_roundtrip:
  assumes "gob_law enc dec" "l \<in> disk_links lib enc" "Serialize lib enc l = Some d"
  shows "DeserializeToken lib dec d = Some l"
  using assms by (simp add: gob_law_def disk_links_def Serialize_def DeserializeToken_def toGob_def)

lemma links_ser_law: "gob_law enc dec \<Longrightarrow> ser_law (disk_links lib enc) (Serialize lib enc) (DeserializeToken lib dec)"
  unfolding ser_law_def using link_roundtrip by (auto simp: disk_links_def)

section \<open>Properties\<close>


text \<open>A link that a worker of an otherwise empty pool is running.\<close>

definition task_lib :: url_lib where
  "task_lib = \<lparr>url_Parse = (\<lambda>s. if s = ''https://go.dev/'' then Some \<lparr>Scheme = ''https'', Hostname = ''go.dev'', Path = ''/'', RawQuery = [], Fragment = []\<rparr> else None),
     ResolveReference = (\<lambda>b u. u), url_String = (\<lambda>u. ''https://go.dev/''), encode_query = id, query_values = (\<lambda>q k. []), path_Ext = (\<lambda>s. [])\<rparr>"

definition task_link :: LinkToken where
  "task_link = \<lparr>Link = \<lparr>Scheme = ''https'', Hostname = ''go.dev'', Path = ''/'', RawQuery = [], Fragment = []\<rparr>, Priority = NaN, Depth = 2, SameDomain = True\<rparr>"

definition task_enc :: "linkTokenGob \<Rightarrow> bytes option" where
  "task_enc g = (if g = toGob task_lib task_link then Some [1] else None)"

definition task_dec :: "bytes \<Rightarrow> linkTokenGob option" where
  "task_dec d = Some (toGob task_lib task_link)"

lemma task_laws: "gob_law task_enc task_dec" "task_link \<in> disk_links task_lib task_enc" "Serialize task_lib task_enc task_link = Some [1]"
  by (simp_all add: gob_law_def task_enc_def task_dec_def disk_links_def Serialize_def task_lib_def task_link_def entry_fits_def)

abbreviation "task_step \<equiv> pool_step (disk_links task_lib task_enc) Priority (Serialize task_lib task_enc) (DeserializeToken task_lib task_dec) Push Pop"
abbreviation "task_reachable \<equiv> pool_reachable (disk_links task_lib task_enc) Priority (Serialize task_lib task_enc) (DeserializeToken task_lib task_dec) Push Pop (init_sys (InitStack [] 100) 1 1)"

definition task_sys :: "nat \<Rightarrow> LinkToken minMaxHeap \<Rightarrow> int \<Rightarrow> LinkToken wstate \<Rightarrow> (LinkToken, Stack) sys" where
  "task_sys b h g w = \<lparr>pool = \<lparr>collection = InitStack [] 100, buf = b, buf_cap = 1, buf_closed = False, quit_closed = False, heap = h, wg = g\<rparr>,
     workers = [w], ticker = True, stage = Dispatching, crash = None\<rparr>"

lemma task_next: "task_reachable s \<Longrightarrow> task_step s s' \<Longrightarrow> s' = s'' \<Longrightarrow> task_reachable s''"
  by (auto intro: reach_step)

lemma task_acting: "task_reachable (task_sys 0 NewMinMaxHeap 0 (WActing task_link))"
proof -
  let ?h = "Insert Priority NewMinMaxHeap task_link"
  have h: "GetMax Priority ?h = Some task_link" "snd (DeleteMax Priority ?h) = NewMinMaxHeap"
    by (simp_all add: GetMax_def DeleteMax_def Insert_def NewMinMaxHeap_def bubbleUp_def Let_def)
  note simps = task_sys_def worker_at_def set_pool_def set_worker_def Submit_def wg_done_def h task_laws(2)
  have "task_reachable (task_sys 0 NewMinMaxHeap 0 WIdle)"
    using reach_start by (simp add: task_sys_def init_sys_def NewWorkerPool_def)
  then have "task_reachable (task_sys 1 ?h 1 WIdle)"
    by (rule task_next) (rule dispatch [where t = task_link], simp_all add: simps)
  then have "task_reachable (task_sys 0 ?h 1 WTook)"
    by (rule task_next) (rule take_slot [where i = 0], simp_all add: simps)
  then have "task_reachable (task_sys 0 NewMinMaxHeap 1 (WPopped task_link))"
    by (rule task_next) (rule pop_task [where i = 0 and x = task_link], simp_all add: simps)
  then show ?thesis
    by (rule task_next) (rule task_done [where i = 0 and x = task_link], simp_all add: simps)
qed


end
