(* ===== verification/Bloom.thy ===== *)
theory Bloom
  imports GoStrings
begin

unbundle bit_operations_syntax

text \<open>
  The advertising filter of the HTTP client (\<open>scraper/roundTripper/bloom.go\<close>, \<open>roundTripper.go\<close>): a
  Bloom filter of \<open>2 ^ 20\<close> bits with five probes, refined to a set of bit positions, and the round
  tripper that looks up every domain suffix of a host in it. The filter list and the transport are
  parameters.
\<close>

section \<open>The Bloom filter (bloom.go)\<close>

definition bloom_m :: u64 where "bloom_m = 2 ^ 20"
definition bloom_k :: nat where "bloom_k = 5"

record Bloom =
  bits :: "nat \<Rightarrow> u64"

definition bloom_hash :: "string \<Rightarrow> u64 \<times> u64" where
  "bloom_hash s =
     (let h1 = fnv64a (string_bytes s); h2 = h1 XOR (drop_bit 33 h1 * 0xff51afd7ed558ccd) in (h1, h2))"

definition bloom_bit :: "u64 \<times> u64 \<Rightarrow> nat \<Rightarrow> u64" where
  "bloom_bit h i = (fst h + snd h * of_nat i) mod bloom_m"

definition set_bit64 :: "Bloom \<Rightarrow> u64 \<Rightarrow> Bloom" where
  "set_bit64 b n =
     (let w = unat (n div 64) in b\<lparr>bits := (bits b)(w := bits b w OR push_bit (unat (n mod 64)) 1)\<rparr>)"

definition test_bit64 :: "Bloom \<Rightarrow> u64 \<Rightarrow> bool" where
  "test_bit64 b n \<longleftrightarrow> bits b (unat (n div 64)) AND push_bit (unat (n mod 64)) 1 \<noteq> 0"

definition bloom_Add :: "Bloom \<Rightarrow> string \<Rightarrow> Bloom" where
  "bloom_Add b s = foldl (\<lambda>b i. set_bit64 b (bloom_bit (bloom_hash s) i)) b [0..<bloom_k]"

definition bloom_Contain :: "Bloom \<Rightarrow> string \<Rightarrow> bool" where
  "bloom_Contain b s \<longleftrightarrow> list_all (\<lambda>i. test_bit64 b (bloom_bit (bloom_hash s) i)) [0..<bloom_k]"

section \<open>The round tripper (roundTripper.go)\<close>

definition empty_bloom :: Bloom where
  "empty_bloom = \<lparr>bits = (\<lambda>_. 0)\<rparr>"

fun upload_line :: "Bloom \<Rightarrow> string \<Rightarrow> Bloom" where
  "upload_line b line =
     (let trimmed = trim_space line in
      if trimmed = [] \<or> has_prefix trimmed ''!'' \<or> has_prefix trimmed ''@@'' then b
      else if has_prefix trimmed ''||'' \<and> has_suffix trimmed ''^''
      then bloom_Add b (drop 2 (take (length trimmed - 1) trimmed)) else b)"

text \<open>\<open>data\<close> is the body of the filter list.\<close>

definition uploadTXTFilter :: "string \<Rightarrow> Bloom" where
  "uploadTXTFilter data = foldl upload_line empty_bloom (str_split (CHR 0x0A) data)"

definition isBlocked :: "Bloom \<Rightarrow> string \<Rightarrow> bool" where
  "isBlocked b host =
     (let parts = str_split (CHR ''.'') host in
      list_ex (\<lambda>i. bloom_Contain b (str_join ''.'' (drop i parts))) [0..<length parts])"

datatype 'e trip_error = ErrBlocked | BaseError 'e

definition RoundTrip :: "Bloom \<Rightarrow> (string \<Rightarrow> 'e + 'r) \<Rightarrow> string \<Rightarrow> 'e trip_error + 'r" where
  "RoundTrip b base host =
     (if isBlocked b host then Inl ErrBlocked
      else case base host of Inl e \<Rightarrow> Inl (BaseError e) | Inr r \<Rightarrow> Inr r)"

section \<open>The filter as a set of bit positions\<close>

definition bloom_set :: "Bloom \<Rightarrow> nat set" where
  "bloom_set b = {n. bit (bits b (n div 64)) (n mod 64)}"

definition positions :: "string \<Rightarrow> nat set" where
  "positions s = (\<lambda>i. unat (bloom_bit (bloom_hash s) i)) ` {0..<bloom_k}"

lemma unat_div_mod_64: "unat (n div 64 :: u64) = unat n div 64" "unat (n mod 64 :: u64) = unat n mod 64"
  by (simp_all add: unat_div unat_mod)

lemma and_one_bit: "n < 64 \<Longrightarrow> (w :: u64) AND push_bit n 1 \<noteq> 0 \<longleftrightarrow> bit w n"
proof -
  assume "n < 64"
  then have "bit (w AND push_bit n 1) k \<longleftrightarrow> k = n \<and> bit w n" for k
    by (auto simp: bit_simps)
  then show ?thesis by (metis bit_0_eq bit_eq_iff bot_apply bot_bool_def)
qed

lemma test_bit64_set: "test_bit64 b n \<longleftrightarrow> unat n \<in> bloom_set b"
  unfolding test_bit64_def bloom_set_def unat_div_mod_64 by (subst and_one_bit) simp_all

lemma or_one_bit: "n < 64 \<Longrightarrow> bit ((w :: u64) OR push_bit n 1) k \<longleftrightarrow> bit w k \<or> k = n"
  by (auto simp: bit_simps)

lemma set_bit64_set: "bloom_set (set_bit64 b n) = insert (unat n) (bloom_set b)"
proof -
  have "k \<in> bloom_set (set_bit64 b n) \<longleftrightarrow> k = unat n \<or> k \<in> bloom_set b" for k
  proof (cases "k div 64 = unat n div 64")
    case True
    then have "k mod 64 = unat n mod 64 \<longleftrightarrow> k = unat n" by (metis div_mult_mod_eq)
    then show ?thesis
      using True or_one_bit [of "unat n mod 64" "bits b (k div 64)" "k mod 64"]
      by (auto simp: set_bit64_def bloom_set_def unat_div_mod_64 Let_def simp del: push_bit_of_1)
  next
    case False
    then show ?thesis by (auto simp: set_bit64_def bloom_set_def unat_div_mod_64 Let_def)
  qed
  then show ?thesis by blast
qed

lemma set_bits_set: "bloom_set (foldl (\<lambda>b i. set_bit64 b (f i)) b is) = bloom_set b \<union> (\<lambda>i. unat (f i)) ` set is"
  by (induction "is" arbitrary: b) (auto simp: set_bit64_set)

lemma bloom_Add_set: "bloom_set (bloom_Add b s) = bloom_set b \<union> positions s"
  by (simp add: bloom_Add_def set_bits_set positions_def)

lemma bloom_Contain_set: "bloom_Contain b s \<longleftrightarrow> positions s \<subseteq> bloom_set b"
  by (auto simp: bloom_Contain_def test_bit64_set positions_def list_all_iff)

lemma empty_bloom_set [simp]: "bloom_set empty_bloom = {}"
  by (simp add: bloom_set_def empty_bloom_def)

lemma positions_range: "positions s \<subseteq> {0..<2 ^ 20}"
proof -
  have "unat (x mod bloom_m) < 2 ^ 20" for x :: u64
    using word_mod_less_divisor [of bloom_m x] by (simp add: bloom_m_def word_less_nat_alt)
  then show ?thesis by (auto simp: positions_def bloom_bit_def)
qed

text \<open>The domain a filter line names, if it is a blocking rule.\<close>

definition line_domain :: "string \<Rightarrow> string option" where
  "line_domain line =
     (let t = trim_space line in
      if has_prefix t ''||'' \<and> has_suffix t ''^'' then Some (drop 2 (take (length t - 1) t)) else None)"

lemma upload_line_eq: "upload_line b line = (case line_domain line of None \<Rightarrow> b | Some d \<Rightarrow> bloom_Add b d)"
proof -
  have "has_prefix t ''||'' \<Longrightarrow> t \<noteq> [] \<and> \<not> has_prefix t ''!'' \<and> \<not> has_prefix t ''@@''" for t
    by (cases t) (auto simp: has_prefix_def)
  then show ?thesis by (auto simp: line_domain_def Let_def)
qed

lemma upload_lines_set:
  "bloom_set (foldl upload_line b ls) = bloom_set b \<union> (\<Union>d \<in> set (List.map_filter line_domain ls). positions d)"
proof (induction ls arbitrary: b)
  case (Cons l ls)
  then show ?case by (cases "line_domain l") (auto simp: upload_line_eq bloom_Add_set map_filter_simps simp del: upload_line.simps)
qed (simp add: map_filter_simps)

definition domains :: "string \<Rightarrow> string list" where
  "domains data = List.map_filter line_domain (str_split (CHR 0x0A) data)"

lemma upload_set: "bloom_set (uploadTXTFilter data) = (\<Union>d \<in> set (domains data). positions d)"
  by (simp add: uploadTXTFilter_def domains_def upload_lines_set)

lemma isBlocked_suffix:
  assumes "bloom_Contain b d" "host = d \<or> (\<exists>sub. host = sub @ ''.'' @ d)"
  shows "isBlocked b host"
proof -
  have "\<exists>i < length (str_split (CHR ''.'') host). str_join ''.'' (drop i (str_split (CHR ''.'') host)) = d"
    using assms(2)
  proof
    assume "host = d"
    then show ?thesis by (intro exI [of _ 0]) simp
  next
    assume "\<exists>sub. host = sub @ ''.'' @ d"
    then obtain sub where "str_split (CHR ''.'') host = str_split (CHR ''.'') sub @ str_split (CHR ''.'') d"
      using str_split_append_sep by auto
    then show ?thesis by (intro exI [of _ "length (str_split (CHR ''.'') sub)"]) simp
  qed
  then show ?thesis using assms(1) by (auto simp: isBlocked_def list_ex_iff Let_def)
qed

section \<open>Properties\<close>

text \<open>
  The filter has no false negatives and never indexes outside its array: after any \<open>Add\<close>s a string
  is contained exactly if its probe positions, all below \<open>2 ^ 20\<close>, are covered by those of the added strings.
\<close>

theorem bloom_exact:
  "(bloom_Contain (foldl bloom_Add empty_bloom ds) s \<longleftrightarrow> positions s \<subseteq> (\<Union>d \<in> set ds. positions d)) \<and>
   positions s \<subseteq> {0..<2 ^ 20}"
proof -
  have "bloom_set (foldl bloom_Add b ds) = bloom_set b \<union> (\<Union>d \<in> set ds. positions d)" for b
    by (induction ds arbitrary: b) (auto simp: bloom_Add_set)
  then show ?thesis using positions_range by (simp add: bloom_Contain_set)
qed

text \<open>
  C24: every domain named by a blocking line of the filter list is blocked with all its subdomains: the
  transport is not called for such a host.
\<close>

theorem filter_list_blocks:
  assumes "line \<in> set (str_split (CHR 0x0A) data)" "trim_space line = ''||'' @ d @ ''^''"
    and "host = d \<or> (\<exists>sub. host = sub @ ''.'' @ d)"
  shows "RoundTrip (uploadTXTFilter data) base host = Inl ErrBlocked"
proof -
  have "line_domain line = Some d"
    using assms(2) by (simp add: line_domain_def has_suffix_def has_prefix_def)
  then have "d \<in> set (domains data)"
    using assms(1) by (force simp: domains_def map_filter_def)
  then have "bloom_Contain (uploadTXTFilter data) d" by (auto simp: bloom_Contain_set upload_set)
  then show ?thesis using isBlocked_suffix assms(3) by (simp add: RoundTrip_def)
qed

theorem filter_list_blocks_witness:
  "RoundTrip (uploadTXTFilter (''! ads'' @ [CHR 0x0A] @ ''||ads.io^ '')) (\<lambda>h. Inr h :: nat + string) ''x.ads.io'' = Inl ErrBlocked"
  using filter_list_blocks [of "''||ads.io^ ''" "''! ads'' @ [CHR 0x0A] @ ''||ads.io^ ''" "''ads.io''" "''x.ads.io''"]
  by (force simp: trim_space_def is_space_def)

end
