(* ===== verification/Lifecycle.thy ===== *)
theory Lifecycle
  imports Pipeline Links Bloom
begin

text \<open>
  The life of a crawl across restarts: \<open>NewIndexer\<close> and \<open>SaveHashArrays\<close> (\<open>indexer.go\<close>), \<open>NewScraper\<close>,
  \<open>PrepareChan\<close> and \<open>Run\<close> (\<open>scraper.go\<close>). The disk is the database and the file of hash salts. The steps that
  the pool makes between the start and the end of a run are a list of calls in any order.
\<close>

section \<open>Starting the indexer\<close>

text \<open>\<open>model_ok\<close> and \<open>scaler_ok\<close>: the files of the regression model and its scaler could be loaded.\<close>

datatype start_error = ModelError | ScalerError | SaltError read_error | SaltsMissing

definition NewIndexer :: "'db pebble \<Rightarrow> (nat \<Rightarrow> nat \<Rightarrow> nat) \<Rightarrow> bool \<Rightarrow> bool \<Rightarrow> 'db \<Rightarrow> bytes option \<Rightarrow> start_error + minHash" where
  "NewIndexer kv int63n model_ok scaler_ok db salts =
     (if \<not> model_ok then Inl ModelError
      else if \<not> scaler_ok then Inl ScalerError
      else case UploadSaltArrays salts of
        Inl e \<Rightarrow> Inl (SaltError e)
      | Inr None \<Rightarrow>
          if GetDocumentsCount kv db \<noteq> 0 then Inl SaltsMissing
          else Inr (NewHasher int63n (replicate 128 0) (replicate 128 0) True)
      | Inr (Some (a, b)) \<Rightarrow> Inr (NewHasher int63n a b False))"

definition SaveHashArrays :: "minHash \<Rightarrow> bytes" where
  "SaveHashArrays mh = SaveSaltArrays (mh_a mh) (mh_b mh)"

section \<open>A run of the scraper\<close>

text \<open>
  \<open>NewScraper\<close>: the filter of the client (\<open>None\<close>: the list could not be downloaded), the queue file with what an
  earlier run left in it (\<open>None\<close>: it could not be opened), three caches whose sizes depend on the number of workers,
  and the pool. A negative number of workers is a panic of \<open>make\<close>. The keys and values of the sentinels of the
  caches are never read.
\<close>

datatype scraper_error = FilterNotLoaded | QueueNotOpened

type_synonym 'ix run_state = "((bytes, LinkToken list) LRUCache, (string, RobotsTxt) LRUCache, (string, rateLimiter) LRUCache, 'ix) scrape_state"

record 'ix WebScraper =
  ws_filter :: Bloom
  ws_pool :: "(LinkToken, Stack) sys"
  ws_state :: "'ix run_state"

definition NewScraper :: "string option \<Rightarrow> bytes option \<Rightarrow> int \<Rightarrow> 'ix \<Rightarrow> (scraper_error + 'ix WebScraper) go" where
  "NewScraper filterList queueFile workersNum ix =
     (case filterList of
        None \<Rightarrow> Inr (Inl FilterNotLoaded)
      | Some data \<Rightarrow>
          (case queueFile of
             None \<Rightarrow> Inr (Inl QueueNotOpened)
           | Some content \<Rightarrow>
               if workersNum < 0 then Inl (ExplicitPanic ''makechan: size out of range'')
               else Inr (Inr \<lparr>ws_filter = uploadTXTFilter data,
                 ws_pool = init_sys (InitStack content (128 * 2 ^ 20)) (nat workersNum) (nat (workersNum * 50)),
                 ws_state = \<lparr>sc_visited = Map.empty, sc_links = NewLRUCache (replicate 32 0) [] (workersNum * 25),
                   sc_rules = NewLRUCache [] Map.empty (workersNum * 10), sc_limits = NewLRUCache [] (NewRateLimiter DefaultDelay) (workersNum * 25),
                   sc_index = ix, sc_submitted = []\<rparr>\<rparr>)))"

definition with_caches ::
    "((bytes, LinkToken list) LRUCache, (string, RobotsTxt) LRUCache, (string, rateLimiter) LRUCache, 'ix) scrape_env \<Rightarrow>
     ((bytes, LinkToken list) LRUCache, (string, RobotsTxt) LRUCache, (string, rateLimiter) LRUCache, 'ix) scrape_env" where
  "with_caches env = env\<lparr>link_get := lru_Get, link_put := lru_Put, rules_get := lru_Get, rules_put := lru_Put,
     limit_get := lru_Get, limit_put := lru_Put\<rparr>"

text \<open>The links that are given from outside; one that does not parse is dropped.\<close>

definition seed_links :: "url_lib \<Rightarrow> string list \<Rightarrow> LinkToken list" where
  "seed_links lib uris =
     concat (map (\<lambda>uri. case url_Parse lib uri of
         None \<Rightarrow> []
       | Some parsed \<Rightarrow> [\<lparr>Link = parsed, Priority = Fin 1, Depth = 0, SameDomain = False\<rparr>]) uris)"

text \<open>
  \<open>Run\<close>: the visited pages are loaded, the steps are made, and the visited pages and salts are saved.
  \<open>order\<close> is the order in which \<open>sync.Map.Range\<close> visits the map. The result has the salts file and the log of the steps.
\<close>

definition Run :: "('db, (string, u32) LRUCache) indexer_env \<Rightarrow>
    ('c, 'r, 'l, ('db, (string, u32) LRUCache) indexer_state) scrape_env \<Rightarrow> ((string \<rightharpoonup> int) \<Rightarrow> (string \<times> int) list) \<Rightarrow>
    ('c, 'r, 'l, ('db, (string, u32) LRUCache) indexer_state) scrape_state \<Rightarrow> crawl_call list \<Rightarrow>
    (('c, 'r, 'l, ('db, (string, u32) LRUCache) indexer_state) scrape_state \<times> bytes \<times> (string \<times> int) list) go" where
  "Run ie env order st calls =
     (case LoadVisitedUrls (ix_kv ie) (ix_db (sc_index st)) (sc_visited st) of
        Inl p \<Rightarrow> Inl p
      | Inr visited \<Rightarrow>
          (case crawl (with_indexer ie env) (st\<lparr>sc_visited := visited\<rparr>) calls of
             Inl p \<Rightarrow> Inl p
           | Inr (st', lg) \<Rightarrow>
               let db = SaveVisitedUrls (ix_kv ie) (ix_db (sc_index st')) (order (sc_visited st')) in
               Inr (st'\<lparr>sc_index := set_db (sc_index st') db\<rparr>, SaveHashArrays (ix_minHash ie), lg)))"

section \<open>What the steps leave of the index\<close>

text \<open>A property of the index that its operations keep holds after a crawl.\<close>

lemma fetch_index_inv:
  assumes "fetchHTMLcontent env st pr cur nrm gd = Inr (r, st')" "P (sc_index st)"
    and hw: "\<And>ix d f pr ps r ix'. P ix \<Longrightarrow> handle_words env ix d f pr ps = Inr (r, ix') \<Longrightarrow> P ix'"
  shows "P (sc_index st')"
proof -
  obtain rl ll where l: "host_limiter env (sc_limits st) (Hostname cur) = Inr (rl, ll)"
    using assms(1) by (auto simp: fetchHTMLcontent_def split: sum.splits)
  show ?thesis using assms(1,2) unfolding fetchHTMLcontent_def l
    by (auto simp: Let_def map_sum_Inr split: sum.splits prod.splits option.splits if_splits dest: hw)
qed

lemma reload_index: "reload_links env st h = Inr (r, st') \<Longrightarrow> sc_index st' = sc_index st"
  by (auto simp: reload_links_def split: sum.splits prod.splits option.splits if_splits)

lemma scrape_page_index_inv:
  assumes "scrape_page env over st cur u = Inr (c, st')" "P (sc_index st)"
    and hw: "\<And>ix d f pr ps r ix'. P ix \<Longrightarrow> handle_words env ix d f pr ps = Inr (r, ix') \<Longrightarrow> P ix'"
    and pu: "\<And>ix k b. P ix \<Longrightarrow> P (put_urls env ix k b)"
  shows "P (sc_index st')"
proof -
  let ?st = "st\<lparr>sc_visited := (sc_visited st)(u \<mapsto> Depth cur)\<rparr>"
  show ?thesis
  proof (cases "sc_visited st u")
    case None
    then obtain links pr ok st2 where r: "fetchHTMLcontent env ?st (Fin 1) (Link cur) u (Depth cur) = Inr ((links, pr, ok), st2)"
      using assms(1) by (auto simp: scrape_page_def Let_def split: sum.splits)
    have "P (sc_index st2)" by (rule fetch_index_inv [OF r]) (use assms(2) hw in auto)
    then show ?thesis using assms(1) None r
      by (auto simp: scrape_page_def Let_def dest!: submit_all_index intro: pu split: if_splits option.splits)
  next
    case (Some d)
    then show ?thesis using assms(1,2)
      by (auto simp: scrape_page_def Let_def dest!: submit_all_index reload_index split: if_splits option.splits sum.splits)
  qed
qed

lemma scrape_index_inv:
  assumes s: "ScrapeWithContext env ctx0 ctx1 over st cur = Inr (c, st')" and P: "P (sc_index st)"
    and hw: "\<And>ix d f pr ps r ix'. P ix \<Longrightarrow> handle_words env ix d f pr ps = Inr (r, ix') \<Longrightarrow> P ix'"
    and pu: "\<And>ix k b. P ix \<Longrightarrow> P (put_urls env ix k b)"
  shows "P (sc_index st')"
proof (cases ctx0)
  case False
  obtain links rls err ll where f: "fetchPageRulesAndOffers env (sc_limits st) (Link cur) = Inr ((links, rls, err), ll)"
    using s False by (auto simp: ScrapeWithContext_def Let_def split: sum.splits)
  show ?thesis
  proof (cases "err = BaseXMLPageError \<or> ctx1")
    case True
    then show ?thesis using s P False f by (auto simp: ScrapeWithContext_def Let_def)
  next
    case go: False
    then have "links = []" using sitemap_error [OF f] by simp
    then obtain rc where r: "scrape_page env over (st\<lparr>sc_limits := ll, sc_rules := rc\<rparr>) cur (normalizeUrl (sc_lib env) (Link cur)) = Inr (c, st')"
      using s False f go by (auto simp: ScrapeWithContext_def Let_def split: sum.splits)
    show ?thesis by (rule scrape_page_index_inv [where P = P, OF r]) (use P hw pu in auto)
  qed
qed (use s P in \<open>simp add: ScrapeWithContext_def\<close>)

lemma crawl_index_inv:
  assumes "crawl env st cs = Inr (st', lg)" "P (sc_index st)"
    and hw: "\<And>ix d f pr ps r ix'. P ix \<Longrightarrow> handle_words env ix d f pr ps = Inr (r, ix') \<Longrightarrow> P ix'"
    and pu: "\<And>ix k b. P ix \<Longrightarrow> P (put_urls env ix k b)"
  shows "P (sc_index st')"
  using assms(1,2)
proof (induction cs arbitrary: st lg)
  case (Cons c cs)
  obtain r st1 where s: "ScrapeWithContext env (call_ctx0 c) (call_ctx1 c) (call_over c) st (call_link c) = Inr (r, st1)"
    using Cons.prems(1) by (auto split: sum.splits)
  obtain lg1 where l: "crawl env st1 cs = Inr (st', lg1)" using Cons.prems(1) s by (auto split: sum.splits)
  have "P (sc_index st1)" by (rule scrape_index_inv [where P = P, OF s Cons.prems(2) hw pu])
  then show ?case by (rule Cons.IH [OF l])
qed simp

lemma crawl_visited: "crawl env st cs = Inr (st', lg) \<Longrightarrow> dom (sc_visited st) \<subseteq> dom (sc_visited st')"
proof (induction cs arbitrary: st lg)
  case (Cons c cs)
  obtain r st1 where s: "ScrapeWithContext env (call_ctx0 c) (call_ctx1 c) (call_over c) st (call_link c) = Inr (r, st1)"
    using Cons.prems(1) by (auto split: sum.splits)
  obtain lg1 where l: "crawl env st1 cs = Inr (st', lg1)" using Cons.prems(1) s by (auto split: sum.splits)
  have "dom (sc_visited st) \<subseteq> dom (sc_visited st1)" using scrape_effect [OF s] by (auto simp: step_effect_def Let_def)
  then show ?case using Cons.IH [OF l] by blast
qed simp


section \<open>The tables of the database do not mix\<close>

lemma agree_weaken: "agree_off ps kv db db' \<Longrightarrow> set ps \<subseteq> set qs \<Longrightarrow> agree_off qs kv db db'"
  by (auto simp: agree_off_def list_all_iff)

definition index_prefixes :: "string list" where
  "index_prefixes = [''big:'', ''doc:'', ''ri:'', ''word:'', ''num:'', ''hashKey:'']"

lemma ix_db_set_db [simp]: "ix_db (set_db st db) = db"
  by (simp add: ix_db_def set_db_def)

text \<open>What every write of the handler keeps, the handler keeps.\<close>

lemma store_page_inv:
  assumes s: "store_page env st doc dw = Inr (e, st')" and P: "P (ix_db st)"
    and save: "\<And>db d db'. P db \<Longrightarrow> DocId d = DocId doc \<Longrightarrow> SaveDocument (ix_kv env) (ix_json env) db d = Inr db' \<Longrightarrow> P db'"
    and words: "\<And>db d es pos db'. P db \<Longrightarrow> IndexDocumentWords (ix_kv env) db d es pos = Inr db' \<Longrightarrow> P db'"
    and grams: "\<And>ng ws ng'. P (ng_db ng) \<Longrightarrow> IndexTriGrams (ix_kv env) (ix_cget env) (ix_cput env) ng ws = Inr ng' \<Longrightarrow> P (ng_db ng')"
  shows "P (ix_db st')"
proof (cases "SaveDocument (ix_kv env) (ix_json env) (ix_db st) doc")
  case (Inr db1)
  obtain db2 where db2: "IndexDocumentWords (ix_kv env) db1 (DocId doc) (word_range env (dw_stem dw)) (dw_pos dw) = Inr db2"
    using s Inr by (auto simp: store_page_def split: sum.splits)
  obtain ng where ng: "IndexTriGrams (ix_kv env) (ix_cget env) (ix_cput env) (ix_ng (set_db st db2)) (allWordTokens dw) = Inr ng" "st' = st\<lparr>ix_ng := ng\<rparr>"
    using s Inr db2 by (auto simp: store_page_def map_sum_Inr)
  have "P (ng_db (ix_ng (set_db st db2)))" using words [OF save [OF P refl Inr] db2] by (simp add: set_db_def)
  from grams [OF this ng(1)] show ?thesis using ng(2) by (simp add: ix_db_def)
qed (use s P in \<open>simp add: store_page_def\<close>)

lemma handle_words_inv:
  assumes h: "HandleDocumentWords env st doc f pr ps = Inr ((e, pr'), st')" and P: "P (ix_db st)"
    and freqs: "\<And>db es db'. P db \<Longrightarrow> UpdateBiFreq (ix_kv env) db es = Inr db' \<Longrightarrow> P db'"
    and save: "\<And>db d db'. P db \<Longrightarrow> DocId d = DocId doc \<Longrightarrow> SaveDocument (ix_kv env) (ix_json env) db d = Inr db' \<Longrightarrow> P db'"
    and words: "\<And>db d es pos db'. P db \<Longrightarrow> IndexDocumentWords (ix_kv env) db d es pos = Inr db' \<Longrightarrow> P db'"
    and grams: "\<And>ng ws ng'. P (ng_db ng) \<Longrightarrow> IndexTriGrams (ix_kv env) (ix_cget env) (ix_cput env) ng ws = Inr ng' \<Longrightarrow> P (ng_db ng')"
  shows "P (ix_db st')"
proof -
  obtain dw where dw: "doc_words_of env ps = Inr dw" using h by (auto simp: HandleDocumentWords_def split: sum.splits)
  let ?skip = "skip_page env f dw"
  show ?thesis
  proof (cases "check_similar env ?skip (ix_signs st) (allWordTokens dw)")
    case (Inl e)
    then show ?thesis using h dw P by (simp add: HandleDocumentWords_def Let_def)
  next
    case (Inr r)
    obtain sim files where r: "r = (sim, files)" by (cases r)
    obtain db where db: "UpdateBiFreq (ix_kv env) (ix_db st) (pair_range env (bigrams_of (allWordTokens dw))) = Inr db"
      using h dw Inr r by (auto simp: HandleDocumentWords_def Let_def split: sum.splits)
    let ?st1 = "(set_db st db)\<lparr>ix_signs := files\<rparr>"
    have P1: "P (ix_db ?st1)" using freqs [OF P db] by (simp add: ix_db_def set_db_def)
    show ?thesis
    proof (cases ?skip)
      case True
      then show ?thesis using h dw Inr r db P1 by (simp add: HandleDocumentWords_def Let_def)
    next
      case False
      then obtain e' st2 where s: "store_page env ?st1 (doc\<lparr>TokenCount := dw_i dw\<rparr>) dw = Inr (e', st2)" "st' = st2"
        using h dw Inr r db by (auto simp: HandleDocumentWords_def Let_def split: sum.splits option.splits)
      show ?thesis unfolding s(2)
      proof (rule store_page_inv [where P = P, OF s(1) P1])
        fix db d db'
        assume "P db" "DocId d = DocId (doc\<lparr>TokenCount := dw_i dw\<rparr>)" "SaveDocument (ix_kv env) (ix_json env) db d = Inr db'"
        then show "P db'" using save by simp
      qed (erule (1) words, erule (1) grams)
    qed
  qed
qed

lemma HandleDocumentWords_agree:
  assumes kv: "pebble_laws (ix_kv env)" and h: "HandleDocumentWords env st doc f pr ps = Inr ((e, pr'), st')"
  shows "agree_off index_prefixes (ix_kv env) (ix_db st) (ix_db st')"
proof (rule handle_words_inv [where P = "agree_off index_prefixes (ix_kv env) (ix_db st)", OF h])
  have w: "agree_off index_prefixes (ix_kv env) (ix_db st) b" if "agree_off index_prefixes (ix_kv env) (ix_db st) a" "agree_off ps (ix_kv env) a b" "set ps \<subseteq> set index_prefixes" for ps a b
    using that by (blast intro: agree_trans agree_weaken)
  let ?A = "agree_off index_prefixes (ix_kv env) (ix_db st)"
  show "\<And>db es db'. ?A db \<Longrightarrow> UpdateBiFreq (ix_kv env) db es = Inr db' \<Longrightarrow> ?A db'"
    by (erule w, erule agree_UpdateBiFreq [OF kv]) (simp add: index_prefixes_def)
  show "\<And>db d db'. ?A db \<Longrightarrow> SaveDocument (ix_kv env) (ix_json env) db d = Inr db' \<Longrightarrow> ?A db'"
    by (erule w, erule agree_SaveDocument [OF kv]) (simp add: index_prefixes_def)
  show "\<And>db d es pos db'. ?A db \<Longrightarrow> IndexDocumentWords (ix_kv env) db d es pos = Inr db' \<Longrightarrow> ?A db'"
    by (erule w, erule agree_IndexDocumentWords [OF kv]) (simp add: index_prefixes_def)
  show "\<And>ng ws ng'. ?A (ng_db ng) \<Longrightarrow> IndexTriGrams (ix_kv env) (ix_cget env) (ix_cput env) ng ws = Inr ng' \<Longrightarrow> ?A (ng_db ng')"
    by (erule w, erule agree_IndexTriGrams [OF kv]) (simp add: index_prefixes_def)
qed simp

text \<open>A document is never removed, and an accepted page is stored.\<close>

definition has_document :: "'db pebble \<Rightarrow> 'db \<Rightarrow> bool" where
  "has_document kv db \<longleftrightarrow> (\<exists>k. db_get kv db k \<noteq> None \<and> prefix ''doc:'' k)"

lemma has_document_agree:
  assumes "agree_off ps kv db db'" "\<forall>p \<in> set ps. p \<noteq> [] \<and> hd p \<noteq> CHR ''d''" "has_document kv db"
  shows "has_document kv db'"
proof -
  obtain k where k: "db_get kv db k \<noteq> None" "prefix ''doc:'' k" using assms(3) by (auto simp: has_document_def)
  have "\<not> prefix p k" if "p \<in> set ps" for p
    using that assms(2) k(2) prefix_first [of "hd p" "tl p" k "CHR ''d''" "''oc:''"] by (cases p) auto
  then have "db_get kv db' k = db_get kv db k" using assms(1) by (simp add: agree_off_def list_all_iff)
  then show ?thesis using k unfolding has_document_def by (intro exI [of _ k]) auto
qed

lemma SaveDocument_has: "pebble_laws kv \<Longrightarrow> SaveDocument kv js db d = Inr db' \<Longrightarrow> has_document kv db'"
  unfolding has_document_def by (intro exI [of _ "''doc:'' @ raw (DocId d)"]) (auto simp: SaveDocument_def get_set split: sum.splits)

lemma handle_words_has_document:
  assumes kv: "pebble_laws (ix_kv env)" and h: "HandleDocumentWords env st doc f pr ps = Inr ((e, pr'), st')" and P: "has_document (ix_kv env) (ix_db st)"
  shows "has_document (ix_kv env) (ix_db st')"
proof (rule handle_words_inv [where P = "has_document (ix_kv env)", OF h P])
  show "\<And>db es db'. has_document (ix_kv env) db \<Longrightarrow> UpdateBiFreq (ix_kv env) db es = Inr db' \<Longrightarrow> has_document (ix_kv env) db'"
    by (rule has_document_agree [OF agree_UpdateBiFreq [OF kv]]) simp_all
  show "\<And>db d es pos db'. has_document (ix_kv env) db \<Longrightarrow> IndexDocumentWords (ix_kv env) db d es pos = Inr db' \<Longrightarrow> has_document (ix_kv env) db'"
    by (rule has_document_agree [OF agree_IndexDocumentWords [OF kv]]) simp_all
  show "\<And>ng ws ng'. has_document (ix_kv env) (ng_db ng) \<Longrightarrow> IndexTriGrams (ix_kv env) (ix_cget env) (ix_cput env) ng ws = Inr ng' \<Longrightarrow> has_document (ix_kv env) (ng_db ng')"
    by (rule has_document_agree [OF agree_IndexTriGrams [OF kv]]) simp_all
qed (rule SaveDocument_has [OF kv])

lemma store_page_has_document:
  assumes kv: "pebble_laws (ix_kv env)" and s: "store_page env st doc dw = Inr (None, st')"
  shows "has_document (ix_kv env) (ix_db st')"
proof -
  obtain db1 where db1: "SaveDocument (ix_kv env) (ix_json env) (ix_db st) doc = Inr db1"
    using s by (auto simp: store_page_def split: sum.splits)
  obtain db2 where db2: "IndexDocumentWords (ix_kv env) db1 (DocId doc) (word_range env (dw_stem dw)) (dw_pos dw) = Inr db2"
    using s db1 by (auto simp: store_page_def split: sum.splits)
  obtain ng where ng: "IndexTriGrams (ix_kv env) (ix_cget env) (ix_cput env) (ix_ng (set_db st db2)) (allWordTokens dw) = Inr ng" "st' = st\<lparr>ix_ng := ng\<rparr>"
    using s db1 db2 by (auto simp: store_page_def map_sum_Inr)
  have "has_document (ix_kv env) db2" by (rule has_document_agree [OF agree_IndexDocumentWords [OF kv db2] _ SaveDocument_has [OF kv db1]]) simp
  then have "has_document (ix_kv env) (ng_db ng)"
    by (intro has_document_agree [OF agree_IndexTriGrams [OF kv ng(1)]]) (simp_all add: set_db_def)
  then show ?thesis using ng(2) by (simp add: ix_db_def)
qed

lemma accepted_has_document:
  assumes kv: "pebble_laws (ix_kv env)" and h: "HandleDocumentWords env st doc f pr ps = Inr ((None, pr'), st')"
  shows "has_document (ix_kv env) (ix_db st')"
proof -
  obtain st1 dw where "store_page env st1 (doc\<lparr>TokenCount := dw_i dw\<rparr>) dw = Inr (None, st')"
    using h by (auto simp: HandleDocumentWords_def Let_def split: sum.splits prod.splits if_splits option.splits)
  then show ?thesis by (rule store_page_has_document [OF kv])
qed

lemma IndexUrls_agree: "pebble_laws kv \<Longrightarrow> agree_off index_prefixes kv db (IndexUrlsByHash kv db k b)"
  unfolding IndexUrlsByHash_def by (rule agree_set) (simp_all add: index_prefixes_def)

text \<open>A crawl changes only the tables of the index.\<close>

lemma crawl_agree:
  fixes ie :: "('a, (string, u32) LRUCache) indexer_env"
  assumes kv: "pebble_laws (ix_kv ie)" and c: "crawl (with_indexer ie env) st cs = Inr (st', lg)"
  shows "agree_off index_prefixes (ix_kv ie) (ix_db (sc_index st)) (ix_db (sc_index st'))"
proof (rule crawl_index_inv [where P = "\<lambda>ix. agree_off index_prefixes (ix_kv ie) (ix_db (sc_index st)) (ix_db ix)", OF c])
  fix ix d f pr ps r ix'
  assume a: "agree_off index_prefixes (ix_kv ie) (ix_db (sc_index st)) (ix_db ix)"
    and "handle_words (with_indexer ie env) ix d f pr ps = Inr (r, ix')"
  then obtain e pr' where "HandleDocumentWords ie ix d f pr ps = Inr ((e, pr'), ix')" by (auto simp: map_sum_Inr)
  from agree_trans [OF a HandleDocumentWords_agree [OF kv this]]
  show "agree_off index_prefixes (ix_kv ie) (ix_db (sc_index st)) (ix_db ix')" .
next
  fix k b and ix :: "('a, (string, u32) LRUCache) indexer_state"
  assume "agree_off index_prefixes (ix_kv ie) (ix_db (sc_index st)) (ix_db ix)"
  from agree_trans [OF this IndexUrls_agree [OF kv]]
  show "agree_off index_prefixes (ix_kv ie) (ix_db (sc_index st)) (ix_db (put_urls (with_indexer ie env) ix k b))" by simp
qed simp

section \<open>The visited pages on disk\<close>

definition visited_key :: "string \<Rightarrow> string" where
  "visited_key u = ''visited:'' @ u"

lemma visited_key_inject [simp]: "visited_key u = visited_key v \<longleftrightarrow> u = v"
  by (simp add: visited_key_def)

definition wf_visited :: "'db pebble \<Rightarrow> 'db \<Rightarrow> bool" where
  "wf_visited kv db \<longleftrightarrow> (\<forall>u v. db_get kv db (visited_key u) = Some v \<longrightarrow> 4 \<le> length v)"

definition stored_visited :: "'db pebble \<Rightarrow> 'db \<Rightarrow> string \<rightharpoonup> int" where
  "stored_visited kv db u = map_option (\<lambda>v. uint (be_word (take 4 v) :: u32)) (db_get kv db (visited_key u))"

lemma load_visited_map:
  "distinct (map fst es) \<Longrightarrow> \<forall>(k, v) \<in> set es. prefix ''visited:'' k \<and> 4 \<le> length v \<Longrightarrow>
   load_visited es m = Inr (m ++ (\<lambda>u. map_option (\<lambda>v. uint (be_word (take 4 v) :: u32)) (map_of es (visited_key u))))"
proof (induction es arbitrary: m)
  case (Cons e es)
  obtain k v where e: "e = (k, v)" by (cases e)
  obtain u where u: "k = visited_key u" using Cons.prems(2) e by (auto simp: prefix_def visited_key_def)
  have v: "decCount v = Inr (uint (be_word (take 4 v) :: u32))" using Cons.prems(2) e by (simp add: decCount_def)
  have k: "has_prefix k ''visited:''" "drop 8 k = u" by (simp_all add: u has_prefix_def visited_key_def)
  have none: "map_of es k = None" using Cons.prems(1) e by (simp add: map_of_eq_None_iff)
  have "load_visited (e # es) m = load_visited es (m(u \<mapsto> uint (be_word (take 4 v) :: u32)))" by (simp add: e v k)
  also have "\<dots> = Inr (m(u \<mapsto> uint (be_word (take 4 v) :: u32)) ++ (\<lambda>u. map_option (\<lambda>v. uint (be_word (take 4 v) :: u32)) (map_of es (visited_key u))))"
    using Cons.prems by (intro Cons.IH) (simp_all add: e)
  also have "m(u \<mapsto> uint (be_word (take 4 v) :: u32)) ++ (\<lambda>u. map_option (\<lambda>v. uint (be_word (take 4 v) :: u32)) (map_of es (visited_key u))) =
      m ++ (\<lambda>u. map_option (\<lambda>v. uint (be_word (take 4 v) :: u32)) (map_of (e # es) (visited_key u)))"
    using none by (auto simp: fun_eq_iff map_add_def e u split: option.split)
  finally show ?case .
qed simp

lemma map_of_range:
  assumes "pebble_laws kv"
  shows "map_of (db_range kv db p (prefixUpperBound p)) (p @ u) = db_get kv db (p @ u)"
proof (cases "db_get kv db (p @ u)")
  case None
  then have "p @ u \<notin> fst ` set (db_range kv db p (prefixUpperBound p))" using range_prefix [OF assms] by force
  then show ?thesis using None by (simp add: map_of_eq_None_iff)
next
  case (Some v)
  then show ?thesis using range_prefix [OF assms, of "p @ u" v db p] map_of_eq_Some_iff [OF distinct_range [OF assms]] by simp
qed

lemma LoadVisited_stored:
  assumes kv: "pebble_laws kv" and wf: "wf_visited kv db"
  shows "LoadVisitedUrls kv db m = Inr (m ++ stored_visited kv db)"
proof -
  have "\<forall>(k, v) \<in> set (db_range kv db ''visited:'' (prefixUpperBound ''visited:'')). prefix ''visited:'' k \<and> 4 \<le> length v"
    using wf range_prefix [OF kv] by (auto simp: wf_visited_def visited_key_def prefix_def)
  moreover have "map_of (db_range kv db ''visited:'' (prefixUpperBound ''visited:'')) (visited_key u) = db_get kv db (visited_key u)" for u
    unfolding visited_key_def by (rule map_of_range [OF kv])
  ultimately show ?thesis
    using load_visited_map [OF distinct_range [OF kv], of db "''visited:''" "prefixUpperBound ''visited:''" m]
    by (simp add: LoadVisitedUrls_def stored_visited_def [abs_def])
qed

lemma SaveVisited_simps [simp]:
  "SaveVisitedUrls kv db [] = db"
  "SaveVisitedUrls kv db ((u, d) # us) = SaveVisitedUrls kv (db_set kv db (visited_key u) (encCount d)) us"
  by (simp_all add: SaveVisitedUrls_def visited_key_def)

lemma SaveVisited_get:
  assumes kv: "pebble_laws kv"
  shows "distinct (map fst us) \<Longrightarrow> db_get kv (SaveVisitedUrls kv db us) (visited_key u) =
    (case map_of us u of None \<Rightarrow> db_get kv db (visited_key u) | Some d \<Rightarrow> Some (encCount d))"
proof (induction us arbitrary: db)
  case (Cons e us)
  obtain v d where e: "e = (v, d)" by (cases e)
  have "map_of us v = None" using Cons.prems e by (simp add: map_of_eq_None_iff)
  then show ?case using Cons.IH [of "db_set kv db (visited_key v) (encCount d)"] Cons.prems
    by (auto simp: e get_set [OF kv] split: option.split)
qed simp


text \<open>An order of iteration has each entry of the map once.\<close>

definition lists_map :: "(string \<times> int) list \<Rightarrow> (string \<rightharpoonup> int) \<Rightarrow> bool" where
  "lists_map es m \<longleftrightarrow> distinct (map fst es) \<and> map_of es = m"

definition counters :: "(string \<rightharpoonup> int) \<Rightarrow> bool" where
  "counters m \<longleftrightarrow> (\<forall>u d. m u = Some d \<longrightarrow> 0 \<le> d \<and> d < 2 ^ 32)"

lemma crawl_counters:
  "crawl env st cs = Inr (st', lg) \<Longrightarrow> counters (sc_visited st) \<Longrightarrow> \<forall>c \<in> set cs. 0 \<le> Depth (call_link c) \<and> Depth (call_link c) < 2 ^ 32 \<Longrightarrow>
   counters (sc_visited st')"
proof (induction cs arbitrary: st lg)
  case (Cons c cs)
  obtain r st1 where s: "ScrapeWithContext env (call_ctx0 c) (call_ctx1 c) (call_over c) st (call_link c) = Inr (r, st1)"
    using Cons.prems(1) by (auto split: sum.splits)
  obtain lg1 where l: "crawl env st1 cs = Inr (st', lg1)" using Cons.prems(1) s by (auto split: sum.splits)
  have "sc_visited st1 = sc_visited st \<or> sc_visited st1 = (sc_visited st)(normalizeUrl (sc_lib env) (Link (call_link c)) \<mapsto> Depth (call_link c))"
    using scrape_effect [OF s] by (auto simp: step_effect_def Let_def)
  then have "counters (sc_visited st1)" using Cons.prems(2,3) by (auto simp: counters_def split: if_splits)
  then show ?case using Cons.IH [OF l] Cons.prems(3) by simp
qed simp

lemma stored_visited_counters: "counters (stored_visited kv db)"
proof -
  have "0 \<le> uint (w :: u32) \<and> uint w < 2 ^ 32" for w using uint_bounded [of w] by simp
  then show ?thesis by (auto simp: counters_def stored_visited_def)
qed

lemma stored_visited_save:
  assumes kv: "pebble_laws kv" and o: "lists_map (order v) v" and v: "counters v" "dom (stored_visited kv db) \<subseteq> dom v"
  shows "stored_visited kv (SaveVisitedUrls kv db (order v)) = v"
proof
  fix u
  have m: "distinct (map fst (order v))" "map_of (order v) = v" using o by (auto simp: lists_map_def)
  show "stored_visited kv (SaveVisitedUrls kv db (order v)) u = v u"
  proof (cases "v u")
    case None
    then have "stored_visited kv db u = None" using v(2) by (auto simp: dom_def)
    then have "db_get kv db (visited_key u) = None" by (simp add: stored_visited_def)
    then show ?thesis using None SaveVisited_get [OF kv m(1)] m(2) by (simp add: stored_visited_def)
  next
    case (Some d)
    then have "uint (word_of_int d :: u32) = d" using v(1) by (auto simp: counters_def uint_word_of_int)
    then show ?thesis using Some SaveVisited_get [OF kv m(1)] m(2) by (simp add: stored_visited_def encCount_def)
  qed
qed

lemma wf_visited_save:
  assumes kv: "pebble_laws kv" and o: "lists_map (order v) v" and v: "counters v" and wf: "wf_visited kv db"
  shows "wf_visited kv (SaveVisitedUrls kv db (order v))"
proof -
  have m: "distinct (map fst (order v))" using o by (auto simp: lists_map_def)
  show ?thesis using wf SaveVisited_get [OF kv m] by (auto simp: wf_visited_def encCount_def split: option.splits)
qed

text \<open>What a run leaves: the visited pages are stored.\<close>

lemma Run_parts:
  assumes kv: "pebble_laws (ix_kv ie)" and wf: "wf_visited (ix_kv ie) (ix_db (sc_index st))" and new: "sc_visited st = Map.empty"
    and run: "Run ie env order st calls = Inr (st', salts, lg)"
  obtains st1 where "crawl (with_indexer ie env) (st\<lparr>sc_visited := stored_visited (ix_kv ie) (ix_db (sc_index st))\<rparr>) calls = Inr (st1, lg)"
    "sc_visited st' = sc_visited st1" "salts = SaveHashArrays (ix_minHash ie)"
    "ix_db (sc_index st') = SaveVisitedUrls (ix_kv ie) (ix_db (sc_index st1)) (order (sc_visited st1))"
proof -
  have "LoadVisitedUrls (ix_kv ie) (ix_db (sc_index st)) (sc_visited st) = Inr (stored_visited (ix_kv ie) (ix_db (sc_index st)))"
    using LoadVisited_stored [OF kv wf] new by simp
  then show thesis using run that by (auto simp: Run_def Let_def split: sum.splits)
qed

lemma visited_off_index: "agree_off index_prefixes kv db db' \<Longrightarrow> db_get kv db' (visited_key u) = db_get kv db (visited_key u)"
  by (simp add: agree_off_def index_prefixes_def visited_key_def)

lemma Run_stores:
  assumes kv: "pebble_laws (ix_kv ie)" and wf: "wf_visited (ix_kv ie) (ix_db (sc_index st))" and new: "sc_visited st = Map.empty"
    and o: "lists_map (order (sc_visited st')) (sc_visited st')" and d: "\<forall>c \<in> set calls. 0 \<le> Depth (call_link c) \<and> Depth (call_link c) < 2 ^ 32"
    and run: "Run ie env order st calls = Inr (st', salts, lg)"
  shows "wf_visited (ix_kv ie) (ix_db (sc_index st'))" "stored_visited (ix_kv ie) (ix_db (sc_index st')) = sc_visited st'"
proof -
  let ?kv = "ix_kv ie"
  obtain st1 where st1: "crawl (with_indexer ie env) (st\<lparr>sc_visited := stored_visited ?kv (ix_db (sc_index st))\<rparr>) calls = Inr (st1, lg)"
    "sc_visited st' = sc_visited st1" "ix_db (sc_index st') = SaveVisitedUrls ?kv (ix_db (sc_index st1)) (order (sc_visited st1))"
    by (rule Run_parts [OF kv wf new run])
  have c: "counters (sc_visited st1)" by (rule crawl_counters [OF st1(1) _ d]) (simp add: stored_visited_counters)
  have same: "db_get ?kv (ix_db (sc_index st1)) (visited_key u) = db_get ?kv (ix_db (sc_index st)) (visited_key u)" for u
    using visited_off_index [OF crawl_agree [OF kv st1(1)]] by simp
  have wf1: "wf_visited ?kv (ix_db (sc_index st1))" using wf by (simp add: wf_visited_def same)
  have "stored_visited ?kv (ix_db (sc_index st1)) = stored_visited ?kv (ix_db (sc_index st))" by (simp add: stored_visited_def same fun_eq_iff)
  then have "dom (stored_visited ?kv (ix_db (sc_index st1))) \<subseteq> dom (sc_visited st1)" using crawl_visited [OF st1(1)] by simp
  from stored_visited_save [where order = order, OF kv o [unfolded st1(2)] c this] wf_visited_save [where order = order, OF kv o [unfolded st1(2)] c wf1]
  show "wf_visited ?kv (ix_db (sc_index st'))" "stored_visited ?kv (ix_db (sc_index st')) = sc_visited st'" by (simp_all add: st1(2,3))
qed

section \<open>Properties\<close>

text \<open>
  C6: An orderly restart resumes the crawl: after a run of the scraper the stored visited pages are exactly those of
  its memory, whatever the steps did and although page index, word ids and links share the database with them; the
  indexer starts again with the same hash functions; and in the next run no page is expanded again except from a
  smaller depth than the one it was reached at before.
\<close>

theorem restart_resumes_crawl:
  assumes kv: "pebble_laws (ix_kv ie)" "wf_visited (ix_kv ie) (ix_db (sc_index st))" "sc_visited st = Map.empty"
    and o: "lists_map (order (sc_visited st')) (sc_visited st')" "\<forall>c \<in> set calls. 0 \<le> Depth (call_link c) \<and> Depth (call_link c) < 2 ^ 32"
    and salts: "length (mh_a (ix_minHash ie)) = 128" "length (mh_b (ix_minHash ie)) = 128"
    and run: "Run ie env order st calls = Inr (st', salts, lg)"
  shows "LoadVisitedUrls (ix_kv ie) (ix_db (sc_index st')) Map.empty = Inr (sc_visited st') \<and>
    NewIndexer (ix_kv ie) rnd True True (ix_db (sc_index st')) (Some salts) = Inr (ix_minHash ie) \<and>
    (\<forall>env2 order2 st2 calls2 st3 salts2 lg2. sc_visited st2 = Map.empty \<and> ix_db (sc_index st2) = ix_db (sc_index st') \<and>
       Run ie env2 order2 st2 calls2 = Inr (st3, salts2, lg2) \<longrightarrow>
       (\<forall>u d0. sc_visited st' u = Some d0 \<longrightarrow> (\<forall>d \<in> set (depths_of u lg2). d < d0)))"
proof -
  note stored = Run_stores [OF kv o run]
  have "salts = SaveHashArrays (ix_minHash ie)" by (rule Run_parts [OF kv run])
  then have hash: "NewIndexer (ix_kv ie) rnd True True (ix_db (sc_index st')) (Some salts) = Inr (ix_minHash ie)"
    using UploadSalt_Save [OF salts] by (simp add: NewIndexer_def SaveHashArrays_def NewHasher_def)
  have "d < d0" if r: "sc_visited st2 = Map.empty" "ix_db (sc_index st2) = ix_db (sc_index st')"
    "Run ie env2 order2 st2 calls2 = Inr (st3, salts2, lg2)" "sc_visited st' u = Some d0" "d \<in> set (depths_of u lg2)"
    for env2 order2 st2 calls2 st3 salts2 lg2 u d0 d
  proof -
    have wf2: "wf_visited (ix_kv ie) (ix_db (sc_index st2))" using stored(1) r(2) by simp
    obtain st4 where c: "crawl (with_indexer ie env2) (st2\<lparr>sc_visited := stored_visited (ix_kv ie) (ix_db (sc_index st2))\<rparr>) calls2 = Inr (st4, lg2)"
      by (rule Run_parts [OF kv(1) wf2 r(1,3)])
    show ?thesis using crawl_depths [OF c, of u] r(2,4,5) stored(2) by simp
  qed
  then show ?thesis using hash LoadVisited_stored [OF kv(1) stored(1)] stored(2) by auto
qed

text \<open>The site of \<open>Pipeline\<close>, crawled in one run.\<close>

definition site_call :: crawl_call where
  "site_call = \<lparr>call_ctx0 = False, call_ctx1 = False, call_over = (\<lambda>_. False), call_link = site_link\<rparr>"

definition site_order :: "(string \<rightharpoonup> int) \<Rightarrow> (string \<times> int) list" where
  "site_order v = [(''go.dev'', 0)]"

lemma site_crawl:
  "\<exists>st1. crawl (with_indexer demo_indexer demo_site) site_start [site_call] = Inr (st1, []) \<and> sc_visited st1 = [''go.dev'' \<mapsto> 0]"
proof -
  obtain ix where s: "ScrapeWithContext (with_indexer demo_indexer demo_site) False False (\<lambda>_. False) site_start site_link =
     Inr (Done, \<lparr>sc_visited = [''go.dev'' \<mapsto> 0], sc_links = Map.empty, sc_rules = Map.empty, sc_limits = [''go.dev'' \<mapsto> NewRateLimiter DefaultDelay], sc_index = ix, sc_submitted = []\<rparr>)"
    using site_step by blast
  have "sc_submitted site_start = []" by (simp add: site_start_def)
  then show ?thesis using s by (simp add: site_call_def)
qed

lemma site_stored: "stored_visited list_db ([] :: (string \<times> bytes) list) = Map.empty" "wf_visited list_db ([] :: (string \<times> bytes) list)"
  by (simp_all add: stored_visited_def wf_visited_def list_db_def fun_eq_iff)

lemma site_fields: "ix_kv demo_indexer = list_db" "ix_db (sc_index site_start) = []" "sc_visited site_start = Map.empty"
  "ix_minHash demo_indexer = \<lparr>mh_a = replicate 128 1, mh_b = replicate 128 0\<rparr>" "Depth site_link = 0"
  using demo_facts(2) by (simp_all add: demo_indexer_def site_start_def site_link_def)

lemma site_run:
  "\<exists>st'. Run demo_indexer demo_site site_order site_start [site_call] = Inr (st', SaveHashArrays (ix_minHash demo_indexer), []) \<and> sc_visited st' = [''go.dev'' \<mapsto> 0]"
proof -
  have "LoadVisitedUrls (ix_kv demo_indexer) (ix_db (sc_index site_start)) (sc_visited site_start) = Inr Map.empty"
    using LoadVisited_stored [OF list_db_laws site_stored(2), of Map.empty] by (simp add: site_fields site_stored(1))
  moreover have "site_start\<lparr>sc_visited := Map.empty\<rparr> = site_start" by (simp add: site_start_def)
  ultimately show ?thesis using site_crawl by (auto simp: Run_def Let_def)
qed

theorem restart_resumes_crawl_witness:
  "\<exists>st' salts lg. Run demo_indexer demo_site site_order site_start [site_call] = Inr (st', salts, lg) \<and>
     LoadVisitedUrls list_db (ix_db (sc_index st')) Map.empty = Inr [''go.dev'' \<mapsto> 0] \<and>
     NewIndexer list_db (\<lambda>n k. 0) True True (ix_db (sc_index st')) (Some salts) = Inr (ix_minHash demo_indexer)"
proof -
  obtain st' where r: "Run demo_indexer demo_site site_order site_start [site_call] = Inr (st', SaveHashArrays (ix_minHash demo_indexer), [])"
    "sc_visited st' = [''go.dev'' \<mapsto> 0]" using site_run by blast
  have kv: "pebble_laws (ix_kv demo_indexer)" "wf_visited (ix_kv demo_indexer) (ix_db (sc_index site_start))"
    using list_db_laws site_stored(2) by (simp_all add: site_fields)
  have o: "lists_map (site_order (sc_visited st')) (sc_visited st')" by (simp add: lists_map_def site_order_def r(2))
  have d: "\<forall>c \<in> set [site_call]. 0 \<le> Depth (call_link c) \<and> Depth (call_link c) < 2 ^ 32" by (simp add: site_call_def site_fields)
  have l: "length (mh_a (ix_minHash demo_indexer)) = 128" "length (mh_b (ix_minHash demo_indexer)) = 128" by (simp_all add: site_fields)
  from restart_resumes_crawl [OF kv site_fields(3) o d l r(1), of "\<lambda>n k. 0"] r show ?thesis unfolding site_fields(1) by fastforce
qed

text \<open>
  C38: A crash of the first crawl locks the index: once a step has accepted a page, and however the crawl goes on, the
  indexer does not start again on the database unless the file of salts was written, which happens only at the
  orderly end of a run.
\<close>

theorem crash_locks_index:
  fixes ie :: "('db, (string, u32) LRUCache) indexer_env"
  assumes kv: "pebble_laws (ix_kv ie)"
    and step: "ScrapeWithContext (with_indexer ie env) ctx0 ctx1 over st cur = Inr (c, st1)" "c \<noteq> Error"
    and new: "u = normalizeUrl (sc_lib env) (Link cur)" "sc_visited st u = None" "sc_visited st1 u \<noteq> None"
    and later: "crawl (with_indexer ie env) st1 calls = Inr (st2, lg)"
  shows "NewIndexer (ix_kv ie) rnd True True (ix_db (sc_index st2)) None = Inl SaltsMissing"
proof -
  let ?kv = "ix_kv ie"
  have puts: "has_document ?kv (ix_db (put_urls (with_indexer ie env) ix k b))" if "has_document ?kv (ix_db ix)"
    for k b and ix :: "('db, (string, u32) LRUCache) indexer_state"
    using that by (auto simp: IndexUrlsByHash_def intro: has_document_agree [OF agree_set [OF kv, of _ "[''hashKey:'']"]])
  have u: "u = normalizeUrl (sc_lib (with_indexer ie env)) (Link cur)" using new(1) by simp
  obtain stf links pr stg where f: "fetchHTMLcontent (with_indexer ie env) stf (Fin 1) (Link cur) u (Depth cur) = Inr ((links, pr, True), stg)"
    "sc_index st1 = sc_index stg \<or> (\<exists>b. sc_index st1 = put_urls (with_indexer ie env) (sc_index stg) (sha256 (with_indexer ie env) u) b)"
    using scrape_step_fetches [OF step u new(2,3)] by blast
  have "has_document ?kv (ix_db (sc_index stg))" using fetch_indexes [OF f(1)] accepted_has_document [OF kv] by blast
  then have "has_document ?kv (ix_db (sc_index st1))" using f(2) puts by auto
  then have "has_document ?kv (ix_db (sc_index st2))"
  proof (rule crawl_index_inv [where P = "\<lambda>ix. has_document ?kv (ix_db ix)", OF later])
    fix ix d f pr ps r ix'
    assume "has_document ?kv (ix_db ix)" "handle_words (with_indexer ie env) ix d f pr ps = Inr (r, ix')"
    then show "has_document ?kv (ix_db ix')" by (auto simp: map_sum_Inr intro: handle_words_has_document [OF kv])
  qed (rule puts)
  then have "{k. db_get ?kv (ix_db (sc_index st2)) k \<noteq> None \<and> prefix ''doc:'' k} \<noteq> {}" by (auto simp: has_document_def)
  then have "GetDocumentsCount ?kv (ix_db (sc_index st2)) \<noteq> 0" using finite_keys [OF kv] by (simp add: documents_count [OF kv])
  then show ?thesis by (simp add: NewIndexer_def UploadSaltArrays_def)
qed

theorem crash_locks_index_witness:
  "\<exists>st1. ScrapeWithContext (with_indexer demo_indexer demo_site) False False (\<lambda>_. False) site_start site_link = Inr (Done, st1) \<and>
     NewIndexer list_db (\<lambda>n k. 0) True True (ix_db (sc_index st1)) None = Inl SaltsMissing"
proof -
  obtain ix where s: "ScrapeWithContext (with_indexer demo_indexer demo_site) False False (\<lambda>_. False) site_start site_link =
     Inr (Done, \<lparr>sc_visited = [''go.dev'' \<mapsto> 0], sc_links = Map.empty, sc_rules = Map.empty, sc_limits = [''go.dev'' \<mapsto> NewRateLimiter DefaultDelay], sc_index = ix, sc_submitted = []\<rparr>)"
    using site_step by blast
  have kv: "pebble_laws (ix_kv demo_indexer)" using list_db_laws by (simp add: site_fields)
  have u: "''go.dev'' = normalizeUrl (sc_lib demo_site) (Link site_link)" by (simp add: demo_site_def site_link_def site_keys)
  have v: "sc_visited site_start ''go.dev'' = None" by (simp add: site_fields)
  from crash_locks_index [OF kv s _ u v, of "[]" _ "[]" "\<lambda>n k. 0"] show ?thesis using s by (auto simp: site_fields(1))
qed

end
