(* ===== verification/CrawlSafety.thy ===== *)
theory CrawlSafety
  imports Lifecycle
begin

text \<open>
  A run of the scraper as the program puts it together (the LRU caches, the real indexer, one database) comes to
  its end without a panic, in any order of the steps and with any failures of the network, and leaves a
  consistent index.
\<close>

section \<open>A cache that always returns\<close>

locale total_cache =
  fixes usable :: "'c \<Rightarrow> bool"
    and cget :: "'c \<Rightarrow> 'k \<Rightarrow> ('v option \<times> 'c) go" and cput :: "'c \<Rightarrow> 'k \<Rightarrow> 'v \<Rightarrow> 'c go"
  assumes get_returns: "usable c \<Longrightarrow> \<exists>r c'. cget c k = Inr (r, c') \<and> usable c'"
    and put_returns: "usable c \<Longrightarrow> \<exists>c'. cput c k v = Inr c' \<and> usable c'"
begin

text \<open>Look a key up, and enter it if it is missing.\<close>

lemma get_then_put:
  assumes "usable c"
  obtains r c1 where "cget c k = Inr (r, c1)" "usable c1" "\<And>v. \<exists>c2. cput c1 k v = Inr c2 \<and> usable c2"
  using get_returns [OF assms, of k] put_returns by blast

end

definition lru_usable :: "('k, 'v) LRUCache \<Rightarrow> bool" where
  "lru_usable c \<longleftrightarrow> capacity c \<noteq> 0 \<and> (\<exists>xs. lru_repr c xs)"

interpretation lru_total: total_cache lru_usable lru_Get lru_Put
proof
  show "\<exists>r c'. lru_Get c k = Inr (r, c') \<and> lru_usable c'" if "lru_usable c" for c :: "('a, 'b) LRUCache" and k
    using that lru_Get_refines unfolding lru_usable_def by metis
  show "\<exists>c'. lru_Put c k v = Inr c' \<and> lru_usable c'" if "lru_usable c" for c :: "('a, 'b) LRUCache" and k v
    using that lru_Put_refines unfolding lru_usable_def by metis
qed

lemma NewLRUCache_usable: "cap \<noteq> 0 \<Longrightarrow> lru_usable (NewLRUCache k0 v0 cap)"
  using NewLRUCache_repr [of k0 v0 cap] by (auto simp: lru_usable_def NewLRUCache_def)

lemma with_caches_fields [simp]:
  "sc_lib (with_caches env) = sc_lib env" "sha256 (with_caches env) = sha256 env"
  "html_tokens (with_caches env) = html_tokens env" "parse_done (with_caches env) = parse_done env"
  "do_request (with_caches env) = do_request env"
  "link_get (with_indexer ie (with_caches env)) = lru_Get" "link_put (with_indexer ie (with_caches env)) = lru_Put"
  "rules_get (with_indexer ie (with_caches env)) = lru_Get" "rules_put (with_indexer ie (with_caches env)) = lru_Put"
  "limit_get (with_indexer ie (with_caches env)) = lru_Get" "limit_put (with_indexer ie (with_caches env)) = lru_Put"
  by (simp_all add: with_caches_def with_indexer_def)

lemma getHTML_with_caches [simp]: "getHTML (with_caches env) url n = getHTML env url n"
  by (induction n) (simp_all add: with_caches_def page_text_def Let_def split: option.split)

section \<open>The index\<close>

text \<open>A word that is not in the index yet and is longer than the keys and the tokens at hand meets no entry.\<close>

lemma fresh_word:
  assumes "pebble_laws kv"
  obtains w where "wf_word kv db w" "\<forall>(t, v) \<in> set toks. \<not> prefix (w @ ''_'') v"
proof -
  let ?keys = "{k. db_get kv db k \<noteq> None \<and> prefix [] k}"
  let ?n = "Max (insert 0 (length ` (?keys \<union> snd ` set toks)))"
  let ?w = "replicate (Suc ?n) (CHR ''z'')"
  have fin: "finite (length ` (?keys \<union> snd ` set toks))" using finite_keys [OF assms, of db "[]"] by simp
  have le: "length k \<le> ?n" if "k \<in> ?keys \<union> snd ` set toks" for k using fin that by (intro Max_ge) auto
  have long: "\<not> prefix (p @ ?w @ q) k" if "length k \<le> ?n" for p q k
    using that by (auto dest!: prefix_length_le)
  have "wf_word kv db ?w"
  proof (unfold wf_word_def, intro allI impI)
    fix k v
    assume k: "db_get kv db k = Some v \<and> prefix (word_prefix ?w) k"
    then have "length k \<le> ?n" by (intro le) auto
    then have False using k long [of k "''ri:''" "''_''"] by (simp add: word_prefix_def)
    then show "\<exists>docID wcp. length docID = 32 \<and> k = word_doc_key ?w docID \<and> unmarshalWCP v = Inr (Inr wcp)" ..
  qed
  moreover have "\<forall>(t, v) \<in> set toks. \<not> prefix (?w @ ''_'') v"
    using long [of _ "[]" "''_''"] le by (fastforce simp del: replicate_Suc)
  ultimately show thesis by (rule that)
qed

text \<open>Indexing a page returns, whatever the index holds, as long as there are ids for the words \<open>W\<close>.\<close>

definition index_within :: "('db, (string, u32) LRUCache) indexer_env \<Rightarrow> string set \<Rightarrow> ('db, (string, u32) LRUCache) indexer_state \<Rightarrow> bool" where
  "index_within ie W ix \<longleftrightarrow> (\<exists>M. index_ok ie ix M \<and> dom M \<subseteq> W)"

lemma handle_words_returns:
  assumes laws: "indexer_laws ie js" and W: "finite W" "card W + 1 < 2 ^ 32" and ix: "index_within ie W ix"
    and page: "set (page_words ie ps) \<subseteq> W" "\<forall>p \<in> set ps. PType p = BodyType \<or> PType p = HeaderType" and d: "length (DocId doc) = 32"
  shows "\<exists>e pr' ix'. HandleDocumentWords ie ix doc f pr ps = Inr ((e, pr'), ix') \<and> index_within ie W ix'"
proof -
  obtain M where M: "index_ok ie ix M" "dom M \<subseteq> W" using ix by (auto simp: index_within_def)
  have "card (dom M \<union> set (page_words ie ps)) \<le> card W" using M(2) page(1) W(1) by (intro card_mono) auto
  then have room: "card (dom M \<union> set (page_words ie ps)) + 1 < 2 ^ 32" using W(2) by linarith
  have kv: "pebble_laws (ix_kv ie)" using laws by (simp add: indexer_laws_def)
  obtain w where w: "wf_word (ix_kv ie) (ix_db ix) w" "\<forall>(t, v) \<in> set (page_tokens ie ps). \<not> prefix (w @ ''_'') v"
    by (rule fresh_word [OF kv])
  obtain e pr' ix' M' where h: "HandleDocumentWords ie ix doc f pr ps = Inr ((e, pr'), ix')" "index_ok ie ix' M'"
    "dom M' \<subseteq> dom M \<union> set (page_words ie ps)"
    using HandleDocumentWords_ok [OF laws M(1) room page(2) d w] by blast
  have "dom M' \<subseteq> W" using h(3) M(2) page(1) by blast
  then show ?thesis using h(1,2) by (auto simp: index_within_def)
qed

text \<open>Writes outside the tables of the index keep it.\<close>

lemma index_within_agree:
  assumes "agree_off qs (ix_kv ie) (ix_db ix) db" "\<forall>p \<in> set qs. p \<noteq> [] \<and> hd p \<notin> {CHR ''w'', CHR ''n'', CHR ''b''}" "index_within ie W ix"
  shows "index_within ie W (set_db ix db)"
proof -
  obtain M where M: "index_ok ie ix M" "dom M \<subseteq> W" using assms(3) by (auto simp: index_within_def)
  have "word_lru.inv (ix_kv ie) M ((ix_ng ix)\<lparr>ng_db := db\<rparr>)"
    by (rule index_inv_agree [of qs]) (use M(1) assms in \<open>auto simp: index_ok_def ix_db_def\<close>)
  moreover have "wf_freqs (ix_kv ie) db = wf_freqs (ix_kv ie) (ix_db ix)"
    by (rule wf_freqs_agree [OF assms(1)]) (use assms(2) in auto)
  ultimately have "index_ok ie (set_db ix db) M" using M(1) by (simp add: index_ok_def)
  then show ?thesis using M(2) by (auto simp: index_within_def)
qed

lemma index_within_put_urls:
  assumes "pebble_laws (ix_kv ie)" "index_within ie W ix"
  shows "index_within ie W (set_db ix (IndexUrlsByHash (ix_kv ie) (ix_db ix) k b))"
proof (rule index_within_agree [OF _ _ assms(2)])
  show "agree_off [''hashKey:''] (ix_kv ie) (ix_db ix) (IndexUrlsByHash (ix_kv ie) (ix_db ix) k b)"
    unfolding IndexUrlsByHash_def by (rule agree_set [OF assms(1)]) simp
qed simp

lemma index_within_visited:
  assumes "pebble_laws (ix_kv ie)" "index_within ie W ix"
  shows "index_within ie W (set_db ix (SaveVisitedUrls (ix_kv ie) (ix_db ix) urls))"
proof (rule index_within_agree [OF _ _ assms(2)])
  have "agree_off [''visited:''] (ix_kv ie) db (SaveVisitedUrls (ix_kv ie) db urls)" for db
  proof (induction urls arbitrary: db)
    case (Cons u urls)
    have "agree_off [''visited:''] (ix_kv ie) db (db_set (ix_kv ie) db (''visited:'' @ fst u) (encCount (snd u)))"
      by (rule agree_set [OF assms(1)]) simp
    then show ?case using Cons.IH by (auto simp: SaveVisitedUrls_def split_beta intro: agree_trans)
  qed (simp add: SaveVisitedUrls_def)
  then show "agree_off [''visited:''] (ix_kv ie) (ix_db ix) (SaveVisitedUrls (ix_kv ie) (ix_db ix) urls)" .
qed simp

section \<open>A step returns\<close>

text \<open>The scraper with the LRU caches and the indexer.\<close>

abbreviation real_env :: "('db, (string, u32) LRUCache) indexer_env \<Rightarrow>
    ((bytes, LinkToken list) LRUCache, (string, RobotsTxt) LRUCache, (string, rateLimiter) LRUCache, ('db, (string, u32) LRUCache) indexer_state) scrape_env \<Rightarrow>
    ((bytes, LinkToken list) LRUCache, (string, RobotsTxt) LRUCache, (string, rateLimiter) LRUCache, ('db, (string, u32) LRUCache) indexer_state) scrape_env" where
  "real_env ie env \<equiv> with_indexer ie (with_caches env)"

definition run_ok :: "('db, (string, u32) LRUCache) indexer_env \<Rightarrow> string set \<Rightarrow> ('db, (string, u32) LRUCache) indexer_state run_state \<Rightarrow> bool" where
  "run_ok ie W st \<longleftrightarrow> lru_usable (sc_links st) \<and> lru_usable (sc_rules st) \<and> lru_usable (sc_limits st) \<and> index_within ie W (sc_index st)"

text \<open>What is assumed of the libraries: SHA-256 has 32 bytes, and the tokenizer yields no end tag without a name.\<close>

definition library_laws :: "('c, 'r, 'l, 'ix) scrape_env \<Rightarrow> bool" where
  "library_laws env \<longleftrightarrow> (\<forall>s. length (sha256 env s) = 32) \<and> (\<forall>s. EndTag [] \<notin> set (html_tokens env s))"

text \<open>All pages that a link can lead to have their words in \<open>W\<close>.\<close>

definition words_within :: "('db, 's) indexer_env \<Rightarrow> ('c, 'r, 'l, 'ix) scrape_env \<Rightarrow> string set \<Rightarrow> LinkToken \<Rightarrow> bool" where
  "words_within ie env W l \<longleftrightarrow> (\<forall>v ps. page_parsed env (Link l) v (Depth l) ps \<longrightarrow> set (page_words ie ps) \<subseteq> W)"

lemma page_parsed_real [simp]: "page_parsed (real_env ie env) cur v d ps = page_parsed env cur v d ps"
  by (simp add: page_parsed_def)

lemma host_limiter_returns:
  assumes "lru_usable lc"
  shows "\<exists>rl lc'. host_limiter (real_env ie env) lc h = Inr (rl, lc') \<and> lru_usable lc'"
proof -
  obtain r c1 where c: "lru_Get lc h = Inr (r, c1)" "lru_usable c1" "\<And>v. \<exists>c2. lru_Put c1 h v = Inr c2 \<and> lru_usable c2"
    by (rule lru_total.get_then_put [OF assms, of h]) blast
  obtain c2 where "lru_Put c1 h (NewRateLimiter DefaultDelay) = Inr c2" "lru_usable c2" using c(3) by blast
  then show ?thesis using c(1,2) by (cases r) (simp_all add: host_limiter_def)
qed

lemma apply_delay_returns: "lru_usable lc \<Longrightarrow> \<exists>lc'. apply_delay (real_env ie env) lc h rules = Inr lc' \<and> lru_usable lc'"
  by (rule lru_total.get_then_put [of lc h], assumption)
    (auto simp: apply_delay_def split: option.splits)

lemma parse_returns: "EndTag [] \<notin> set toks \<Longrightarrow> \<exists>links ps f'. parseHTMLStream e d toks f = Inr (links, ps, f')"
  using page_loop_ok [of toks e d 0 "\<lparr>headerType = 0, garbageTagCounter = 0, page_links = [], pasages = [], curDomDepth = 0, features = f\<rparr>"]
  by (auto simp: parseHTMLStream_def)

lemma put_links:
  assumes "lru_usable lc"
  obtains pr1 lc' where "(if links = [] then Inr (pr, lc) else map_sum id (Pair (add_real pr (ln (real (length links) + 1)))) (lru_Put lc h links)) = Inr (pr1, lc')"
    "lru_usable lc'"
proof (cases "links = []")
  case False
  obtain lc' where "lru_Put lc h links = Inr lc'" "lru_usable lc'" using lru_total.put_returns [OF assms] by blast
  then show thesis using False that by simp
qed (use assms that in simp)

lemma fetch_rules_returns:
  assumes "lru_usable lc"
  shows "\<exists>r lc'. fetchPageRulesAndOffers (real_env ie env) lc cur = Inr (r, lc') \<and> lru_usable lc'"
proof -
  obtain links err where p: "prepareSitemapLinks (real_env ie env) cur = (links, err)" by (cases "prepareSitemapLinks (real_env ie env) cur")
  show ?thesis
  proof (cases "FetchRobotsTxt (real_env ie env) (resetUrl cur)")
    case (Some body)
    obtain rules where "ParseRobotsTxt body = Inr rules" using ParseRobotsTxt_returns by blast
    moreover obtain lc' where "apply_delay (real_env ie env) lc (Hostname cur) rules = Inr lc'" "lru_usable lc'"
      using apply_delay_returns [OF assms] by blast
    ultimately show ?thesis using p Some assms by (auto simp: fetchPageRulesAndOffers_def)
  qed (use p assms in \<open>simp add: fetchPageRulesAndOffers_def\<close>)
qed

lemma fetch_returns:
  assumes laws: "indexer_laws ie js" "library_laws env" and W: "finite W" "card W + 1 < 2 ^ 32" and st: "run_ok ie W st"
    and words: "\<forall>v ps. page_parsed env cur v gd ps \<longrightarrow> set (page_words ie ps) \<subseteq> W"
  shows "\<exists>r st'. fetchHTMLcontent (real_env ie env) st pr cur nrm gd = Inr (r, st') \<and> run_ok ie W st'"
proof -
  let ?E = "real_env ie env" and ?url = "url_String (sc_lib env) cur"
  obtain rl ll where l: "host_limiter ?E (sc_limits st) (Hostname cur) = Inr (rl, ll)" "lru_usable ll"
    using host_limiter_returns st unfolding run_ok_def by blast
  have usable: "lru_usable (sc_links st)" "lru_usable (sc_rules st)" using st by (simp_all add: run_ok_def)
  have st1: "run_ok ie W (st\<lparr>sc_limits := ll\<rparr>)" using st l(2) by (simp add: run_ok_def)
  show ?thesis
  proof (cases "getHTML env ?url numOfTries")
    case None
    then have "fetchHTMLcontent ?E st pr cur nrm gd = Inr (([], pr, False), st\<lparr>sc_limits := ll\<rparr>)"
      using l(1) by (simp add: fetchHTMLcontent_def Let_def)
    then show ?thesis using st1 by blast
  next
    case (Some body)
    show ?thesis
    proof (cases "body = []")
      case True
      then have "fetchHTMLcontent ?E st pr cur nrm gd = Inr (([], pr, False), st\<lparr>sc_limits := ll\<rparr>)"
        using l(1) Some by (simp add: fetchHTMLcontent_def Let_def)
      then show ?thesis using st1 by blast
    next
      case False
      let ?f = "\<lparr>DomDepth = 0, TagCount = 0, UrlLen = int (length ?url), UrlCount = 0, PathLen = int (length (Path cur)), HostLen = int (length (Hostname cur))\<rparr>"
      obtain rules rc where r: "lru_Get (sc_rules st) (Hostname cur) = Inr (rules, rc)" "lru_usable rc"
        using lru_total.get_returns [OF usable(2)] by blast
      let ?e = "\<lparr>env_lib = sc_lib env, env_visited = sc_visited st, env_rules = rules, env_base = cur, currentDeep = gd\<rparr>"
      have "EndTag [] \<notin> set (html_tokens env body)" using laws(2) by (simp add: library_laws_def)
      then obtain links ps f' where p: "parseHTMLStream ?e (parse_done env) (html_tokens env body) ?f = Inr (links, ps, f')"
        using parse_returns by blast
      then have parsed: "page_parsed env cur (sc_visited st) gd ps" using Some unfolding page_parsed_def by blast
      obtain pr1 lc where c: "(if links = [] then Inr (pr, sc_links st)
          else map_sum id (Pair (add_real pr (ln (real (length links) + 1)))) (lru_Put (sc_links st) (sha256 env nrm) links)) = Inr (pr1, lc)" "lru_usable lc"
        by (rule put_links [OF usable(1)])
      have page: "set (page_words ie ps) \<subseteq> W" using words parsed by blast
      have ix: "index_within ie W (sc_index st)" using st by (simp add: run_ok_def)
      let ?doc = "\<lparr>DocId = sha256 env nrm, DocURL = ?url, TokenCount = 0\<rparr>"
      have "length (DocId ?doc) = 32" using laws(2) by (simp add: library_laws_def)
      then obtain e pr2 ix where h: "HandleDocumentWords ie (sc_index st) ?doc f' pr1 ps = Inr ((e, pr2), ix)" "index_within ie W ix"
        using handle_words_returns [OF laws(1) W ix page parsed_types [OF parsed]] by blast
      have "\<exists>r. fetchHTMLcontent ?E st pr cur nrm gd = Inr (r, st\<lparr>sc_limits := ll, sc_rules := rc, sc_links := lc, sc_index := ix\<rparr>)"
        using False c(1) by (cases "links = []") (auto simp: fetchHTMLcontent_def l Let_def Some r p h)
      moreover have "run_ok ie W (st\<lparr>sc_limits := ll, sc_rules := rc, sc_links := lc, sc_index := ix\<rparr>)"
        using l r c h by (simp add: run_ok_def)
      ultimately show ?thesis by blast
    qed
  qed
qed

lemma reload_returns:
  assumes "run_ok ie W st"
  shows "\<exists>r st'. reload_links (real_env ie env) st h = Inr (r, st') \<and> run_ok ie W st'"
proof -
  let ?E = "real_env ie env"
  obtain r lc where c: "lru_Get (sc_links st) h = Inr (r, lc)" "lru_usable lc" "\<And>v. \<exists>c2. lru_Put lc h v = Inr c2 \<and> lru_usable c2"
    by (rule lru_total.get_then_put [of "sc_links st" h]) (use assms run_ok_def in blast)+
  have keep: "run_ok ie W (st\<lparr>sc_links := lc'\<rparr>)" if "lru_usable lc'" for lc' using assms that by (simp add: run_ok_def)
  show ?thesis
  proof (cases "r = None \<and> (\<exists>encoded links. get_urls ?E (sc_index st) h = Some encoded \<and> gob_Decode ?E encoded = Some links \<and> links \<noteq> [])")
    case True
    then obtain encoded links where d: "r = None" "get_urls ?E (sc_index st) h = Some encoded" "gob_Decode ?E encoded = Some links" "links \<noteq> []" by blast
    obtain lc2 where lc2: "lru_Put lc h links = Inr lc2" "lru_usable lc2" using c(3) by blast
    then have "reload_links ?E st h = Inr (Some links, st\<lparr>sc_links := lc2\<rparr>)" using c(1) d by (simp add: reload_links_def)
    then show ?thesis using keep [OF lc2(2)] by blast
  next
    case False
    then have "\<exists>r. reload_links ?E st h = Inr (r, st\<lparr>sc_links := lc\<rparr>)"
      using c(1) by (cases r) (auto simp: reload_links_def split: option.split)
    then show ?thesis using keep [OF c(2)] by blast
  qed
qed

lemma submit_returns: "run_ok ie W st \<Longrightarrow> \<exists>c st'. submit_all E over cur pr pen links st = Inr (c, st') \<and> run_ok ie W st'"
  by (simp add: submit_all_def run_ok_def split: prod.split)

lemma scrape_page_returns:
  assumes laws: "indexer_laws ie js" "library_laws env" and W: "finite W" "card W + 1 < 2 ^ 32" and st: "run_ok ie W st"
    and words: "words_within ie env W cur"
  shows "\<exists>c st'. scrape_page (real_env ie env) over st cur u = Inr (c, st') \<and> run_ok ie W st'"
proof -
  let ?E = "real_env ie env" and ?st = "st\<lparr>sc_visited := (sc_visited st)(u \<mapsto> Depth cur)\<rparr>"
  have kv: "pebble_laws (ix_kv ie)" using laws(1) by (simp add: indexer_laws_def)
  have st1: "run_ok ie W ?st" using st by (simp add: run_ok_def)
  show ?thesis
  proof (cases "sc_visited st u")
    case None
    obtain r st2 where f: "fetchHTMLcontent ?E ?st (Fin 1) (Link cur) u (Depth cur) = Inr (r, st2)" "run_ok ie W st2"
      using fetch_returns [OF laws W st1] words unfolding words_within_def by blast
    obtain links pr ok where r: "r = (links, pr, ok)" by (cases r)
    show ?thesis
    proof (cases "ok \<and> links \<noteq> [] \<and> gob_Encode ?E links \<noteq> None")
      case True
      then obtain b where b: "gob_Encode ?E links = Some b" by blast
      let ?st3 = "st2\<lparr>sc_index := put_urls ?E (sc_index st2) (sha256 ?E u) b\<rparr>"
      have "run_ok ie W ?st3" using f(2) index_within_put_urls [OF kv] by (simp add: run_ok_def)
      moreover have "scrape_page ?E over st cur u = submit_all ?E over cur pr 0 links ?st3"
        using None f(1) r True b by (simp add: scrape_page_def Let_def)
      ultimately show ?thesis using submit_returns by metis
    next
      case False
      then have "\<exists>c. scrape_page ?E over st cur u = Inr (c, st2)"
        using None f(1) r by (auto simp: scrape_page_def Let_def)
      then show ?thesis using f(2) by blast
    qed
  next
    case (Some d)
    obtain r st2 where l: "reload_links ?E ?st (sha256 ?E u) = Inr (r, st2)" "run_ok ie W st2"
      using reload_returns [OF st1] by blast
    show ?thesis
    proof (cases "d \<le> Depth cur")
      case True
      then have "scrape_page ?E over st cur u = Inr (Done, st)" using Some by (simp add: scrape_page_def Let_def)
      then show ?thesis using st by blast
    next
      case less: False
      show ?thesis
      proof (cases "r = None \<or> r = Some []")
        case True
        then have "\<exists>c. scrape_page ?E over st cur u = Inr (c, st2)" using Some less l(1) by (auto simp: scrape_page_def Let_def)
        then show ?thesis using l(2) by blast
      next
        case False
        then obtain links where links: "r = Some links" "links \<noteq> []" by (cases r) auto
        then have "scrape_page ?E over st cur u = submit_all ?E over cur (Fin 1) (d - Depth cur) links st2"
          using Some less l(1) by (simp add: scrape_page_def Let_def)
        then show ?thesis using submit_returns [OF l(2)] by metis
      qed
    qed
  qed
qed

lemma scrape_returns:
  assumes laws: "indexer_laws ie js" "library_laws env" and W: "finite W" "card W + 1 < 2 ^ 32" and st: "run_ok ie W st"
    and words: "words_within ie env W cur"
  shows "\<exists>c st'. ScrapeWithContext (real_env ie env) ctx0 ctx1 over st cur = Inr (c, st') \<and> run_ok ie W st'"
proof (cases ctx0)
  case False
  let ?E = "real_env ie env"
  have usable: "lru_usable (sc_limits st)" "lru_usable (sc_rules st)" using st by (simp_all add: run_ok_def)
  obtain r ll where "fetchPageRulesAndOffers ?E (sc_limits st) (Link cur) = Inr (r, ll)" "lru_usable ll"
    using fetch_rules_returns [OF usable(1)] by blast
  then obtain links rls err where f: "fetchPageRulesAndOffers ?E (sc_limits st) (Link cur) = Inr ((links, rls, err), ll)" "lru_usable ll"
    by (cases r) auto
  let ?st = "st\<lparr>sc_limits := ll\<rparr>"
  have st1: "run_ok ie W ?st" using st f(2) by (simp add: run_ok_def)
  show ?thesis
  proof (cases "err = BaseXMLPageError \<or> ctx1")
    case True
    then have "ScrapeWithContext ?E ctx0 ctx1 over st cur = Inr (Done, ?st)" using False f(1) by (simp add: ScrapeWithContext_def Let_def)
    then show ?thesis using st1 by blast
  next
    case go: False
    obtain r' rc where g: "lru_Get (sc_rules st) (Hostname (Link cur)) = Inr (r', rc)" "lru_usable rc"
      "\<And>v. \<exists>c2. lru_Put rc (Hostname (Link cur)) v = Inr c2 \<and> lru_usable c2"
      by (rule lru_total.get_then_put [OF usable(2), of "Hostname (Link cur)"]) blast
    have links: "links = []" using sitemap_error [OF f(1)] go by simp
    let ?u = "normalizeUrl (sc_lib env) (Link cur)"
    have "\<exists>rc'. ScrapeWithContext ?E ctx0 ctx1 over st cur = scrape_page ?E over (?st\<lparr>sc_rules := rc'\<rparr>) cur ?u \<and> lru_usable rc'"
    proof (cases "\<exists>r. rls = Some r \<and> r' = None")
      case True
      then obtain r where r: "rls = Some r" "r' = None" by blast
      obtain rc' where "lru_Put rc (Hostname (Link cur)) r = Inr rc'" "lru_usable rc'" using g(3) by blast
      then show ?thesis using False go f(1) g(1) r links by (auto simp: ScrapeWithContext_def Let_def)
    next
      case no: False
      have "ScrapeWithContext ?E ctx0 ctx1 over st cur =
          scrape_page ?E over (?st\<lparr>sc_rules := if rls = None then sc_rules st else rc\<rparr>) cur ?u"
        using False go f(1) g(1) no links by (cases rls; cases r') (simp_all add: ScrapeWithContext_def Let_def)
      then show ?thesis using g(2) usable(2) by (intro exI [of _ "if rls = None then sc_rules st else rc"]) simp
    qed
    then obtain rc' where rc: "ScrapeWithContext ?E ctx0 ctx1 over st cur = scrape_page ?E over (?st\<lparr>sc_rules := rc'\<rparr>) cur ?u" "lru_usable rc'" by blast
    have st2: "run_ok ie W (?st\<lparr>sc_rules := rc'\<rparr>)" using st1 rc(2) by (simp add: run_ok_def)
    show ?thesis unfolding rc(1) by (rule scrape_page_returns [OF laws W st2 words])
  qed
qed (use st in \<open>simp add: ScrapeWithContext_def\<close>)

lemma crawl_returns:
  assumes laws: "indexer_laws ie js" "library_laws env" and W: "finite W" "card W + 1 < 2 ^ 32"
  shows "run_ok ie W st \<Longrightarrow> \<forall>c \<in> set cs. words_within ie env W (call_link c) \<Longrightarrow>
    \<exists>st' lg. crawl (real_env ie env) st cs = Inr (st', lg) \<and> run_ok ie W st'"
proof (induction cs arbitrary: st)
  case (Cons c cs)
  have "words_within ie env W (call_link c)" using Cons.prems(2) by simp
  from scrape_returns [OF laws W Cons.prems(1) this] obtain r st1
    where s: "ScrapeWithContext (real_env ie env) (call_ctx0 c) (call_ctx1 c) (call_over c) st (call_link c) = Inr (r, st1)" "run_ok ie W st1" by blast
  obtain st' lg where "crawl (real_env ie env) st1 cs = Inr (st', lg)" "run_ok ie W st'" using Cons.IH [OF s(2)] Cons.prems(2) by auto
  then show ?case using s(1) by simp
qed simp

lemma wf_visited_saves: "pebble_laws kv \<Longrightarrow> wf_visited kv db \<Longrightarrow> wf_visited kv (SaveVisitedUrls kv db urls)"
proof (induction urls arbitrary: db)
  case (Cons u urls)
  have "wf_visited kv (db_set kv db (''visited:'' @ fst u) (encCount (snd u)))"
    using Cons.prems(2) by (auto simp: wf_visited_def get_set [OF Cons.prems(1)] encCount_def)
  then show ?case using Cons by (simp add: SaveVisitedUrls_def split_beta)
qed (simp add: SaveVisitedUrls_def)

lemma wf_visited_crawl:
  assumes "pebble_laws (ix_kv ie)" "crawl (with_indexer ie env) st calls = Inr (st', lg)" "wf_visited (ix_kv ie) (ix_db (sc_index st))"
  shows "wf_visited (ix_kv ie) (ix_db (sc_index st'))"
  using assms(3) visited_off_index [OF crawl_agree [OF assms(1,2)]] by (simp add: wf_visited_def)

section \<open>Properties\<close>


text \<open>The site of \<open>Pipeline\<close> with the caches of the program.\<close>

definition lru_site :: "((bytes, LinkToken list) LRUCache, (string, RobotsTxt) LRUCache, (string, rateLimiter) LRUCache,
    ((string \<times> bytes) list, (string, u32) LRUCache) indexer_state) scrape_env" where
  "lru_site = \<lparr>sc_lib = demo_url_lib, sha256 = (\<lambda>s. replicate 32 7),
     link_get = lru_Get, link_put = lru_Put, rules_get = lru_Get, rules_put = lru_Put, limit_get = lru_Get, limit_put = lru_Put,
     gob_Encode = (\<lambda>_. Some []), gob_Decode = (\<lambda>_. None), OnlySameDomain = False, do_request = do_request demo_site,
     ctx_over = (\<lambda>_. False), global_over = False, read_over = False, meta_charset = (\<lambda>_. None), decode_charset = (\<lambda>_ s. s),
     xml_tokens = (\<lambda>_. ([], False)), html_tokens = (\<lambda>_. demo_html), parse_done = (\<lambda>_. False),
     handle_words = (\<lambda>ix d f pr ps. Inr ((pr, False), ix)), put_urls = (\<lambda>ix k b. ix), get_urls = (\<lambda>ix k. None)\<rparr>"

lemma lru_site_parsed: "page_parsed lru_site demo_url v d ps \<Longrightarrow> ps = demo_passages"
proof -
  have "getHTML lru_site url n = getHTML demo_site url n" for url n
    by (induction n) (simp_all add: lru_site_def demo_site_def page_text_def Let_def split: option.split)
  then have "page_parsed lru_site demo_url v d ps = page_parsed demo_site demo_url v d ps"
    by (simp add: page_parsed_def) (simp add: lru_site_def demo_site_def)
  then show "page_parsed lru_site demo_url v d ps \<Longrightarrow> ps = demo_passages" using site_passages by blast
qed


end
