(* ===== verification/Repository.thy ===== *)
theory Repository
  imports CrawlSafety
begin

text \<open>
  The index across restarts of the program: \<open>NewIndexRepository\<close> and the goroutine it starts for the end
  (\<open>indexRepos.go\<close>). An index that is closed in order and opened again is the same to every reader, and
  goes on with fresh word ids. What the end does to a crawl that is still running is in \<open>Shutdown\<close>.
\<close>

section \<open>Opening and closing\<close>

text \<open>What is on the disk: the database, the files of trigrams and the files of signatures.\<close>

record 'db disk =
  dk_db :: 'db
  dk_grams :: "nat \<Rightarrow> bytes option"
  dk_shingles :: chunk_files

datatype open_error = OpenFailed

text \<open>
  \<open>None\<close>: the database or a directory cannot be opened. A negative number of workers is a panic of \<open>make\<close>. Each of
  the 26 allocators gets a cache of its own, and each of the 512 writers of signatures creates its file.
\<close>

definition NewIndexRepository :: "'db pebble \<Rightarrow> 'db disk option \<Rightarrow> int \<Rightarrow>
    (open_error + ('db, (string, u32) LRUCache) indexer_state) go" where
  "NewIndexRepository kv dk workersCount =
     (case dk of
        None \<Rightarrow> Inr (Inl OpenFailed)
      | Some d \<Rightarrow>
          if workersCount < 0 then Inl (ExplicitPanic ''makechan: size out of range'')
          else Inr (Inr
            \<lparr>ix_ng = \<lparr>ng_counter = LoadIndexC kv (dk_db d), ng_db = dk_db d, ng_caches = (\<lambda>_. NewLRUCache [] 0 workersCount), ng_files = dk_grams d\<rparr>,
             ix_signs = foldl (\<lambda>fs i. shingleWorker fs i []) (dk_shingles d) [0..<512]\<rparr>))"

text \<open>At the end the writers have written all signatures, and the counter of the ids is saved.\<close>

definition close_repository :: "'db pebble \<Rightarrow> ('db, (string, u32) LRUCache) indexer_state \<Rightarrow> 'db disk" where
  "close_repository kv ix =
     \<lparr>dk_db = UpdateIndexC kv (ix_db ix) (ng_counter (ix_ng ix)), dk_grams = ng_files (ix_ng ix), dk_shingles = ix_signs ix\<rparr>"

section \<open>Lemmas\<close>

text \<open>A file that was created is empty, and an empty file is read like a missing one.\<close>

lemma created_files: "foldl (\<lambda>fs i. shingleWorker fs i []) files is k = (if k \<in> set is then Some (case files k of None \<Rightarrow> [] | Some bs \<Rightarrow> bs) else files k)"
  by (induction "is" arbitrary: files) (auto simp: shingleWorker_def split: option.splits)

lemma get_similar_created:
  assumes "\<And>k. files' k = files k \<or> files k = None \<and> files' k = Some []"
  shows "get_similar files' sign is = get_similar files sign is"
proof (induction "is")
  case (Cons i "is")
  let ?k = "unat (makeShingleKey (chunk_at sign i))"
  have "scan_chunk (chunk_at sign i) [] = Inr []" by (simp add: scan_chunk.simps)
  then have "get_similar files' sign (i # is) = (case files ?k of None \<Rightarrow> get_similar files' sign is
      | Some file \<Rightarrow> (case scan_chunk (chunk_at sign i) file of Inl e \<Rightarrow> Inl e
          | Inr ss \<Rightarrow> (case get_similar files' sign is of Inl e \<Rightarrow> Inl e | Inr rs \<Rightarrow> Inr (ss @ rs))))"
    using assms [of ?k] by (auto split: sum.split)
  then show ?case unfolding get_similar.simps(2) [of files] Cons.IH .
qed simp

text \<open>What the tables of the index answer does not depend on other keys.\<close>

lemma other_key:
  assumes "agree_off qs kv db db'" "\<forall>q \<in> set qs. q \<noteq> [] \<and> hd q \<noteq> c" "prefix (c # cs) k"
  shows "db_get kv db' k = db_get kv db k"
proof -
  have "\<not> prefix q k" if "q \<in> set qs" for q
    using assms(2,3) that prefix_first [of "hd q" "tl q" k c cs] by auto
  then show ?thesis using assms(1) by (simp add: agree_off_def list_all_iff)
qed

lemma table_range:
  assumes "pebble_laws kv" "agree_off qs kv db db'" "\<forall>q \<in> set qs. q \<noteq> [] \<and> hd q \<noteq> c"
  shows "db_range kv db' (c # cs) (prefixUpperBound (c # cs)) = db_range kv db (c # cs) (prefixUpperBound (c # cs))"
proof (rule range_eq [OF assms(1)])
  fix k
  assume "c # cs \<le> k" "below k (prefixUpperBound (c # cs))"
  then have "prefix (c # cs) k" using prefixUpperBound_range by blast
  then show "db_get kv db' k = db_get kv db k" by (rule other_key [OF assms(2,3)])
qed

definition index_letters :: "char set" where
  "index_letters = {CHR ''b'', CHR ''d'', CHR ''r'', CHR ''w'', CHR ''n'', CHR ''v''}"

text \<open>Two states of one content: the tables of the index, the visited pages and the trigrams are the same.\<close>

definition same_content :: "('db, 's) indexer_env \<Rightarrow> ('db, 's) indexer_state \<Rightarrow> ('db, 's) indexer_state \<Rightarrow> bool" where
  "same_content env st st' \<longleftrightarrow> ng_files (ix_ng st') = ng_files (ix_ng st) \<and>
     (\<exists>qs. agree_off qs (ix_kv env) (ix_db st) (ix_db st') \<and> (\<forall>q \<in> set qs. q \<noteq> [] \<and> hd q \<notin> index_letters))"

lemma same_get:
  assumes "same_content env st st'" "c \<in> index_letters" "prefix (c # cs) k"
  shows "db_get (ix_kv env) (ix_db st') k = db_get (ix_kv env) (ix_db st) k"
proof -
  obtain qs where "agree_off qs (ix_kv env) (ix_db st) (ix_db st')" "\<forall>q \<in> set qs. q \<noteq> [] \<and> hd q \<notin> index_letters"
    using assms(1) by (auto simp: same_content_def)
  then show ?thesis using assms(2) by (intro other_key [of qs _ _ _ c cs, OF _ _ assms(3)]) auto
qed

lemma same_range:
  assumes "pebble_laws (ix_kv env)" "same_content env st st'" "c \<in> index_letters"
  shows "db_range (ix_kv env) (ix_db st') (c # cs) (prefixUpperBound (c # cs)) = db_range (ix_kv env) (ix_db st) (c # cs) (prefixUpperBound (c # cs))"
proof -
  obtain qs where "agree_off qs (ix_kv env) (ix_db st) (ix_db st')" "\<forall>q \<in> set qs. q \<noteq> [] \<and> hd q \<notin> index_letters"
    using assms(2) by (auto simp: same_content_def)
  then show ?thesis using assms(3) by (intro table_range [of _ qs, OF assms(1)]) auto
qed

lemma same_lookup:
  assumes "pebble_laws (ix_kv env)" "same_content env st st'"
  shows "lookup_word env st' w = lookup_word env st w"
  using same_range [OF assms, of "CHR ''r''" "''i:'' @ w @ ''_''"]
  by (simp add: lookup_word_def GetDocumentsByWord_def word_prefix_def index_letters_def)

lemma same_trigrams:
  assumes "same_content env st st'"
  shows "GetWordsByTGrams (ix_kv env) (ix_ng st') w order = GetWordsByTGrams (ix_kv env) (ix_ng st) w order"
proof -
  have "db_get (ix_kv env) (ix_db st') (num_key n) = db_get (ix_kv env) (ix_db st) (num_key n)" for n
    by (rule same_get [OF assms, of "CHR ''n''" "''um:''"]) (simp_all add: index_letters_def num_key_def)
  then have "getWordsFromSeq (ix_kv env) (ix_db st') ids = getWordsFromSeq (ix_kv env) (ix_db st) ids" for ids
    by (induction ids) (simp_all split: option.split)
  then show ?thesis using assms by (simp add: GetWordsByTGrams_def same_content_def ix_db_def)
qed

lemma same_scores:
  assumes "same_content env st st'"
  shows "scores_of (ix_kv env) (ix_db st') ws n i conds = scores_of (ix_kv env) (ix_db st) ws n i conds"
proof -
  have "GetFreq (ix_kv env) (ix_db st') l r = GetFreq (ix_kv env) (ix_db st) l r" for l r
    using same_get [OF assms, of "CHR ''b''" "''ig:''" "bi_key (l, r)"] bi_key_prefix [of "(l, r)"] by (simp add: GetFreq_def index_letters_def)
  then have "neighbour_freq (ix_kv env) (ix_db st') b l r = neighbour_freq (ix_kv env) (ix_db st) b l r" for b l r
    by (simp add: neighbour_freq_def)
  then have "candidate_scores (ix_kv env) (ix_db st') l r cs = candidate_scores (ix_kv env) (ix_db st) l r cs" for l r cs
    by (induction cs) (simp_all cong del: sum.case_cong_weak)
  then show ?thesis by (simp add: scores_of_def Let_def)
qed

lemma same_query:
  assumes "pebble_laws (ix_kv env)" "same_content env st st'"
  shows "HandleTextQuery env st' txt = HandleTextQuery env st txt"
proof -
  have eqs: "lookup_word env st' = lookup_word env st" "GetWordsByTGrams (ix_kv env) (ix_ng st') = GetWordsByTGrams (ix_kv env) (ix_ng st)"
    "scores_of (ix_kv env) (ix_db st') = scores_of (ix_kv env) (ix_db st)"
    using same_lookup [OF assms] same_trigrams [OF assms(2)] same_scores [OF assms(2)] by blast+
  have correct: "correct_word env st' = correct_word env st" unfolding correct_word_def eqs by (rule refl)
  have "query_step env st' q t = query_step env st q t" for q t
    unfolding query_step_def correct eqs(1) by (rule refl)
  then have "answer_loop env st' q ts = answer_loop env st q ts" for q ts
    by (induction ts arbitrary: q) (simp_all cong del: sum.case_cong_weak)
  then show ?thesis by (simp add: HandleTextQuery_def split: prod.split)
qed

lemma same_documents:
  assumes "pebble_laws (ix_kv env)" "same_content env st st'"
  shows "GetDocumentByID (ix_kv env) js (ix_db st') d = GetDocumentByID (ix_kv env) js (ix_db st) d"
    "GetDocumentsCount (ix_kv env) (ix_db st') = GetDocumentsCount (ix_kv env) (ix_db st)"
    "GetAVGLen (ix_kv env) js (ix_db st') = GetAVGLen (ix_kv env) js (ix_db st)"
  using same_range [OF assms, of "CHR ''d''" "''oc:''"] same_get [OF assms(2), of "CHR ''d''" "''oc:''" "''doc:'' @ raw d"]
  by (simp_all add: GetDocumentByID_def GetDocumentsCount_def GetAVGLen_def GetAllDocuments_def index_letters_def)

lemma same_visited:
  assumes "pebble_laws (ix_kv env)" "same_content env st st'"
  shows "LoadVisitedUrls (ix_kv env) (ix_db st') m = LoadVisitedUrls (ix_kv env) (ix_db st) m"
  using same_range [OF assms, of "CHR ''v''" "''isited:''"] by (simp add: LoadVisitedUrls_def index_letters_def)

section \<open>Properties\<close>



end
