(* ===== verification/Proximity.thy ===== *)
theory Proximity
  imports Model
begin

text \<open>
  The distance of query words in a document (\<open>getMinQueryDistInDoc\<close> in
  \<open>searcher/preprocessingFeatures.go\<close>): a binary search for the next position of each following word.
\<close>

section \<open>The algorithm\<close>

definition MaxInt :: int where
  "MaxInt = 2 ^ 63 - 1"

definition miss_penalty :: int where
  "miss_penalty = 50"

text \<open>The closure \<open>bs\<close>: the loop narrows \<open>[l, r)\<close>.\<close>

function bs_loop :: "Position list \<Rightarrow> int \<Rightarrow> nat \<Rightarrow> nat \<Rightarrow> nat" where
  "bs_loop arr target l r =
     (if l < r then
        let m = (l + r) div 2 in
        if I (arr ! m) \<le> target then bs_loop arr target (m + 1) r else bs_loop arr target l m
      else l)"
  by pat_completeness auto
termination
  by (relation "measure (\<lambda>(arr, target, l, r). r - l)") auto

declare bs_loop.simps [simp del]

definition bs :: "Position list \<Rightarrow> int \<Rightarrow> nat" where
  "bs arr target = bs_loop arr target 0 (length arr)"

text \<open>The loop over \<open>j\<close> for one start; \<open>arrs\<close> are the lists from \<open>positions[j]\<close> on.\<close>

fun chain_loop :: "int \<Rightarrow> int \<Rightarrow> int \<Rightarrow> int \<Rightarrow> Position list list \<Rightarrow> int \<Rightarrow> int \<Rightarrow> int" where
  "chain_loop lenQuery i cur j [] lst minDencity = min minDencity (i * miss_penalty + lst - cur)"
| "chain_loop lenQuery i cur j (arr # arrs) lst minDencity =
     (if arr = [] then min minDencity ((lenQuery - (j - i)) * miss_penalty + lst - cur)
      else
        let position = bs arr lst in
        if position \<ge> length arr then minDencity
        else chain_loop lenQuery i cur (j + 1) arrs (I (arr ! position)) minDencity)"

fun start_loop :: "int \<Rightarrow> int \<Rightarrow> Position list list \<Rightarrow> Position list \<Rightarrow> int \<Rightarrow> int" where
  "start_loop lenQuery i arrs [] minDencity = minDencity"
| "start_loop lenQuery i arrs (startPos # ps) minDencity =
     start_loop lenQuery i arrs ps (chain_loop lenQuery i (I startPos) (i + 1) arrs (I startPos) minDencity)"

fun query_loop :: "int \<Rightarrow> int \<Rightarrow> Position list list \<Rightarrow> int \<Rightarrow> int" where
  "query_loop lenQuery i [] minDencity = minDencity"
| "query_loop lenQuery i (arr # arrs) minDencity =
     query_loop lenQuery (i + 1) arrs (start_loop lenQuery i arrs arr minDencity)"

definition getMinQueryDistInDoc :: "Position list list \<Rightarrow> nat \<Rightarrow> int go" where
  "getMinQueryDistInDoc positions lenQuery =
     (if length positions < lenQuery then Inl IndexOutOfRange
      else Inr (query_loop (int lenQuery) 0 (take lenQuery positions) MaxInt))"

section \<open>Binary search\<close>

definition sorted_positions :: "Position list \<Rightarrow> bool" where
  "sorted_positions arr \<longleftrightarrow> sorted (map I arr)"

lemma bs_loop_spec:
  "sorted_positions arr \<Longrightarrow> l \<le> r \<Longrightarrow> r \<le> length arr \<Longrightarrow> \<forall>k < l. I (arr ! k) \<le> t \<Longrightarrow> \<forall>k. r \<le> k \<and> k < length arr \<longrightarrow> t < I (arr ! k) \<Longrightarrow>
   bs_loop arr t l r \<le> length arr \<and> (\<forall>k < bs_loop arr t l r. I (arr ! k) \<le> t) \<and> (\<forall>k. bs_loop arr t l r \<le> k \<and> k < length arr \<longrightarrow> t < I (arr ! k))"
proof (induction arr t l r rule: bs_loop.induct)
  case (1 arr t l r)
  have mono: "I (arr ! a) \<le> I (arr ! b)" if "a \<le> b" "b < length arr" for a b
    using 1(3) that sorted_nth_mono [of "map I arr" a b] by (simp add: sorted_positions_def)
  show ?case
  proof (cases "l < r")
    case True
    let ?m = "(l + r) div 2"
    have m: "l \<le> ?m" "?m < r" using True by auto
    show ?thesis
    proof (cases "I (arr ! ?m) \<le> t")
      case le: True
      have low: "\<forall>k < ?m + 1. I (arr ! k) \<le> t"
      proof (intro allI impI)
        fix k assume "k < ?m + 1"
        then show "I (arr ! k) \<le> t" using mono [of k ?m] le m 1(5) by simp
      qed
      have eq: "bs_loop arr t l r = bs_loop arr t (?m + 1) r" using True le by (simp add: bs_loop.simps [of arr t l r] Let_def)
      have "?m + 1 \<le> r" using m by simp
      then show ?thesis unfolding eq by (rule 1(1) [OF True refl le 1(3) _ 1(5) low 1(7)])
    next
      case False
      have high: "\<forall>k. ?m \<le> k \<and> k < length arr \<longrightarrow> t < I (arr ! k)"
      proof (intro allI impI)
        fix k assume "?m \<le> k \<and> k < length arr"
        then show "t < I (arr ! k)" using mono [of ?m k] False by simp
      qed
      have eq: "bs_loop arr t l r = bs_loop arr t l ?m" using True False by (simp add: bs_loop.simps [of arr t l r] Let_def)
      have "?m \<le> length arr" using m 1(5) by simp
      then show ?thesis unfolding eq by (rule 1(2) [OF True refl False 1(3) m(1) _ 1(6) high])
    qed
  next
    case False
    then have "bs_loop arr t l r = l" by (simp add: bs_loop.simps [of arr t l r])
    then show ?thesis using False 1(3-) by auto
  qed
qed

lemma bs_next:
  assumes "sorted_positions arr"
  shows "bs arr t < length arr \<Longrightarrow> I (arr ! bs arr t) > t \<and> (\<forall>p \<in> set arr. t < I p \<longrightarrow> I (arr ! bs arr t) \<le> I p)"
    and "length arr \<le> bs arr t \<Longrightarrow> \<forall>p \<in> set arr. I p \<le> t"
proof -
  have spec: "\<forall>k < bs arr t. I (arr ! k) \<le> t" "\<forall>k. bs arr t \<le> k \<and> k < length arr \<longrightarrow> t < I (arr ! k)"
    using bs_loop_spec [OF assms, of 0 "length arr" t] by (simp_all add: bs_def)
  show "\<forall>p \<in> set arr. I p \<le> t" if "length arr \<le> bs arr t"
    using spec(1) that by (auto simp: in_set_conv_nth)
  show "I (arr ! bs arr t) > t \<and> (\<forall>p \<in> set arr. t < I p \<longrightarrow> I (arr ! bs arr t) \<le> I p)" if lt: "bs arr t < length arr"
  proof (intro conjI ballI impI)
    fix p assume "p \<in> set arr" "t < I p"
    then obtain k where k: "k < length arr" "arr ! k = p" by (auto simp: in_set_conv_nth)
    then have "bs arr t \<le> k" using spec(1) \<open>t < I p\<close> by (meson leD leI)
    then show "I (arr ! bs arr t) \<le> I p"
      using assms k sorted_nth_mono [of "map I arr" "bs arr t" k] by (simp add: sorted_positions_def)
  qed (use spec(2) lt in auto)
qed

section \<open>Chains of positions, as a reference\<close>

text \<open>One position of every list, each after the one before.\<close>

fun chain_of :: "Position list list \<Rightarrow> int \<Rightarrow> int list \<Rightarrow> bool" where
  "chain_of [] p cs \<longleftrightarrow> cs = []"
| "chain_of (arr # arrs) p cs \<longleftrightarrow> (\<exists>c cs'. cs = c # cs' \<and> c \<in> I ` set arr \<and> p < c \<and> chain_of arrs c cs')"

lemma chain_earlier: "chain_of arrs c cs \<Longrightarrow> c' \<le> c \<Longrightarrow> chain_of arrs c' cs \<and> last (c' # cs) \<le> last (c # cs)"
  by (cases arrs) auto

text \<open>The lists up to the first empty one, and what is added to the length of a chain through them.\<close>

definition chain_cost :: "int \<Rightarrow> int \<Rightarrow> int \<Rightarrow> Position list list \<Rightarrow> int" where
  "chain_cost n i j arrs =
     (let k = length (takeWhile (\<lambda>arr. arr \<noteq> []) arrs) in
      if k = length arrs then i * miss_penalty else (n - (j + int k - i)) * miss_penalty)"

lemma chain_loop_spec:
  assumes "\<forall>arr \<in> set arrs. sorted_positions arr"
  shows "(chain_loop n i cur j arrs p md = md \<and> \<not> (\<exists>cs. chain_of (takeWhile (\<lambda>arr. arr \<noteq> []) arrs) p cs)) \<or>
    (\<exists>cs. chain_of (takeWhile (\<lambda>arr. arr \<noteq> []) arrs) p cs \<and>
       chain_loop n i cur j arrs p md = min md (chain_cost n i j arrs + last (p # cs) - cur) \<and>
       (\<forall>cs'. chain_of (takeWhile (\<lambda>arr. arr \<noteq> []) arrs) p cs' \<longrightarrow> last (p # cs) \<le> last (p # cs')))"
  using assms
proof (induction arrs arbitrary: j p)
  case Nil
  then show ?case by (simp add: chain_cost_def)
next
  case (Cons arr arrs)
  let ?ne = "takeWhile (\<lambda>arr. arr \<noteq> []) arrs"
  show ?case
  proof (cases "arr = []")
    case True
    then show ?thesis by (simp add: chain_cost_def)
  next
    case ne: False
    have sorted: "sorted_positions arr" using Cons.prems by simp
    have cost: "chain_cost n i j (arr # arrs) = chain_cost n i (j + 1) arrs"
      using ne by (simp add: chain_cost_def Let_def add.assoc add.left_commute)
    show ?thesis
    proof (cases "bs arr p < length arr")
      case False
      then have "\<forall>q \<in> set arr. I q \<le> p" using bs_next(2) [OF sorted] by simp
      then show ?thesis using ne False by (auto simp: Let_def)
    next
      case True
      let ?c = "I (arr ! bs arr p)"
      have c: "p < ?c" "\<forall>q \<in> set arr. p < I q \<longrightarrow> ?c \<le> I q" "?c \<in> I ` set arr" using bs_next(1) [OF sorted True] True by auto
      have step: "chain_loop n i cur j (arr # arrs) p md = chain_loop n i cur (j + 1) arrs ?c md" using ne True by (simp add: Let_def)
      have down: "chain_of ?ne ?c cs' \<and> last (?c # cs') \<le> last (c' # cs')"
        if "chain_of ?ne c' cs'" "c' \<in> I ` set arr" "p < c'" for c' cs'
        using chain_earlier [OF that(1)] c(2) that(2,3) by auto
      from Cons.IH [of "j + 1" ?c] Cons.prems
      consider "chain_loop n i cur (j + 1) arrs ?c md = md" "\<not> (\<exists>cs. chain_of ?ne ?c cs)"
        | cs where "chain_of ?ne ?c cs" "chain_loop n i cur (j + 1) arrs ?c md = min md (chain_cost n i (j + 1) arrs + last (?c # cs) - cur)"
          "\<forall>cs'. chain_of ?ne ?c cs' \<longrightarrow> last (?c # cs) \<le> last (?c # cs')" by fastforce
      then show ?thesis
      proof cases
        case 1
        then show ?thesis using ne step down by auto
      next
        case 2
        have "last (?c # cs) \<le> last (p # cs')" if "chain_of (arr # ?ne) p cs'" for cs'
          using that down 2(3) by fastforce
        moreover have "chain_of (arr # ?ne) p (?c # cs)" using c 2(1) by auto
        ultimately show ?thesis using ne step cost 2(2) by (intro disjI2 exI [of _ "?c # cs"]) simp
      qed
    qed
  qed
qed

section \<open>Properties\<close>

text \<open>The distances: for every start in list \<open>i\<close>, every chain through the lists up to the first empty one.\<close>

definition distances :: "Position list list \<Rightarrow> int set" where
  "distances pss = {chain_cost (int (length pss)) (int i) (int i + 1) (drop (Suc i) pss) + last (I s # cs) - I s |i s cs.
     i < length pss \<and> s \<in> set (pss ! i) \<and> chain_of (takeWhile (\<lambda>arr. arr \<noteq> []) (drop (Suc i) pss)) (I s) cs}"

text \<open>\<open>r\<close> is the least of \<open>md\<close> and the members of \<open>D\<close>.\<close>

definition least_of :: "int \<Rightarrow> int set \<Rightarrow> int \<Rightarrow> bool" where
  "least_of md D r \<longleftrightarrow> r \<in> insert md D \<and> r \<le> md \<and> (\<forall>d \<in> D. r \<le> d)"

lemma least_of_trans: "least_of md A m \<Longrightarrow> least_of m B r \<Longrightarrow> least_of md (A \<union> B) r"
  by (auto simp: least_of_def)

definition start_distances :: "int \<Rightarrow> int \<Rightarrow> Position list list \<Rightarrow> Position list \<Rightarrow> int set" where
  "start_distances n i arrs ps = {chain_cost n i (i + 1) arrs + last (I s # cs) - I s |s cs.
     s \<in> set ps \<and> chain_of (takeWhile (\<lambda>arr. arr \<noteq> []) arrs) (I s) cs}"

lemma start_loop_spec:
  assumes "\<forall>arr \<in> set arrs. sorted_positions arr"
  shows "least_of md (start_distances n i arrs ps) (start_loop n i arrs ps md)"
proof (induction ps arbitrary: md)
  case Nil
  then show ?case by (simp add: least_of_def start_distances_def)
next
  case (Cons s ps)
  let ?m = "chain_loop n i (I s) (i + 1) arrs (I s) md"
  have "least_of md (start_distances n i arrs [s]) ?m"
    using chain_loop_spec [OF assms, of n i "I s" "i + 1" "I s" md] unfolding least_of_def start_distances_def by fastforce
  moreover have "start_distances n i arrs (s # ps) = start_distances n i arrs [s] \<union> start_distances n i arrs ps"
    by (auto simp: start_distances_def)
  ultimately show ?case using least_of_trans [OF _ Cons.IH [of ?m]] by simp
qed

lemma query_loop_spec:
  "\<forall>arr \<in> set pss. sorted_positions arr \<Longrightarrow>
   least_of md (\<Union>k < length pss. start_distances n (i + int k) (drop (Suc k) pss) (pss ! k)) (query_loop n i pss md)"
proof (induction pss arbitrary: i md)
  case Nil
  then show ?case by (simp add: least_of_def)
next
  case (Cons ps pss)
  have "(\<Union>k < length (ps # pss). start_distances n (i + int k) (drop (Suc k) (ps # pss)) ((ps # pss) ! k)) =
      start_distances n i pss ps \<union> (\<Union>k < length pss. start_distances n (i + 1 + int k) (drop (Suc k) pss) (pss ! k))"
    by (simp add: lessThan_Suc_eq_insert_0 add.assoc image_image)
  then show ?case
    using least_of_trans [OF start_loop_spec Cons.IH [of "start_loop n i pss ps md" "i + 1"]] Cons.prems by simp
qed

text \<open>
  C21: for sorted position lists the result is the least distance: over all starts, the length of the shortest
  chain of increasing positions through the following words, plus 50 for every word before the start, or for
  the words from the start on that have no chain if a list is empty; the largest \<open>int\<close> if there is no chain.
\<close>

theorem min_query_distance:
  assumes "\<forall>arr \<in> set pss. sorted_positions arr"
  shows "\<exists>r. getMinQueryDistInDoc pss (length pss) = Inr r \<and> r \<in> insert MaxInt (distances pss) \<and> r \<le> MaxInt \<and> (\<forall>d \<in> distances pss. r \<le> d)"
proof -
  have "distances pss = (\<Union>k < length pss. start_distances (int (length pss)) (0 + int k) (drop (Suc k) pss) (pss ! k))"
    unfolding distances_def start_distances_def by fastforce
  then show ?thesis
    using query_loop_spec [OF assms, of MaxInt "int (length pss)" 0] by (simp add: getMinQueryDistInDoc_def least_of_def)
qed

theorem min_query_distance_witness:
  "getMinQueryDistInDoc [[\<lparr>I = 1, Type = 0\<rparr>, \<lparr>I = 8, Type = 0\<rparr>], [\<lparr>I = 3, Type = 0\<rparr>, \<lparr>I = 9, Type = 0\<rparr>]] 2 = Inr 1 \<and>
   1 \<in> distances [[\<lparr>I = 1, Type = 0\<rparr>, \<lparr>I = 8, Type = 0\<rparr>], [\<lparr>I = 3, Type = 0\<rparr>, \<lparr>I = 9, Type = 0\<rparr>]]"
proof -
  let ?p = "[[\<lparr>I = 1, Type = 0\<rparr>, \<lparr>I = 8, Type = 0\<rparr>], [\<lparr>I = 3, Type = 0\<rparr>, \<lparr>I = 9, Type = 0\<rparr>]]"
  have val: "getMinQueryDistInDoc ?p 2 = Inr 1" by code_simp
  have two: "length ?p = 2" by simp
  have "\<forall>arr \<in> set ?p. sorted_positions arr" by (simp add: sorted_positions_def)
  from min_query_distance [OF this, unfolded two val] have "1 \<in> insert MaxInt (distances ?p)" by auto
  then show ?thesis using val by (simp add: MaxInt_def)
qed

end
