(* ===== verification/UrlMatch.thy ===== *)
theory UrlMatch
  imports Prelude "HOL-Library.Sublist"
begin

text \<open>
  The search for query words in a URL (\<open>boyerMoorAlgorithm\<close> in \<open>searcher/preprocessingFeatures.go\<close>).
  URLs and words are rune lists. The search loop is a \<open>partial_function\<close>: \<open>None\<close> would be a run that
  never ends, and every slice access is checked, so a panic is a value \<open>Inl\<close>.
\<close>

type_synonym rune = nat

section \<open>The algorithm\<close>

text \<open>The loop that fills the map \<open>shift\<close>; a later occurrence of a rune replaces an earlier one.\<close>

fun fill_shift :: "int \<Rightarrow> int \<Rightarrow> rune list \<Rightarrow> (rune \<rightharpoonup> int) \<Rightarrow> (rune \<rightharpoonup> int)" where
  "fill_shift l i [] shift = shift"
| "fill_shift l i (r # rs) shift = fill_shift l (i + 1) rs (shift(r \<mapsto> max 1 (l - i - 1)))"

definition shift_table :: "rune list \<Rightarrow> (rune \<rightharpoonup> int)" where
  "shift_table queryWord = fill_shift (int (length queryWord)) 0 queryWord Map.empty"

text \<open>The inner loop, comparing backwards.\<close>

function bm_back :: "rune list \<Rightarrow> rune list \<Rightarrow> int \<Rightarrow> int \<Rightarrow> int \<Rightarrow> (int \<times> int \<times> int) go" where
  "bm_back queryWord urlRunes tmp sstrp strp =
     (if sstrp < 0 then Inr (tmp, sstrp, strp)
      else if strp < 0 \<or> strp \<ge> int (length urlRunes) then Inl IndexOutOfRange
      else if queryWord ! nat sstrp = urlRunes ! nat strp then bm_back queryWord urlRunes (tmp + 1) (sstrp - 1) (strp - 1)
      else Inr (tmp, sstrp, strp))"
  by pat_completeness auto
termination
  by (relation "measure (\<lambda>(q, u, tmp, sstrp, strp). nat (sstrp + 1))") auto

declare bm_back.simps [simp del]

text \<open>The search for one word: what it adds to \<open>wordInUrl\<close>. Before every turn \<open>sstrp\<close> is \<open>l - 1\<close>.\<close>

partial_function (option) bm_loop :: "rune list \<Rightarrow> rune list \<Rightarrow> int \<Rightarrow> int go option" where
  "bm_loop queryWord urlRunes strp =
     (let l = int (length queryWord) in
      if strp \<ge> int (length urlRunes) then Some (Inr 0)
      else if l = 0 \<or> strp < 0 then Some (Inl IndexOutOfRange)
      else if queryWord ! nat (l - 1) \<noteq> urlRunes ! nat strp then
        (case shift_table queryWord (urlRunes ! nat strp) of
           Some sh \<Rightarrow> bm_loop queryWord urlRunes (strp + sh)
         | None \<Rightarrow> bm_loop queryWord urlRunes (strp + l))
      else
        (case bm_back queryWord urlRunes l (l - 1) strp of
           Inl p \<Rightarrow> Some (Inl p)
         | Inr (tmp, sstrp, strp') \<Rightarrow>
             if sstrp = -1 then Some (Inr l) else bm_loop queryWord urlRunes (strp' + tmp)))"

fun bm_words :: "rune list \<Rightarrow> rune list list \<Rightarrow> int \<Rightarrow> int go option" where
  "bm_words urlRunes [] wordInUrl = Some (Inr wordInUrl)"
| "bm_words urlRunes (word # queryWords) wordInUrl =
     (case bm_loop word urlRunes (int (length word) - 1) of
        None \<Rightarrow> None
      | Some (Inl p) \<Rightarrow> Some (Inl p)
      | Some (Inr n) \<Rightarrow> bm_words urlRunes queryWords (wordInUrl + n))"

definition boyerMoorAlgorithm :: "rune list \<Rightarrow> rune list list \<Rightarrow> real go option" where
  "boyerMoorAlgorithm url queryWords =
     (case bm_words url queryWords 0 of
        None \<Rightarrow> None
      | Some (Inl p) \<Rightarrow> Some (Inl p)
      | Some (Inr n) \<Rightarrow> Some (Inr (ln (1 + real_of_int n))))"

section \<open>Lemmas\<close>

lemma fill_shift_notin: "r \<notin> set rs \<Longrightarrow> fill_shift l i rs shift r = shift r"
  by (induction rs arbitrary: i shift) auto

lemma fill_shift_last:
  "j < length rs \<Longrightarrow> rs ! j = r \<Longrightarrow> \<forall>k. j < k \<and> k < length rs \<longrightarrow> rs ! k \<noteq> r \<Longrightarrow>
   fill_shift l i rs shift r = Some (max 1 (l - (i + int j) - 1))"
proof (induction rs arbitrary: i j shift)
  case (Cons a rs)
  show ?case
  proof (cases j)
    case 0
    have "r \<notin> set rs"
    proof
      assume "r \<in> set rs"
      then obtain k where "k < length rs" "rs ! k = r" by (auto simp: in_set_conv_nth)
      then show False using Cons.prems(3) [rule_format, of "Suc k"] 0 by simp
    qed
    then show ?thesis using Cons.prems 0 by (simp add: fill_shift_notin)
  next
    case (Suc j')
    have "\<forall>k. j' < k \<and> k < length rs \<longrightarrow> rs ! k \<noteq> r"
      using Cons.prems(3) [rule_format, of "Suc _"] Suc by simp
    then have "fill_shift l (i + 1) rs (shift(a \<mapsto> max 1 (l - i - 1))) r = Some (max 1 (l - (i + 1 + int j') - 1))"
      using Cons.IH [of j' "i + 1"] Cons.prems Suc by simp
    then show ?thesis using Suc by (simp add: algebra_simps)
  qed
qed simp

text \<open>Shifting by the table never passes an occurrence: the rightmost match of the rune is aligned.\<close>

lemma last_occurrence: "c \<in> set q \<Longrightarrow> \<exists>j < length q. q ! j = c \<and> (\<forall>k. j < k \<and> k < length q \<longrightarrow> q ! k \<noteq> c)"
proof -
  assume "c \<in> set q"
  then obtain ys zs where q: "q = ys @ c # zs" "c \<notin> set zs" by (meson split_list_last)
  have "q ! k \<noteq> c" if lt: "length ys < k" and kq: "k < length q" for k
  proof -
    obtain m where "k = length ys + Suc m" using less_imp_Suc_add [OF lt] by auto
    then have "q ! k = zs ! m" "m < length zs" using q(1) kq by (simp_all add: nth_append)
    then show ?thesis using q(2) nth_mem by metis
  qed
  then show ?thesis using q by (intro exI [of _ "length ys"]) simp
qed

lemma shift_table_cases:
  shows "c \<notin> set q \<Longrightarrow> shift_table q c = None"
    and "c \<in> set q \<Longrightarrow> \<exists>sh. shift_table q c = Some sh \<and> 1 \<le> sh \<and> (\<forall>d < int (length q). d < sh \<and> 0 < d \<longrightarrow> q ! nat (int (length q) - 1 - d) \<noteq> c)"
proof -
  show "shift_table q c = None" if "c \<notin> set q" using that by (simp add: shift_table_def fill_shift_notin)
next
  assume c: "c \<in> set q"
  obtain j where j: "j < length q" "q ! j = c" "\<forall>k. j < k \<and> k < length q \<longrightarrow> q ! k \<noteq> c"
    using last_occurrence [OF c] by (elim exE conjE)
  let ?l = "int (length q)"
  have "shift_table q c = Some (max 1 (?l - int j - 1))"
    using fill_shift_last [OF j, of ?l 0] by (simp add: shift_table_def)
  moreover have "q ! nat (?l - 1 - d) \<noteq> c" if "d < ?l" "d < max 1 (?l - int j - 1)" "0 < d" for d
  proof -
    have "j < nat (?l - 1 - d)" "nat (?l - 1 - d) < length q" using that by (simp_all add: max_def split: if_splits)
    then show ?thesis using j(3) by blast
  qed
  ultimately show "\<exists>sh. shift_table q c = Some sh \<and> 1 \<le> sh \<and> (\<forall>d < int (length q). d < sh \<and> 0 < d \<longrightarrow> q ! nat (int (length q) - 1 - d) \<noteq> c)"
    by auto
qed

lemma fill_shift_bound: "fill_shift l i rs shift c = Some sh \<Longrightarrow> 0 \<le> i \<Longrightarrow> (\<forall>s. shift c = Some s \<longrightarrow> s \<le> l \<or> s = 1) \<Longrightarrow> sh \<le> l \<or> sh = 1"
proof (induction rs arbitrary: i shift)
  case (Cons r rs)
  then show ?case using Cons.IH [of "i + 1" "shift(r \<mapsto> max 1 (l - i - 1))"] by (fastforce simp: max_def split: if_splits)
qed simp

lemma shift_table_bound: "shift_table q c = Some sh \<Longrightarrow> sh \<le> int (length q) \<or> sh = 1"
  unfolding shift_table_def by (erule fill_shift_bound) simp_all

text \<open>The inner loop matches \<open>k\<close> runes and stops at the first difference or after the whole word.\<close>

lemma bm_back_matches:
  "-1 \<le> s \<Longrightarrow> s \<le> p \<Longrightarrow> p < int (length u) \<Longrightarrow>
   \<exists>k. 0 \<le> k \<and> k \<le> s + 1 \<and> bm_back q u t s p = Inr (t + k, s - k, p - k) \<and>
     (\<forall>j. 0 \<le> j \<and> j < k \<longrightarrow> q ! nat (s - j) = u ! nat (p - j)) \<and> (k \<le> s \<longrightarrow> q ! nat (s - k) \<noteq> u ! nat (p - k))"
proof (induction q u t s p rule: bm_back.induct)
  case (1 q u t s p)
  show ?case
  proof (cases "0 \<le> s \<and> q ! nat s = u ! nat p")
    case True
    then obtain k where k: "0 \<le> k" "k \<le> s" "bm_back q u (t + 1) (s - 1) (p - 1) = Inr (t + 1 + k, s - 1 - k, p - 1 - k)"
      "\<forall>j. 0 \<le> j \<and> j < k \<longrightarrow> q ! nat (s - 1 - j) = u ! nat (p - 1 - j)" "k \<le> s - 1 \<longrightarrow> q ! nat (s - 1 - k) \<noteq> u ! nat (p - 1 - k)"
      using 1 by (auto simp: not_less)
    have "q ! nat (s - j) = u ! nat (p - j)" if "0 \<le> j" "j < k + 1" for j
      using True k(4) [rule_format, of "j - 1"] that by (cases "j = 0") simp_all
    then show ?thesis using True k 1(2-) by (intro exI [of _ "k + 1"]) (simp add: bm_back.simps [of q u t s p] algebra_simps)
  next
    case False
    then show ?thesis using 1(2-) by (intro exI [of _ 0]) (auto simp: bm_back.simps [of q u t s p])
  qed
qed

text \<open>\<open>occurs_at q u e\<close>: the word ends at position \<open>e\<close> of the URL.\<close>

definition occurs_at :: "rune list \<Rightarrow> rune list \<Rightarrow> int \<Rightarrow> bool" where
  "occurs_at q u e \<longleftrightarrow> int (length q) - 1 \<le> e \<and> e < int (length u) \<and>
     (\<forall>j. 0 \<le> j \<and> j < int (length q) \<longrightarrow> q ! nat (int (length q) - 1 - j) = u ! nat (e - j))"

lemma occurs_sublist: "(\<exists>e. occurs_at q u e) \<longleftrightarrow> sublist q u"
proof
  assume "\<exists>e. occurs_at q u e"
  then obtain e where e: "int (length q) - 1 \<le> e" "e < int (length u)"
    "\<forall>j. 0 \<le> j \<and> j < int (length q) \<longrightarrow> q ! nat (int (length q) - 1 - j) = u ! nat (e - j)"
    by (auto simp: occurs_at_def)
  let ?s = "nat (e + 1 - int (length q))"
  have "take (length q) (drop ?s u) = q"
  proof (rule nth_equalityI)
    show "length (take (length q) (drop ?s u)) = length q" using e by simp
    fix i assume "i < length (take (length q) (drop ?s u))"
    then have i: "i < length q" by simp
    have "nat (int (length q) - 1 - int (length q - 1 - i)) = i" "nat (e - int (length q - 1 - i)) = ?s + i"
      using i e(1) by auto
    then have "q ! i = u ! (?s + i)" using e(3) [rule_format, of "int (length q - 1 - i)"] i by simp
    then show "take (length q) (drop ?s u) ! i = q ! i" using i e by simp
  qed
  then show "sublist q u" by (metis sublist_drop sublist_order.dual_order.trans sublist_take)
next
  assume "sublist q u"
  then obtain a b where u: "u = a @ q @ b" by (auto simp: sublist_def)
  have "occurs_at q u (int (length a) + int (length q) - 1)"
    unfolding occurs_at_def u
  proof (intro conjI allI impI)
    fix j assume j: "0 \<le> j \<and> j < int (length q)"
    let ?i = "nat (int (length q) - 1 - j)"
    have "nat (int (length a) + int (length q) - 1 - j) = length a + ?i" "?i < length q" using j by auto
    then show "q ! ?i = (a @ q @ b) ! nat (int (length a) + int (length q) - 1 - j)" by (simp add: nth_append)
  qed auto
  then show "\<exists>e. occurs_at q u e" by blast
qed


text \<open>
  If the last rune of the word does not occur in it a second time, no occurrence that starts at or after
  the current alignment is passed by a shift.
\<close>

lemma shift_keeps:
  assumes q: "q \<noteq> []" and occ: "occurs_at q u e" "strp < e" and strp: "int (length q) - 1 \<le> strp"
    and sh: "case shift_table q (u ! nat strp) of Some sh \<Rightarrow> s = sh | None \<Rightarrow> s = int (length q)"
  shows "strp + s \<le> e"
proof (rule ccontr)
  assume "\<not> strp + s \<le> e"
  let ?d = "e - strp" and ?l = "int (length q)" and ?c = "u ! nat strp"
  have d: "0 < ?d" "?d < s" using occ(2) \<open>\<not> strp + s \<le> e\<close> by auto
  have at: "q ! nat (?l - 1 - ?d) = ?c" if "?d < ?l"
    using occ(1) d(1) that unfolding occurs_at_def by (auto dest!: spec [of _ ?d])
  show False
  proof (cases "?c \<in> set q")
    case False
    then have "s = ?l" using sh shift_table_cases(1) by simp
    then have "nat (?l - 1 - ?d) < length q" using d by simp
    then show False using at d \<open>s = ?l\<close> False nth_mem by metis
  next
    case True
    then obtain sh' where sh': "shift_table q ?c = Some sh'" "\<forall>d < ?l. d < sh' \<and> 0 < d \<longrightarrow> q ! nat (?l - 1 - d) \<noteq> ?c" "sh' \<le> ?l \<or> sh' = 1"
      using shift_table_cases(2) [OF True] shift_table_bound [of q ?c] by blast
    then have "s = sh'" using sh by simp
    then have "?d < ?l" using d sh'(3) by auto
    then show False using at sh'(2) d \<open>s = sh'\<close> by blast
  qed
qed

lemma skip_keeps:
  assumes q: "q \<noteq> []" "last q \<notin> set (butlast q)" and occ: "occurs_at q u e" "strp < e"
    and strp: "q ! nat (int (length q) - 1) = u ! nat strp"
  shows "strp + int (length q) \<le> e"
proof (rule ccontr)
  assume "\<not> strp + int (length q) \<le> e"
  let ?d = "e - strp" and ?l = "int (length q)"
  have d: "0 < ?d" "?d < ?l" using occ(2) \<open>\<not> strp + ?l \<le> e\<close> by auto
  then have at: "q ! nat (?l - 1 - ?d) = u ! nat strp"
    using occ(1) unfolding occurs_at_def by (auto dest!: spec [of _ ?d])
  have last: "nat (?l - 1) = length q - 1" "q ! (length q - 1) = last q" using q(1) by (auto simp: last_conv_nth)
  have i: "nat (?l - 1 - ?d) < length (butlast q)" using d by auto
  then have "butlast q ! nat (?l - 1 - ?d) = last q" using at strp last by (simp add: nth_butlast)
  then show False using i q(2) nth_mem by metis
qed

lemma full_match:
  assumes "int (length q) - 1 \<le> strp" "strp < int (length u)" "bm_back q u t (int (length q) - 1) strp = Inr (tmp, -1, strp')"
  shows "occurs_at q u strp"
  using bm_back_matches [of "int (length q) - 1" strp u q t] assms by (auto simp: occurs_at_def)

lemma match_full:
  assumes "q \<noteq> []" "occurs_at q u strp"
  shows "\<exists>tmp strp'. bm_back q u t (int (length q) - 1) strp = Inr (tmp, -1, strp')"
proof -
  let ?s = "int (length q) - 1"
  have s: "-1 \<le> ?s" "?s \<le> strp" "strp < int (length u)" using assms(2) by (auto simp: occurs_at_def)
  obtain k where k: "0 \<le> k" "k \<le> ?s + 1" "bm_back q u t ?s strp = Inr (t + k, ?s - k, strp - k)"
    "k \<le> ?s \<longrightarrow> q ! nat (?s - k) \<noteq> u ! nat (strp - k)"
    using bm_back_matches [OF s, of q t] by blast
  have "q ! nat (?s - k) = u ! nat (strp - k)" if "k \<le> ?s" using assms(2) that k(1) by (simp add: occurs_at_def)
  then have "k = ?s + 1" using k by linarith
  then show ?thesis using k(3) by simp
qed

lemma bm_loop_returns:
  assumes "q \<noteq> []"
  shows "int (length q) - 1 \<le> strp \<Longrightarrow> \<exists>v. bm_loop q u strp = Some (Inr v) \<and>
    (v = 0 \<or> v = int (length q) \<and> (\<exists>e. occurs_at q u e)) \<and>
    (last q \<notin> set (butlast q) \<and> (\<exists>e \<ge> strp. occurs_at q u e) \<longrightarrow> v = int (length q))"
proof (induction "nat (int (length u) - strp)" arbitrary: strp rule: less_induct)
  case less
  let ?l = "int (length q)"
  have l: "0 < ?l" using assms by simp
  have strp0: "\<not> strp < 0" using less.prems l by linarith
  have go: "\<exists>v. bm_loop q u strp = Some (Inr v) \<and> (v = 0 \<or> v = ?l \<and> (\<exists>e. occurs_at q u e)) \<and>
      (last q \<notin> set (butlast q) \<and> (\<exists>e \<ge> strp. occurs_at q u e) \<longrightarrow> v = ?l)"
    if eq: "bm_loop q u strp = bm_loop q u (strp + s)" and s: "1 \<le> s" "strp < int (length u)"
      and keep: "last q \<notin> set (butlast q) \<Longrightarrow> \<forall>e \<ge> strp. occurs_at q u e \<longrightarrow> strp + s \<le> e" for s
  proof -
    have "nat (int (length u) - (strp + s)) < nat (int (length u) - strp)" "?l - 1 \<le> strp + s" using s less.prems by auto
    then obtain v where "bm_loop q u (strp + s) = Some (Inr v)" "v = 0 \<or> v = ?l \<and> (\<exists>e. occurs_at q u e)"
      "last q \<notin> set (butlast q) \<and> (\<exists>e \<ge> strp + s. occurs_at q u e) \<longrightarrow> v = ?l"
      using less.hyps by blast
    then show ?thesis using eq keep by auto
  qed
  show ?case
  proof (cases "strp \<ge> int (length u)")
    case True
    then show ?thesis by (subst bm_loop.simps) (auto simp: occurs_at_def Let_def)
  next
    case inside: False
    show ?thesis
    proof (cases "q ! nat (?l - 1) = u ! nat strp")
      case False
      define s where "s = (case shift_table q (u ! nat strp) of Some sh \<Rightarrow> sh | None \<Rightarrow> ?l)"
      have loop: "bm_loop q u strp = bm_loop q u (strp + s)"
        using inside False l strp0 by (subst bm_loop.simps) (simp add: Let_def s_def split: option.splits)
      have "1 \<le> s" using shift_table_cases [of "u ! nat strp" q] l by (cases "u ! nat strp \<in> set q") (auto simp: s_def Suc_le_eq)
      moreover have "strp + s \<le> e" if "strp \<le> e" "occurs_at q u e" for e
      proof -
        have "strp \<noteq> e" using that(2) False l unfolding occurs_at_def by (auto dest!: spec [of _ 0])
        then show ?thesis
          using shift_keeps [OF assms that(2) _ less.prems, of s] that(1) by (auto simp: s_def split: option.splits)
      qed
      ultimately show ?thesis using go [OF loop] inside by auto
    next
      case True
      have s: "-1 \<le> ?l - 1" "?l - 1 \<le> strp" "strp < int (length u)" using less.prems inside l by auto
      obtain k where k: "0 \<le> k" "k \<le> ?l" "bm_back q u ?l (?l - 1) strp = Inr (?l + k, ?l - 1 - k, strp - k)"
        using bm_back_matches [OF s, of q ?l] by auto
      show ?thesis
      proof (cases "?l - 1 - k = -1")
        case full: True
        then have "occurs_at q u strp" using full_match [OF s(2,3)] k(3) by metis
        moreover have "bm_loop q u strp = Some (Inr ?l)"
          using inside True l strp0 k(3) full by (subst bm_loop.simps) (auto simp: Let_def)
        ultimately show ?thesis by auto
      next
        case part: False
        have loop: "bm_loop q u strp = bm_loop q u (strp + ?l)"
          using inside True l strp0 k(3) part by (subst bm_loop.simps) (simp add: Let_def add.commute add.left_commute)
        have "strp + ?l \<le> e" if "last q \<notin> set (butlast q)" "strp \<le> e" "occurs_at q u e" for e
        proof -
          have "strp \<noteq> e" using match_full [OF assms, of u strp ?l] that(3) k(3) part by auto
          then show ?thesis using skip_keeps [OF assms that(1,3) _ True] that(2) by simp
        qed
        then show ?thesis using go [OF loop] l inside by auto
      qed
    qed
  qed
qed

lemma url_search_hits:
  assumes "\<forall>w \<in> set ws. w \<noteq> []"
  shows "\<exists>hit. boyerMoorAlgorithm u ws = Some (Inr (ln (1 + real (sum_list (map length (filter hit ws)))))) \<and>
    (\<forall>w \<in> set ws. (hit w \<longrightarrow> sublist w u) \<and> (last w \<notin> set (butlast w) \<longrightarrow> hit w = sublist w u))"
proof -
  define hit where "hit w \<longleftrightarrow> bm_loop w u (int (length w) - 1) = Some (Inr (int (length w)))" for w
  have word: "bm_loop w u (int (length w) - 1) = Some (Inr (if hit w then int (length w) else 0)) \<and>
      (hit w \<longrightarrow> sublist w u) \<and> (last w \<notin> set (butlast w) \<longrightarrow> hit w = sublist w u)" if w: "w \<noteq> []" for w
  proof -
    obtain v where v: "bm_loop w u (int (length w) - 1) = Some (Inr v)"
      "v = 0 \<or> v = int (length w) \<and> (\<exists>e. occurs_at w u e)"
      "last w \<notin> set (butlast w) \<and> (\<exists>e \<ge> int (length w) - 1. occurs_at w u e) \<longrightarrow> v = int (length w)"
      using bm_loop_returns [OF w, of "int (length w) - 1" u] by blast
    moreover have "(\<exists>e \<ge> int (length w) - 1. occurs_at w u e) \<longleftrightarrow> (\<exists>e. occurs_at w u e)" by (auto simp: occurs_at_def)
    ultimately show ?thesis using w by (auto simp: hit_def occurs_sublist)
  qed
  have "bm_words u ws n = Some (Inr (n + int (sum_list (map length (filter hit ws)))))" for n
    using assms
  proof (induction ws arbitrary: n)
    case (Cons w ws)
    then show ?case using word [of w] by simp
  qed simp
  from this [of 0] have "boyerMoorAlgorithm u ws = Some (Inr (ln (1 + real (sum_list (map length (filter hit ws))))))"
    by (simp add: boyerMoorAlgorithm_def)
  then show ?thesis using assms word by blast
qed

lemma url_search_total: "\<forall>w \<in> set ws. w \<noteq> [] \<Longrightarrow> \<exists>r. boyerMoorAlgorithm u ws = Some (Inr r)"
  using url_search_hits by blast

section \<open>Properties\<close>

text \<open>
  C29: for nonempty words the search returns, without an index out of range, the logarithm of one plus the
  lengths of the words found; a word that is found occurs in the URL, and a word whose last rune it contains
  only once is found exactly if it occurs.
\<close>

theorem url_search_returns:
  assumes "\<forall>w \<in> set ws. w \<noteq> []"
  shows "\<exists>hit. boyerMoorAlgorithm u ws = Some (Inr (ln (1 + real (sum_list (map length (filter hit ws)))))) \<and>
    (\<forall>w \<in> set ws. (hit w \<longrightarrow> sublist w u) \<and> (last w \<notin> set (butlast w) \<longrightarrow> hit w = sublist w u))"
  using url_search_hits [OF assms] .

theorem url_search_returns_witness:
  "boyerMoorAlgorithm [104, 116, 116, 112, 58, 47, 47, 103, 111] [[103, 111]] = Some (Inr (ln 3))"
proof -
  have "\<forall>w \<in> set [[103, 111 :: rune]]. w \<noteq> []" by simp
  from url_search_returns [OF this, of "[104, 116, 116, 112, 58, 47, 47, 103, 111]"]
  show ?thesis by (auto simp: sublist_Cons_right)
qed


text \<open>
  Where the last rune occurs twice an occurrence can be passed over: after a partial match the word is moved
  by its whole length. Here \<open>aba\<close> is not found in \<open>xxaba\<close>.
\<close>

lemma url_search_misses:
  "boyerMoorAlgorithm [120, 120, 97, 98, 97] [[97, 98, 97]] = Some (Inr 0)" "sublist [97, 98, 97] [120, 120, 97, 98, 97 :: rune]"
proof -
  have "bm_words [120, 120, 97, 98, 97] [[97, 98, 97]] 0 = Some (Inr 0)"
    by (simp add: bm_loop.simps bm_back.simps shift_table_def)
  then show "boyerMoorAlgorithm [120, 120, 97, 98, 97] [[97, 98, 97]] = Some (Inr 0)" by (simp add: boyerMoorAlgorithm_def)
qed (simp add: sublist_Cons_right)

end
