(* ===== verification/Searcher.thy ===== *)
theory Searcher
  imports Proximity UrlMatch Tokenizer
begin

text \<open>
  Ranking of search results (\<open>searcher/searcher.go\<close>, \<open>calcBM25\<close> of \<open>preprocessingFeatures.go\<close>). The
  index is a parameter: the answer of \<open>HandleTextQuery\<close>, the average length and the number of documents, and
  \<open>GetDocumentByID\<close>. A map of the answer is the list of its entries in the order of iteration. Scores are
  real numbers.
\<close>

section \<open>Scores\<close>

definition calcBM25 :: "real \<Rightarrow> real \<Rightarrow> real \<Rightarrow> real \<Rightarrow> real" where
  "calcBM25 idf avgLen tf tokens =
     (let k1 = 12 / 10; b = 75 / 100 in
      idf * (tf * (k1 + 1)) / (tf + k1 * (1 - b + b * (ln (tokens / avgLen) + 1 / 100))))"

definition idf_of :: "nat \<Rightarrow> nat \<Rightarrow> real" where
  "idf_of nDocs n = ln (real nDocs / real (n + 1))"

type_synonym posting = "(bytes \<times> WordCountAndPositions) list"

text \<open>The sums over the query words of one document, and the positions of its words.\<close>

fun score_words :: "real \<Rightarrow> nat \<Rightarrow> bytes \<Rightarrow> real \<Rightarrow> posting list \<Rightarrow> real \<times> real" where
  "score_words avgLen nDocs ident tokens [] = (0, 0)"
| "score_words avgLen nDocs ident tokens (ix # index) =
     (let (tfidf, bm25) = score_words avgLen nDocs ident tokens index; idf = idf_of nDocs (length ix) in
      case map_of ix ident of
        None \<Rightarrow> (tfidf, bm25)
      | Some item \<Rightarrow>
          let tf = real_of_int (Count item) / tokens in
          (tf * idf + tfidf, calcBM25 idf avgLen tf tokens + bm25))"

definition word_positions :: "bytes \<Rightarrow> posting list \<Rightarrow> Position list list" where
  "word_positions ident index = map (\<lambda>ix. case map_of ix ident of None \<Rightarrow> [] | Some item \<Rightarrow> Positions item) index"

text \<open>The loop over the positions of one word: \<open>n\<close> turns, stopped by the first header position.\<close>

fun header_scan :: "Position list \<Rightarrow> nat \<Rightarrow> bool go" where
  "header_scan ps 0 = Inr False"
| "header_scan [] (Suc n) = Inl IndexOutOfRange"
| "header_scan (p # ps) (Suc n) = (if Type p = HeaderType then Inr True else header_scan ps n)"

fun header_words :: "bytes \<Rightarrow> posting list \<Rightarrow> bool go" where
  "header_words ident [] = Inr False"
| "header_words ident (ix # index) =
     (case map_of ix ident of
        None \<Rightarrow> header_words ident index
      | Some item \<Rightarrow>
          (case header_scan (Positions item) (nat (min (Count item) 500)) of
             Inl p \<Rightarrow> Inl p
           | Inr True \<Rightarrow> Inr True
           | Inr False \<Rightarrow> header_words ident index))"

text \<open>Results of code that may run for ever or panic.\<close>

definition obind :: "'a go option \<Rightarrow> ('a \<Rightarrow> 'b go option) \<Rightarrow> 'b go option" where
  "obind x f = (case x of None \<Rightarrow> None | Some (Inl p) \<Rightarrow> Some (Inl p) | Some (Inr a) \<Rightarrow> f a)"

lemma obind_simps [simp]: "obind None f = None" "obind (Some (Inl p)) f = Some (Inl p)" "obind (Some (Inr a)) f = f a"
  by (simp_all add: obind_def)

text \<open>The ranking record of one document; \<open>runes\<close> is the conversion \<open>[]rune\<close> of a query word.\<close>

definition rank_document :: "unicode \<Rightarrow> (string \<Rightarrow> nat list) \<Rightarrow> string list \<Rightarrow> posting list \<Rightarrow> real \<Rightarrow> nat \<Rightarrow> bytes \<Rightarrow> Document \<Rightarrow> DocRanking go option" where
  "rank_document u runes ws index avgLen nDocs ident doc =
     (let (tfidf, bm25) = score_words avgLen nDocs ident (real_of_int (TokenCount doc)) index in
      obind (Some (getMinQueryDistInDoc (word_positions ident index) (length ws))) (\<lambda>dist.
      obind (boyerMoorAlgorithm (lower_runes u (DocURL doc)) (map runes ws)) (\<lambda>hits.
      obind (Some (header_words ident index)) (\<lambda>hdr.
        Some (Inr \<lparr>Tf_Idf = tfidf, BM25 = bm25, LogLenWordInURL = hits, TermProximity = dist, HasWordInHeader = hdr\<rparr>)))))"

section \<open>Search\<close>

text \<open>The loop over one map of the answer: \<open>docs\<close> and \<open>result\<close>; \<open>None\<close> if a document cannot be read.\<close>

fun fetch_documents :: "(bytes \<Rightarrow> Document option) \<Rightarrow> bytes list \<Rightarrow> (bytes \<rightharpoonup> Document) \<Rightarrow> Document list \<Rightarrow>
    ((bytes \<rightharpoonup> Document) \<times> Document list) option" where
  "fetch_documents get [] docs result = Some (docs, result)"
| "fetch_documents get (ident # ids) docs result =
     (if docs ident \<noteq> None then fetch_documents get ids docs result
      else case get ident of
        None \<Rightarrow> None
      | Some doc \<Rightarrow> fetch_documents get ids (docs(ident \<mapsto> doc)) (result @ [doc]))"

text \<open>The loop over \<open>docs\<close>; \<open>ids\<close> is the order of its iteration.\<close>

fun rank_documents :: "(bytes \<Rightarrow> Document \<Rightarrow> DocRanking go option) \<Rightarrow> (bytes \<rightharpoonup> Document) \<Rightarrow> bytes list \<Rightarrow> (bytes \<rightharpoonup> DocRanking) go option" where
  "rank_documents rank docs [] = Some (Inr Map.empty)"
| "rank_documents rank docs (ident # ids) =
     obind (rank ident (the (docs ident))) (\<lambda>r.
     obind (rank_documents rank docs ids) (\<lambda>rs. Some (Inr (rs(ident \<mapsto> r)))))"

definition by_score :: "(bytes \<rightharpoonup> DocRanking) \<Rightarrow> Document \<Rightarrow> Document \<Rightarrow> bool" where
  "by_score rank i j =
     (let ir = the (rank (DocId i)); jr = the (rank (DocId j)) in
      if BM25 ir \<noteq> BM25 jr then BM25 ir > BM25 jr
      else if Tf_Idf ir \<noteq> Tf_Idf jr then Tf_Idf ir > Tf_Idf jr
      else TermProximity ir < TermProximity jr)"

definition by_url :: "(bytes \<rightharpoonup> DocRanking) \<Rightarrow> Document \<Rightarrow> Document \<Rightarrow> bool" where
  "by_url rank i j =
     (let ir = the (rank (DocId i)); jr = the (rank (DocId j)) in
      if LogLenWordInURL ir \<noteq> LogLenWordInURL jr then LogLenWordInURL ir > LogLenWordInURL jr
      else HasWordInHeader ir \<and> \<not> HasWordInHeader jr)"

text \<open>
  \<open>Search\<close>: \<open>None\<close> inside is the result \<open>nil, nil, nil\<close>. \<open>srt\<close> is \<open>sort.Slice\<close>.
\<close>

definition Search :: "unicode \<Rightarrow> (string \<Rightarrow> nat list) \<Rightarrow> ((Document \<Rightarrow> Document \<Rightarrow> bool) \<Rightarrow> Document list \<Rightarrow> Document list) \<Rightarrow>
    (string list \<times> posting list) option \<Rightarrow> real option \<Rightarrow> nat option \<Rightarrow> (bytes \<Rightarrow> Document option) \<Rightarrow> int \<Rightarrow>
    ((Document list \<times> DocRanking list) option) go option" where
  "Search u runes srt query avg cnt get maxLen =
     (case query of None \<Rightarrow> Some (Inr None) | Some (ws, index) \<Rightarrow>
      case avg of None \<Rightarrow> Some (Inr None) | Some avgLen \<Rightarrow>
      case cnt of None \<Rightarrow> Some (Inr None) | Some nDocs \<Rightarrow>
        if length index < length ws then Some (Inl IndexOutOfRange)
        else
          let ixs = take (length ws) index in
          case fetch_documents get (concat (map (map fst) ixs)) Map.empty [] of
            None \<Rightarrow> Some (Inr None)
          | Some (docs, result) \<Rightarrow>
              obind (rank_documents (rank_document u runes ws ixs avgLen nDocs) docs (remdups (concat (map (map fst) ixs)))) (\<lambda>rank.
                if result = [] then Some (Inr None)
                else
                  let sorted = srt (by_score rank) result; n = min (int (length sorted)) maxLen in
                  if n < 0 then Some (Inl SliceOutOfRange)
                  else let topN = srt (by_url rank) (take (nat n) sorted) in
                    Some (Inr (Some (topN, map (\<lambda>d. the (rank (DocId d))) topN)))))"

section \<open>Lemmas\<close>

lemma fetch_documents_spec:
  "\<forall>ident \<in> set ids. get ident \<noteq> None \<Longrightarrow> \<exists>docs' new. fetch_documents get ids docs result = Some (docs', result @ map (the \<circ> get) new) \<and>
     distinct new \<and> set new = set ids - dom docs \<and> docs' = docs ++ (get |` (set ids - dom docs))"
proof (induction ids arbitrary: docs result)
  case Nil
  then show ?case by (auto simp: restrict_map_def map_add_def fun_eq_iff)
next
  case (Cons ident ids)
  show ?case
  proof (cases "docs ident")
    case None
    then obtain doc where doc: "get ident = Some doc" using Cons.prems by auto
    obtain docs' new where ih: "fetch_documents get ids (docs(ident \<mapsto> doc)) (result @ [doc]) = Some (docs', (result @ [doc]) @ map (the \<circ> get) new)"
      "distinct new" "set new = set ids - dom (docs(ident \<mapsto> doc))" "docs' = docs(ident \<mapsto> doc) ++ (get |` (set ids - dom (docs(ident \<mapsto> doc))))"
      using Cons.IH [of "docs(ident \<mapsto> doc)" "result @ [doc]"] Cons.prems unfolding list.set ball_simps by blast
    have "docs' = docs ++ (get |` (set (ident # ids) - dom docs))"
      unfolding ih(4) using None doc by (auto simp: map_add_def restrict_map_def fun_eq_iff split: option.splits)
    then show ?thesis using None doc ih(1-3) by (intro exI [of _ docs'] exI [of _ "ident # new"]) auto
  next
    case (Some doc)
    then have "set (ident # ids) - dom docs = set ids - dom docs" by auto
    then show ?thesis using Cons Some by simp
  qed
qed

lemma rank_documents_spec:
  "\<forall>ident \<in> set ids. \<exists>r. rank ident (the (docs ident)) = Some (Inr r) \<Longrightarrow>
   \<exists>rs. rank_documents rank docs ids = Some (Inr rs) \<and> dom rs = set ids \<and> (\<forall>ident \<in> set ids. rank ident (the (docs ident)) = Some (Inr (the (rs ident))))"
  by (induction ids) fastforce+

lemma header_scan_ok: "n \<le> length ps \<Longrightarrow> header_scan ps n = Inr (\<exists>p \<in> set (take n ps). Type p = HeaderType)"
  by (induction ps n rule: header_scan.induct) auto

definition entry_ok :: "WordCountAndPositions \<Rightarrow> bool" where
  "entry_ok item \<longleftrightarrow> min (Count item) 500 \<le> int (length (Positions item))"

lemma header_words_ok:
  "\<forall>ix \<in> set index. \<forall>(ident, item) \<in> set ix. entry_ok item \<Longrightarrow> \<exists>h. header_words ident index = Inr h"
proof (induction index)
  case (Cons ix index)
  show ?case
  proof (cases "map_of ix ident")
    case (Some item)
    then have "entry_ok item" using Cons.prems by (auto dest: map_of_SomeD)
    then have "nat (min (Count item) 500) \<le> length (Positions item)" by (simp add: entry_ok_def)
    then show ?thesis using Some Cons by (auto simp: header_scan_ok split: bool.splits)
  qed (use Cons in simp)
qed auto

lemma rank_document_ok:
  assumes "\<forall>w \<in> set ws. runes w \<noteq> []" "\<forall>ix \<in> set index. \<forall>(ident, item) \<in> set ix. entry_ok item" "length ws = length index"
  shows "\<exists>r. rank_document u runes ws index avgLen nDocs ident doc = Some (Inr r)"
proof -
  obtain h where h: "header_words ident index = Inr h" using header_words_ok [OF assms(2)] by blast
  have "\<forall>w \<in> set (map runes ws). w \<noteq> []" using assms(1) by simp
  then obtain hits where "boyerMoorAlgorithm (lower_runes u (DocURL doc)) (map runes ws) = Some (Inr hits)"
    using url_search_total by blast
  then show ?thesis using h assms(3)
    by (simp add: rank_document_def getMinQueryDistInDoc_def word_positions_def case_prod_beta Let_def)
qed

lemma by_score_order: "strict_weak_on A (by_score rank)"
proof (rule strict_weak_lex [where f = "\<lambda>d. - BM25 (the (rank (DocId d)))" and
      g = "\<lambda>i j. let ir = the (rank (DocId i)); jr = the (rank (DocId j)) in
        if Tf_Idf ir \<noteq> Tf_Idf jr then Tf_Idf ir > Tf_Idf jr else TermProximity ir < TermProximity jr"])
  show "strict_weak_on A (\<lambda>i j. let ir = the (rank (DocId i)); jr = the (rank (DocId j)) in
        if Tf_Idf ir \<noteq> Tf_Idf jr then Tf_Idf ir > Tf_Idf jr else TermProximity ir < TermProximity jr)"
    by (rule strict_weak_lex [where f = "\<lambda>d. - Tf_Idf (the (rank (DocId d)))" and
        g = "\<lambda>i j. TermProximity (the (rank (DocId i))) < TermProximity (the (rank (DocId j)))"])
      (auto simp: Let_def intro: strict_weak_key)
qed (auto simp: by_score_def Let_def)

lemma by_url_order: "strict_weak_on A (by_url rank)"
  by (rule strict_weak_lex [where f = "\<lambda>d. - LogLenWordInURL (the (rank (DocId d)))" and
      g = "\<lambda>i j. HasWordInHeader (the (rank (DocId i))) \<and> \<not> HasWordInHeader (the (rank (DocId j)))"])
    (auto simp: by_url_def Let_def strict_weak_on_def)


text \<open>The two orders, spelt out: \<open>r\<close> is at least as good as \<open>r'\<close>.\<close>

definition score_before :: "DocRanking \<Rightarrow> DocRanking \<Rightarrow> bool" where
  "score_before r r' \<longleftrightarrow> BM25 r > BM25 r' \<or> BM25 r = BM25 r' \<and>
     (Tf_Idf r > Tf_Idf r' \<or> Tf_Idf r = Tf_Idf r' \<and> TermProximity r \<le> TermProximity r')"

definition url_before :: "DocRanking \<Rightarrow> DocRanking \<Rightarrow> bool" where
  "url_before r r' \<longleftrightarrow> LogLenWordInURL r > LogLenWordInURL r' \<or>
     LogLenWordInURL r = LogLenWordInURL r' \<and> (HasWordInHeader r' \<longrightarrow> HasWordInHeader r)"

lemma not_by_score: "\<not> by_score rank e d \<longleftrightarrow> score_before (the (rank (DocId d))) (the (rank (DocId e)))"
  by (auto simp: by_score_def score_before_def Let_def)

lemma not_by_url: "\<not> by_url rank e d \<longleftrightarrow> url_before (the (rank (DocId d))) (the (rank (DocId e)))"
  by (auto simp: by_url_def url_before_def Let_def)

section \<open>Results\<close>

definition result_ids :: "posting list \<Rightarrow> bytes set" where
  "result_ids index = (\<Union>ix \<in> set index. fst ` set ix)"

text \<open>The documents of the answer: each once, by their ids.\<close>

lemma fetched_documents:
  assumes "\<forall>ident \<in> result_ids index. \<exists>d. get ident = Some d \<and> DocId d = ident"
  shows "\<exists>docs new. fetch_documents get (concat (map (map fst) index)) Map.empty [] = Some (docs, map (the \<circ> get) new) \<and>
    distinct new \<and> set new = result_ids index \<and> (\<forall>ident \<in> result_ids index. docs ident = get ident) \<and>
    (\<forall>ident \<in> set new. DocId (the (get ident)) = ident)"
proof -
  have ids: "set (concat (map (map fst) index)) = result_ids index" by (auto simp: result_ids_def)
  then have "\<forall>ident \<in> set (concat (map (map fst) index)). get ident \<noteq> None" using assms by auto
  from fetch_documents_spec [OF this, of Map.empty "[]"] obtain docs new
    where "fetch_documents get (concat (map (map fst) index)) Map.empty [] = Some (docs, map (the \<circ> get) new)"
      "distinct new" "set new = result_ids index" "docs = get |` result_ids index"
    unfolding ids by auto
  then show ?thesis using assms by (intro exI [of _ docs] exI [of _ new]) force
qed

text \<open>What \<open>Search\<close> returns for words that have entries.\<close>

lemma Search_ranked:
  assumes srt: "sort_law srt" and ws: "\<forall>w \<in> set ws. runes w \<noteq> []" "length index = length ws"
    and entries: "\<forall>ix \<in> set index. \<forall>(ident, item) \<in> set ix. entry_ok item"
    and docs: "\<forall>ident \<in> result_ids index. \<exists>d. get ident = Some d \<and> DocId d = ident"
    and some: "result_ids index \<noteq> {}" "0 \<le> maxLen"
  shows "\<exists>top rank. Search u runes srt (Some (ws, index)) (Some avgLen) (Some n) get maxLen =
      Some (Inr (Some (top, map (\<lambda>d. the (rank (DocId d))) top))) \<and>
    (\<forall>ident \<in> result_ids index. rank_document u runes ws index avgLen n ident (the (get ident)) = Some (Inr (the (rank ident)))) \<and>
    distinct (map DocId top) \<and> length top = min (card (result_ids index)) (nat maxLen) \<and>
    (\<forall>d \<in> set top. DocId d \<in> result_ids index \<and> get (DocId d) = Some d) \<and>
    sorted_wrt (\<lambda>d e. url_before (the (rank (DocId d))) (the (rank (DocId e)))) top \<and>
    (\<forall>d \<in> set top. \<forall>ident \<in> result_ids index - DocId ` set top. score_before (the (rank (DocId d))) (the (rank ident)))"
proof -
  note slice = sort_slice.intro [OF srt]
  let ?ids = "concat (map (map fst) index)"
  obtain dm new where f: "fetch_documents get ?ids Map.empty [] = Some (dm, map (the \<circ> get) new)" "distinct new"
    "set new = result_ids index" "\<forall>ident \<in> result_ids index. dm ident = get ident" "\<forall>ident \<in> set new. DocId (the (get ident)) = ident"
    using fetched_documents [OF docs] by blast
  have ids: "set (remdups ?ids) = result_ids index" by (auto simp: result_ids_def)
  obtain rank where r: "rank_documents (rank_document u runes ws index avgLen n) dm (remdups ?ids) = Some (Inr rank)"
    "\<forall>ident \<in> result_ids index. rank_document u runes ws index avgLen n ident (the (dm ident)) = Some (Inr (the (rank ident)))"
    using rank_documents_spec [of "remdups ?ids" "rank_document u runes ws index avgLen n" dm]
      rank_document_ok [OF ws(1) entries ws(2) [symmetric], of u avgLen n] unfolding ids by blast
  let ?result = "map (the \<circ> get) new" and ?k = "nat (min (int (length new)) maxLen)"
  let ?best = "srt (by_score rank) ?result"
  let ?top = "srt (by_url rank) (take ?k ?best)"
  have ne: "?result \<noteq> []" using f(3) some(1) by auto
  have search: "Search u runes srt (Some (ws, index)) (Some avgLen) (Some n) get maxLen = Some (Inr (Some (?top, map (\<lambda>d. the (rank (DocId d))) ?top)))"
    using ws(2) f(1) r(1) ne some(2) by (simp add: Search_def sort_slice.length_srt [OF slice] Let_def)
  have ident: "map DocId ?result = new" using f(5) by (simp add: map_idI)
  have perm: "mset ?best = mset ?result" by (rule sort_slice.perm [OF slice])
  have "distinct (map DocId ?best)" using perm ident f(2) by (metis mset_map mset_eq_imp_distinct_iff)
  moreover have top_set: "set ?top = set (take ?k ?best)" by (rule sort_slice.set_srt [OF slice])
  moreover have "mset (map DocId ?top) = mset (map DocId (take ?k ?best))" by (simp add: sort_slice.perm [OF slice])
  ultimately have dist: "distinct (map DocId ?top)" by (metis distinct_take mset_eq_imp_distinct_iff take_map)
  have card: "card (result_ids index) = length new" using f(2,3) distinct_card by metis
  have len: "length ?top = min (card (result_ids index)) (nat maxLen)"
    using some(2) by (auto simp: sort_slice.length_srt [OF slice] card min_def)
  have best_set: "set ?best = set ?result" by (rule sort_slice.set_srt [OF slice])
  then have members: "\<forall>d \<in> set ?top. d \<in> set ?result" using top_set by (metis in_set_takeD)
  then have found: "\<forall>d \<in> set ?top. DocId d \<in> result_ids index \<and> get (DocId d) = Some d" using f(3,5) docs by fastforce
  have "score_before (the (rank (DocId d))) (the (rank ident))" if d: "d \<in> set ?top" and i: "ident \<in> result_ids index - DocId ` set ?top" for d ident
  proof -
    let ?d = "the (get ident)"
    have id: "DocId ?d = ident" using f(3,5) i by auto
    have "?d \<notin> set (take ?k ?best)"
    proof
      assume "?d \<in> set (take ?k ?best)"
      then have "DocId ?d \<in> DocId ` set ?top" using top_set by blast
      then show False using i unfolding id by simp
    qed
    moreover have "?d \<in> set ?best" using i f(3) best_set by (auto simp: image_iff)
    ultimately have "?d \<in> set (drop ?k ?best)" by (metis UnE append_take_drop_id set_append)
    then have "\<not> by_score rank ?d d" using sort_slice.prefix_best [OF slice by_score_order] d top_set by blast
    then show ?thesis unfolding not_by_score id .
  qed
  moreover have "sorted_wrt (\<lambda>d e. url_before (the (rank (DocId d))) (the (rank (DocId e)))) ?top"
    using sort_slice.sorted_srt [OF slice by_url_order] by (simp add: sorted_by_def not_by_url)
  moreover have "\<forall>ident \<in> result_ids index. rank_document u runes ws index avgLen n ident (the (get ident)) = Some (Inr (the (rank ident)))"
    using r(2) f(4) by simp
  ultimately show ?thesis using search dist len found by blast
qed

section \<open>Properties\<close>

text \<open>
  C8: \<open>Search\<close> returns, for a query whose words have entries in the index, the best \<open>maxLen\<close> documents (all, if
  there are fewer), each once and with its record: no document left out is better by BM25, then TF-IDF, then
  term proximity, and those returned are ordered by the query words found in their URL.
\<close>

theorem Search_ranks:
  assumes srt: "sort_law srt" and ws: "\<forall>w \<in> set ws. runes w \<noteq> []" "length index = length ws"
    and entries: "\<forall>ix \<in> set index. \<forall>(ident, item) \<in> set ix. entry_ok item"
    and docs: "\<forall>ident \<in> result_ids index. \<exists>d. get ident = Some d \<and> DocId d = ident"
    and some: "result_ids index \<noteq> {}" "0 \<le> maxLen"
  shows "\<exists>top rank. Search u runes srt (Some (ws, index)) (Some avgLen) (Some n) get maxLen =
      Some (Inr (Some (top, map (\<lambda>d. the (rank (DocId d))) top))) \<and>
    (\<forall>ident \<in> result_ids index. rank_document u runes ws index avgLen n ident (the (get ident)) = Some (Inr (the (rank ident)))) \<and>
    distinct (map DocId top) \<and> length top = min (card (result_ids index)) (nat maxLen) \<and>
    (\<forall>d \<in> set top. DocId d \<in> result_ids index \<and> get (DocId d) = Some d) \<and>
    sorted_wrt (\<lambda>d e. url_before (the (rank (DocId d))) (the (rank (DocId e)))) top \<and>
    (\<forall>d \<in> set top. \<forall>ident \<in> result_ids index - DocId ` set top. score_before (the (rank (DocId d))) (the (rank ident)))"
  by (rule Search_ranked [OF assms])

definition demo_found :: "bytes \<Rightarrow> Document option" where
  "demo_found ident = Some \<lparr>DocId = ident, DocURL = ''http://go'', TokenCount = 4\<rparr>"

theorem Search_ranks_witness:
  "\<exists>top rs. Search ascii (map of_char) stable_sort (Some ([''go''], [[([1], \<lparr>Count = 1, Positions = [\<lparr>I = 0, Type = 0\<rparr>]\<rparr>)]])) (Some 4) (Some 2) demo_found 5 =
     Some (Inr (Some (top, rs))) \<and> map DocId top = [[1]]"
proof -
  let ?index = "[[([1 :: byte], \<lparr>Count = 1, Positions = [\<lparr>I = 0, Type = 0\<rparr>]\<rparr>)]]"
  have ids: "result_ids ?index = {[1]}" by (simp add: result_ids_def)
  have "\<forall>w \<in> set [''go'']. map of_char w \<noteq> ([] :: nat list)" "length ?index = length [''go'']"
    "\<forall>ix \<in> set ?index. \<forall>(ident, item) \<in> set ix. entry_ok item"
    "\<forall>ident \<in> result_ids ?index. \<exists>d. demo_found ident = Some d \<and> DocId d = ident" "result_ids ?index \<noteq> {}" "0 \<le> (5 :: int)"
    by (simp_all add: ids entry_ok_def demo_found_def)
  from Search_ranks [OF stable_sort_law this, of ascii 4 2] obtain top rank where
    top: "Search ascii (map of_char) stable_sort (Some ([''go''], ?index)) (Some 4) (Some 2) demo_found 5 =
      Some (Inr (Some (top, map (\<lambda>d. the (rank (DocId d))) top)))" "length top = 1" "\<forall>d \<in> set top. DocId d \<in> {[1]}"
    unfolding ids by auto
  then show ?thesis by (cases top) auto
qed

text \<open>
  With a positive inverse document frequency, a document of at least average length scores a positive
  BM25, but one of at most half the average length in which the word is at most every eighth token scores a
  negative one: it is ranked behind documents without any score for the word.
\<close>

theorem bm25_sign:
  assumes "0 < idf" "0 < tf" "0 < avgLen" "0 < n"
  shows "(avgLen \<le> n \<longrightarrow> 0 < calcBM25 idf avgLen tf n) \<and> (2 * n \<le> avgLen \<and> 8 * tf \<le> 1 \<longrightarrow> calcBM25 idf avgLen tf n < 0)"
proof -
  let ?den = "tf + 12 / 10 * (1 - 75 / 100 + 75 / 100 * (ln (n / avgLen) + 1 / 100))"
  have num: "0 < idf * (tf * (12 / 10 + 1))" using assms by simp
  have score: "calcBM25 idf avgLen tf n = idf * (tf * (12 / 10 + 1)) / ?den" by (simp add: calcBM25_def Let_def)
  have "0 < ?den" if "avgLen \<le> n"
  proof -
    have "0 \<le> ln (n / avgLen)" using that assms by simp
    then have "0 \<le> 12 / 10 * (1 - 75 / 100 + 75 / 100 * (ln (n / avgLen) + 1 / 100))" by simp
    then show ?thesis using assms(2) by linarith
  qed
  moreover have "?den < 0" if "2 * n \<le> avgLen" "8 * tf \<le> 1"
  proof -
    have "n / avgLen \<le> 1 / 2" using that(1) assms(3) by (simp add: field_simps)
    moreover have "ln (n / avgLen) \<le> n / avgLen - 1" using assms by (intro ln_le_minus_one) simp
    ultimately have "ln (n / avgLen) \<le> - 1 / 2" by linarith
    then show ?thesis using that(2) by (simp add: algebra_simps)
  qed
  ultimately show ?thesis unfolding score using num divide_pos_pos divide_pos_neg by blast
qed

theorem bm25_sign_witness: "0 < calcBM25 1 100 (1 / 10) 100 \<and> calcBM25 1 100 (1 / 10) 20 < 0"
  using bm25_sign [of 1 "1 / 10" 100 100] bm25_sign [of 1 "1 / 10" 100 20] by simp

end
