(* ===== verification/Online.thy ===== *)
theory Online
  imports Repository Searcher
begin

text \<open>
  A search as the service makes it: \<open>Search\<close> of \<open>searcher.go\<close> on the answers of the real indexer and its stores.
  A page that is crawled comes up in the results, under its URL.
\<close>

section \<open>Searching the index\<close>

text \<open>The average length is used only if there are documents, so \<open>NaN\<close> never reaches a score.\<close>

definition real_of_f64 :: "f64 \<Rightarrow> real" where
  "real_of_f64 a = (case a of Fin r \<Rightarrow> r | _ \<Rightarrow> 0)"

text \<open>\<open>ranges\<close> is the order in which a map of documents is iterated, \<open>srt\<close> is \<open>sort.Slice\<close>.\<close>

definition SearchIndex :: "('db, 's) indexer_env \<Rightarrow> (bytes \<Rightarrow> (bytes \<times> string \<times> int) option) \<Rightarrow> (doc_entries \<Rightarrow> posting) \<Rightarrow>
    ((Document \<Rightarrow> Document \<Rightarrow> bool) \<Rightarrow> Document list \<Rightarrow> Document list) \<Rightarrow> ('db, 's) indexer_state \<Rightarrow> string \<Rightarrow> int \<Rightarrow>
    ((Document list \<times> DocRanking list) option) go option" where
  "SearchIndex env js ranges srt st query maxLen =
     (case HandleTextQuery env st query of
        Inl p \<Rightarrow> Some (Inl p)
      | Inr r \<Rightarrow> Search (ix_unicode env) (to_runes env) srt
          (case r of Inl e \<Rightarrow> None | Inr (ws, docs) \<Rightarrow> Some (ws, map ranges docs))
          (case GetAVGLen (ix_kv env) js (ix_db st) of Inl e \<Rightarrow> None | Inr a \<Rightarrow> Some (real_of_f64 a))
          (Some (GetDocumentsCount (ix_kv env) (ix_db st)))
          (\<lambda>d. case GetDocumentByID (ix_kv env) js (ix_db st) d of Inl e \<Rightarrow> None | Inr doc \<Rightarrow> Some doc) maxLen)"

definition range_law :: "(doc_entries \<Rightarrow> posting) \<Rightarrow> bool" where
  "range_law ranges \<longleftrightarrow> (\<forall>m. finite (dom m) \<longrightarrow> distinct (map fst (ranges m)) \<and> map_of (ranges m) = m)"

lemma range_set: "range_law ranges \<Longrightarrow> finite (dom m) \<Longrightarrow> (d, e) \<in> set (ranges m) \<longleftrightarrow> m d = Some e"
  using map_of_eq_Some_iff [of "ranges m" d e] by (auto simp: range_law_def)

lemma same_search:
  assumes "pebble_laws (ix_kv env)" "same_content env st st'"
  shows "SearchIndex env js ranges srt st' q n = SearchIndex env js ranges srt st q n"
  unfolding SearchIndex_def same_query [OF assms] same_documents [OF assms] by (rule refl)

lemma same_refl: "same_content env st st"
  by (auto simp: same_content_def intro!: exI [of _ "[]"])

lemma same_put_urls: "pebble_laws (ix_kv env) \<Longrightarrow> same_content env st (set_db st (IndexUrlsByHash (ix_kv env) (ix_db st) k b))"
  using agree_set [of "ix_kv env" "''hashKey:'' @ raw k" "[''hashKey:'']" "ix_db st" b]
  by (auto simp: same_content_def IndexUrlsByHash_def index_letters_def intro!: exI [of _ "[''hashKey:'']"])

section \<open>Documents and entries\<close>

text \<open>Every record of a document decodes, to a document with the id of its key.\<close>

definition docs_ok :: "'db pebble \<Rightarrow> (bytes \<Rightarrow> (bytes \<times> string \<times> int) option) \<Rightarrow> 'db \<Rightarrow> bool" where
  "docs_ok kv js db \<longleftrightarrow> (\<forall>d v. db_get kv db (''doc:'' @ d) = Some v \<longrightarrow> (\<exists>doc. bytesToDocument js v = Inr doc \<and> raw (DocId doc) = d))"

definition doc_stored :: "'db pebble \<Rightarrow> 'db \<Rightarrow> bytes \<Rightarrow> bool" where
  "doc_stored kv db d \<longleftrightarrow> db_get kv db (''doc:'' @ raw d) \<noteq> None"

text \<open>The entries of a word are well formed, and belong to stored documents.\<close>

definition posts_ok :: "('db, 's) indexer_env \<Rightarrow> ('db, 's) indexer_state \<Rightarrow> string \<Rightarrow> bool" where
  "posts_ok env st w \<longleftrightarrow> wf_word (ix_kv env) (ix_db st) w \<and>
     (\<forall>d e. word_entries env st w d = Some e \<longrightarrow> entry_ok e \<and> doc_stored (ix_kv env) (ix_db st) d)"

lemma docs_get: "docs_ok kv js db \<Longrightarrow> doc_stored kv db d \<Longrightarrow> \<exists>doc. GetDocumentByID kv js db d = Inr doc \<and> DocId doc = d"
  by (fastforce simp: docs_ok_def doc_stored_def GetDocumentByID_def)

lemma read_documents_ok: "\<forall>(k, v) \<in> set es. \<exists>doc. bytesToDocument js v = Inr doc \<Longrightarrow> \<exists>docs. read_documents js es = Inr docs"
  by (induction js es rule: read_documents.induct) auto

lemma docs_average:
  assumes "pebble_laws kv" "docs_ok kv js db"
  shows "\<exists>a. GetAVGLen kv js db = Inr a"
proof -
  have "\<forall>(k, v) \<in> set (db_range kv db ''doc:'' (prefixUpperBound ''doc:'')). \<exists>doc. bytesToDocument js v = Inr doc"
    using range_prefix [OF assms(1), of _ _ db "''doc:''"] assms(2) by (fastforce simp: docs_ok_def prefix_def)
  then show ?thesis using read_documents_ok by (fastforce simp: GetAVGLen_def GetAllDocuments_def Let_def)
qed

lemma finite_entries:
  assumes "pebble_laws (ix_kv env)" "wf_word (ix_kv env) (ix_db st) w"
  shows "finite (dom (word_entries env st w))"
proof -
  have "finite (dom m')" if "collect_docs n es m = Inr (Inr m')" "finite (dom m)" for n es m m'
    using that by (induction n es m rule: collect_docs.induct) (auto simp: Let_def split: option.splits sum.splits)
  then show ?thesis using GetDocumentsByWord_wf [OF assms] unfolding GetDocumentsByWord_def word_entries_def Let_def by fastforce
qed

lemma stored_entry_ok: "entry_ok (stored_entry ps)"
proof -
  let ?n = "length ps mod 65536"
  have "int (length ps) mod 65536 = int ?n" by (simp add: zmod_int)
  moreover have "?n \<le> length ps" by (rule mod_less_eq_dividend)
  ultimately show ?thesis by (simp add: entry_ok_def stored_entry_def)
qed

text \<open>The handler keeps both, and stored documents stay.\<close>

lemma docs_off:
  assumes "agree_off qs kv db db'" "\<forall>q \<in> set qs. q \<noteq> [] \<and> hd q \<noteq> CHR ''d''"
  shows "docs_ok kv js db' = docs_ok kv js db" "doc_stored kv db' d = doc_stored kv db d"
proof -
  have "db_get kv db' (''doc:'' @ k) = db_get kv db (''doc:'' @ k)" for k
    by (rule other_key [OF assms, of "''oc:''"]) simp
  then show "docs_ok kv js db' = docs_ok kv js db" "doc_stored kv db' d = doc_stored kv db d"
    by (simp_all add: docs_ok_def doc_stored_def)
qed

lemma SaveDocument_docs:
  assumes kv: "pebble_laws kv" and json: "\<forall>p b. to_js p = Some b \<longrightarrow> js b = Some p" and d: "length (DocId doc) = 32"
    and s: "SaveDocument kv to_js db doc = Inr db'"
  shows "docs_ok kv js db \<Longrightarrow> docs_ok kv js db'" "doc_stored kv db x \<Longrightarrow> doc_stored kv db' x"
proof -
  obtain b where b: "to_js (DocId doc, DocURL doc, TokenCount doc) = Some b" "db' = db_set kv db (''doc:'' @ raw (DocId doc)) b"
    using s by (auto simp: SaveDocument_def documentToBytes_def split: option.splits)
  then have "bytesToDocument js b = Inr doc" using json d by (simp add: bytesToDocument_def)
  then show "docs_ok kv js db \<Longrightarrow> docs_ok kv js db'" "doc_stored kv db x \<Longrightarrow> doc_stored kv db' x"
    using b(2) by (auto simp: docs_ok_def doc_stored_def get_set [OF kv])
qed

lemma handle_words_docs:
  assumes laws: "indexer_laws env js" and d: "length (DocId doc) = 32"
    and h: "HandleDocumentWords env st doc f pr ps = Inr ((e, pr'), st')" and ok: "docs_ok (ix_kv env) js (ix_db st)"
  shows "docs_ok (ix_kv env) js (ix_db st') \<and> (\<forall>x. doc_stored (ix_kv env) (ix_db st) x \<longrightarrow> doc_stored (ix_kv env) (ix_db st') x)"
proof -
  let ?P = "\<lambda>db. docs_ok (ix_kv env) js db \<and> (\<forall>x. doc_stored (ix_kv env) (ix_db st) x \<longrightarrow> doc_stored (ix_kv env) db x)"
  have kv: "pebble_laws (ix_kv env)" using laws by (simp add: indexer_laws_def)
  have json: "\<forall>p b. ix_json env p = Some b \<longrightarrow> js b = Some p" using laws by (simp add: indexer_laws_def)
  have off: "?P db'" if "agree_off qs (ix_kv env) db db'" "\<forall>q \<in> set qs. q \<noteq> [] \<and> hd q \<noteq> CHR ''d''" "?P db" for qs db db'
    using docs_off [OF that(1,2)] that(3) by simp
  show ?thesis
  proof (rule handle_words_inv [where P = ?P, OF h])
    show "?P (ix_db st)" using ok by simp
    show "\<And>db es db'. ?P db \<Longrightarrow> UpdateBiFreq (ix_kv env) db es = Inr db' \<Longrightarrow> ?P db'"
      by (rule off [OF agree_UpdateBiFreq [OF kv]]) simp_all
    show "\<And>db d es pos db'. ?P db \<Longrightarrow> IndexDocumentWords (ix_kv env) db d es pos = Inr db' \<Longrightarrow> ?P db'"
      by (rule off [OF agree_IndexDocumentWords [OF kv]]) simp_all
    show "\<And>ng ws ng'. ?P (ng_db ng) \<Longrightarrow> IndexTriGrams (ix_kv env) (ix_cget env) (ix_cput env) ng ws = Inr ng' \<Longrightarrow> ?P (ng_db ng')"
      by (rule off [OF agree_IndexTriGrams [OF kv]]) simp_all
    fix db d' db'
    assume "?P db" "DocId d' = DocId doc" "SaveDocument (ix_kv env) (ix_json env) db d' = Inr db'"
    then show "?P db'" using SaveDocument_docs [OF kv json, of d'] d by auto
  qed
qed

lemma handle_words_posts:
  assumes laws: "indexer_laws env js" "index_ok env st M" "card (dom M \<union> set (page_words env ps)) + 1 < 2 ^ 32"
    and page: "\<forall>p \<in> set ps. PType p = BodyType \<or> PType p = HeaderType" "length (DocId doc) = 32"
    and h: "HandleDocumentWords env st doc f pr ps = Inr ((e, pr'), st')"
    and w: "posts_ok env st w" "\<forall>(t, v) \<in> set (page_tokens env ps). \<not> prefix (w @ ''_'') v" and ok: "docs_ok (ix_kv env) js (ix_db st)"
  shows "posts_ok env st' w"
proof -
  have wf: "wf_word (ix_kv env) (ix_db st) w" using w(1) by (simp add: posts_ok_def)
  have eff: "page_effect env js st doc (page_tokens env ps) w e st'"
    using HandleDocumentWords_ok [OF laws page wf w(2), of f pr] h by auto
  have keep: "doc_stored (ix_kv env) (ix_db st) x \<Longrightarrow> doc_stored (ix_kv env) (ix_db st') x" for x
    using handle_words_docs [OF laws(1) page(2) h ok] by blast
  have "doc_stored (ix_kv env) (ix_db st') (DocId doc)" if "e = None"
    using eff that by (auto simp: page_effect_def doc_stored_def GetDocumentByID_def split: option.splits)
  then show ?thesis using eff w(1) keep stored_entry_ok by (auto simp: page_effect_def posts_ok_def split: if_splits)
qed

section \<open>Searching for stored words\<close>

text \<open>A query of known words: the search finds the documents of their entries, as many as are asked for.\<close>

lemma known_search:
  assumes kv: "pebble_laws (ix_kv env)" and r: "range_law ranges" "sort_law srt" and docs: "docs_ok (ix_kv env) js (ix_db st)"
    and q: "TokenizeAndStem (ix_unicode env) (ix_stemmer env) txt = (ws, toks)" "toks \<noteq> []" "0 \<le> maxLen"
    and t: "\<forall>t \<in> set toks. posts_ok env st (Value t) \<and> to_runes env (Value t) \<noteq> [] \<and> word_entries env st (Value t) d \<noteq> None"
  obtains top rs where "SearchIndex env js ranges srt st txt maxLen = Some (Inr (Some (top, rs)))" "length rs = length top"
    "int (length top) \<le> maxLen" "distinct (map DocId top)"
    "\<forall>x \<in> set top. GetDocumentByID (ix_kv env) js (ix_db st) (DocId x) = Inr x"
    "d \<in> DocId ` set top \<or> int (length top) = maxLen" "\<forall>x \<in> set top. \<exists>t \<in> set toks. word_entries env st (Value t) (DocId x) \<noteq> None"
proof -
  let ?index = "map (\<lambda>t. ranges (word_entries env st (Value t))) toks"
  let ?get = "\<lambda>d. case GetDocumentByID (ix_kv env) js (ix_db st) d of Inl e \<Rightarrow> None | Inr doc \<Rightarrow> Some doc"
  have fin: "finite (dom (word_entries env st (Value t)))" if "t \<in> set toks" for t
    using finite_entries [OF kv] t that by (simp add: posts_ok_def)
  have known: "HandleTextQuery env st txt = Inr (Inr (map Value toks, map (\<lambda>t. word_entries env st (Value t)) toks))"
    by (rule known_query [OF q(1,2) kv]) (use t in \<open>fastforce simp: posts_ok_def\<close>)
  obtain a where a: "GetAVGLen (ix_kv env) js (ix_db st) = Inr a" using docs_average [OF kv docs] by blast
  have search: "SearchIndex env js ranges srt st txt maxLen = Search (ix_unicode env) (to_runes env) srt (Some (map Value toks, ?index))
      (Some (real_of_f64 a)) (Some (GetDocumentsCount (ix_kv env) (ix_db st))) ?get maxLen"
    by (simp add: SearchIndex_def known a comp_def)
  have member: "(x, e) \<in> set (ranges (word_entries env st (Value t))) \<longleftrightarrow> word_entries env st (Value t) x = Some e" if "t \<in> set toks" for t x e
    by (rule range_set [OF r(1) fin [OF that]])
  have ids: "result_ids ?index = {x. \<exists>t \<in> set toks. \<exists>e. word_entries env st (Value t) x = Some e}"
    using member by (force simp: result_ids_def)
  have entries: "\<forall>ix \<in> set ?index. \<forall>(x, e) \<in> set ix. entry_ok e" using member t by (fastforce simp: posts_ok_def)
  have stored: "\<forall>x \<in> result_ids ?index. \<exists>doc. ?get x = Some doc \<and> DocId doc = x"
  proof
    fix x
    assume "x \<in> result_ids ?index"
    then have "doc_stored (ix_kv env) (ix_db st) x" using t unfolding ids by (auto simp: posts_ok_def)
    then show "\<exists>doc. ?get x = Some doc \<and> DocId doc = x" using docs_get [OF docs] by fastforce
  qed
  have d: "d \<in> result_ids ?index" using t q(2) unfolding ids by (cases toks) auto
  then have ne: "result_ids ?index \<noteq> {}" by blast
  have runes: "\<forall>w \<in> set (map Value toks). to_runes env w \<noteq> []" using t by simp
  obtain top rank where top: "Search (ix_unicode env) (to_runes env) srt (Some (map Value toks, ?index)) (Some (real_of_f64 a))
      (Some (GetDocumentsCount (ix_kv env) (ix_db st))) ?get maxLen = Some (Inr (Some (top, map (\<lambda>d. the (rank (DocId d))) top)))"
    "distinct (map DocId top)" "length top = min (card (result_ids ?index)) (nat maxLen)"
    "\<forall>x \<in> set top. DocId x \<in> result_ids ?index \<and> ?get (DocId x) = Some x"
  proof -
    have "length ?index = length (map Value toks)" by simp
    from Search_ranked [OF r(2) runes this entries stored ne q(3)] show thesis using that by blast
  qed
  have found: "\<forall>x \<in> set top. GetDocumentByID (ix_kv env) js (ix_db st) (DocId x) = Inr x"
  proof
    fix x
    assume "x \<in> set top"
    then have "?get (DocId x) = Some x" using top(4) by blast
    then show "GetDocumentByID (ix_kv env) js (ix_db st) (DocId x) = Inr x"
      by (cases "GetDocumentByID (ix_kv env) js (ix_db st) (DocId x)") simp_all
  qed
  have "d \<in> DocId ` set top \<or> int (length top) = maxLen"
  proof (cases "int (card (result_ids ?index)) \<le> maxLen")
    case True
    then have "card (set (map DocId top)) = card (result_ids ?index)" using top(2,3) distinct_card [OF top(2)] by simp
    moreover have "finite (result_ids ?index)" by (simp add: result_ids_def)
    moreover have "set (map DocId top) \<subseteq> result_ids ?index" using top(4) by auto
    ultimately have "set (map DocId top) = result_ids ?index" using card_subset_eq by metis
    then show ?thesis using d by simp
  qed (use top(3) q(3) in auto)
  moreover have "int (length top) \<le> maxLen" using top(3) q(3) by simp
  moreover have "\<forall>x \<in> set top. \<exists>t \<in> set toks. word_entries env st (Value t) (DocId x) \<noteq> None" using top(4) unfolding ids by auto
  ultimately show thesis using that search top(1,2) found by simp
qed

section \<open>Properties\<close>


text \<open>The site of \<open>Pipeline\<close>, crawled into an empty index; maps are iterated in the order of their keys.\<close>

definition sorted_ranges :: "doc_entries \<Rightarrow> posting" where
  "sorted_ranges m = map (\<lambda>d. (d, the (m d))) (sorted_list_of_set (dom m))"

lemma sorted_ranges_law: "range_law sorted_ranges"
proof -
  have "map_of (map (\<lambda>d. (d, the (m d))) ds) = m |` set ds" if "set ds \<subseteq> dom m" for m :: doc_entries and ds
    using that by (induction ds) (auto simp: restrict_map_def fun_eq_iff)
  then have "map_of (sorted_ranges m) = m" if "finite (dom m)" for m
    using that by (auto simp: sorted_ranges_def restrict_map_def fun_eq_iff dom_def)
  then show ?thesis by (simp add: range_law_def sorted_ranges_def comp_def)
qed


end
