(* ===== verification/Feed.thy ===== *)
theory Feed
  imports Lifecycle
begin

text \<open>
  How links reach the pool (\<open>PrepareChan\<close>, the goroutine of the start URLs in \<open>Run\<close>, and \<open>dispatch\<close> of
  \<open>scraper.go\<close>): the service sends URLs to one channel, \<open>PrepareChan\<close> parses them into a second one, to which the
  start URLs are sent as well, and \<open>dispatch\<close> submits what it receives. The goroutines act in any order.
\<close>

section \<open>States and steps\<close>

datatype origin = FromClient | FromConfig

text \<open>
  \<open>fd_raw\<close> and \<open>fd_out\<close> are the contents of the channels, the oldest first; \<open>fd_held\<close> and \<open>fd_seed\<close> are the links
  that the two senders wait to send. \<open>fd_added\<close> has the URLs that the service sent and \<open>fd_submitted\<close> what
  \<open>dispatch\<close> submitted; the origin of a link is for the statements only.
\<close>

record feed =
  fd_raw :: "string list"
  fd_raw_closed :: bool
  fd_preparing :: bool
  fd_held :: "LinkToken list"
  fd_seeds :: "string list"
  fd_seed :: "LinkToken list"
  fd_out :: "(origin \<times> LinkToken) list"
  fd_dispatching :: bool
  fd_done :: bool
  fd_added :: "string list"
  fd_submitted :: "(origin \<times> LinkToken) list"

definition feed_start :: "string list \<Rightarrow> feed" where
  "feed_start uris = \<lparr>fd_raw = [], fd_raw_closed = False, fd_preparing = True, fd_held = [], fd_seeds = uris, fd_seed = [], fd_out = [],
     fd_dispatching = True, fd_done = False, fd_added = [], fd_submitted = []\<rparr>"

text \<open>\<open>rawCap\<close> and \<open>cap\<close> are the sizes of the channels. A closed channel without contents keeps the loop of \<open>PrepareChan\<close> turning.\<close>

inductive feed_step :: "url_lib \<Rightarrow> nat \<Rightarrow> nat \<Rightarrow> feed \<Rightarrow> feed \<Rightarrow> bool" for lib rawCap cap where
  client_adds: "\<not> fd_raw_closed s \<Longrightarrow> length (fd_raw s) < rawCap \<Longrightarrow>
    feed_step lib rawCap cap s (s\<lparr>fd_raw := fd_raw s @ [u], fd_added := fd_added s @ [u]\<rparr>)"
| raw_closes: "fd_done s \<Longrightarrow> feed_step lib rawCap cap s (s\<lparr>fd_raw_closed := True\<rparr>)"
| prep_reads: "fd_preparing s \<Longrightarrow> fd_held s = [] \<Longrightarrow> fd_raw s = u # us \<Longrightarrow>
    feed_step lib rawCap cap s (s\<lparr>fd_raw := us, fd_held := seed_links lib [u]\<rparr>)"
| prep_spins: "fd_preparing s \<Longrightarrow> fd_held s = [] \<Longrightarrow> fd_raw s = [] \<Longrightarrow> fd_raw_closed s \<Longrightarrow> feed_step lib rawCap cap s s"
| prep_sends: "fd_preparing s \<Longrightarrow> fd_held s = [l] \<Longrightarrow> length (fd_out s) < cap \<Longrightarrow>
    feed_step lib rawCap cap s (s\<lparr>fd_held := [], fd_out := fd_out s @ [(FromClient, l)]\<rparr>)"
| prep_returns: "fd_preparing s \<Longrightarrow> fd_held s = [] \<Longrightarrow> fd_done s \<Longrightarrow> feed_step lib rawCap cap s (s\<lparr>fd_preparing := False\<rparr>)"
| seed_parses: "fd_seed s = [] \<Longrightarrow> fd_seeds s = u # us \<Longrightarrow>
    feed_step lib rawCap cap s (s\<lparr>fd_seeds := us, fd_seed := seed_links lib [u]\<rparr>)"
| seed_sends: "fd_seed s = [l] \<Longrightarrow> length (fd_out s) < cap \<Longrightarrow>
    feed_step lib rawCap cap s (s\<lparr>fd_seed := [], fd_out := fd_out s @ [(FromConfig, l)]\<rparr>)"
| dispatch_submits: "fd_dispatching s \<Longrightarrow> fd_out s = x # xs \<Longrightarrow>
    feed_step lib rawCap cap s (s\<lparr>fd_out := xs, fd_submitted := fd_submitted s @ [x]\<rparr>)"
| dispatch_returns: "fd_dispatching s \<Longrightarrow> fd_done s \<Longrightarrow> feed_step lib rawCap cap s (s\<lparr>fd_dispatching := False\<rparr>)"
| canceled: "feed_step lib rawCap cap s (s\<lparr>fd_done := True\<rparr>)"

inductive_cases feed_stepE: "feed_step lib rawCap cap s s'"

inductive feed_reachable :: "url_lib \<Rightarrow> nat \<Rightarrow> nat \<Rightarrow> feed \<Rightarrow> feed \<Rightarrow> bool" for lib rawCap cap s0 where
  feed_init: "feed_reachable lib rawCap cap s0 s0"
| feed_next: "feed_reachable lib rawCap cap s0 s \<Longrightarrow> feed_step lib rawCap cap s s' \<Longrightarrow> feed_reachable lib rawCap cap s0 s'"

section \<open>Invariant\<close>

definition links_from :: "origin \<Rightarrow> (origin \<times> LinkToken) list \<Rightarrow> LinkToken list" where
  "links_from og xs = map snd (filter (\<lambda>x. fst x = og) xs)"

lemma links_from_simps [simp]: "links_from og [] = []" "links_from og (xs @ ys) = links_from og xs @ links_from og ys"
  "links_from og ((o', l) # xs) = (if o' = og then l # links_from og xs else links_from og xs)"
  by (auto simp: links_from_def)

lemma seed_links_Nil [simp]: "seed_links lib [] = []"
  by (simp add: seed_links_def)

lemma seed_links_Cons: "seed_links lib (u # us) = seed_links lib [u] @ seed_links lib us"
  by (simp add: seed_links_def)

lemma seed_links_append [simp]: "seed_links lib (us @ vs) = seed_links lib us @ seed_links lib vs"
  by (simp add: seed_links_def)

lemma seed_links_one: "seed_links lib [u] = [] \<or> (\<exists>l. seed_links lib [u] = [l])"
  by (simp add: seed_links_def split: option.split)

text \<open>Every link is in one place, and the places are passed in order.\<close>

definition feed_inv :: "url_lib \<Rightarrow> string list \<Rightarrow> feed \<Rightarrow> bool" where
  "feed_inv lib uris s \<longleftrightarrow>
     seed_links lib (fd_added s) = links_from FromClient (fd_submitted s) @ links_from FromClient (fd_out s) @ fd_held s @ seed_links lib (fd_raw s) \<and>
     seed_links lib uris = links_from FromConfig (fd_submitted s) @ links_from FromConfig (fd_out s) @ fd_seed s @ seed_links lib (fd_seeds s) \<and>
     length (fd_held s) \<le> 1 \<and> length (fd_seed s) \<le> 1 \<and>
     (fd_done s \<or> fd_preparing s \<and> fd_dispatching s)"

lemma feed_inv_step:
  assumes "feed_step lib rawCap cap s s'" "feed_inv lib uris s"
  shows "feed_inv lib uris s'"
  using assms
proof (cases rule: feed_step.cases)
  case (prep_reads u us)
  then show ?thesis using assms(2) seed_links_one [of lib u] seed_links_Cons [of lib u us] by (auto simp: feed_inv_def)
next
  case (seed_parses u us)
  then show ?thesis using assms(2) seed_links_one [of lib u] seed_links_Cons [of lib u us] by (auto simp: feed_inv_def)
next
  case (dispatch_submits x xs)
  then show ?thesis using assms(2) by (cases x) (auto simp: feed_inv_def)
qed (use assms(2) in \<open>auto simp: feed_inv_def\<close>)

lemma feed_inv_reachable: "feed_reachable lib rawCap cap (feed_start uris) s \<Longrightarrow> feed_inv lib uris s"
proof (induction rule: feed_reachable.induct)
  case feed_init
  show ?case by (simp add: feed_inv_def feed_start_def)
qed (rule feed_inv_step)

section \<open>Properties\<close>

text \<open>
  C15: The way of the links into the pool: whatever the order of the goroutines, the links that \<open>dispatch\<close> has
  submitted for the service are a first part of the URLs that the service has sent, those that parse, in the order of
  sending, and so are those of the start URLs; and as long as the crawl is not canceled, if none of the three
  goroutines can go on, every URL has been submitted.
\<close>

theorem feed_in_order:
  assumes "feed_reachable lib rawCap cap (feed_start uris) s" "0 < cap"
  shows "prefix (links_from FromClient (fd_submitted s)) (seed_links lib (fd_added s)) \<and>
    prefix (links_from FromConfig (fd_submitted s)) (seed_links lib uris) \<and>
    (\<not> fd_done s \<and> (\<forall>s'. feed_step lib rawCap cap s s' \<and> fd_added s' = fd_added s \<and> fd_done s' = fd_done s \<longrightarrow> s' = s) \<longrightarrow>
       links_from FromClient (fd_submitted s) = seed_links lib (fd_added s) \<and> links_from FromConfig (fd_submitted s) = seed_links lib uris)"
proof -
  have inv: "feed_inv lib uris s" by (rule feed_inv_reachable [OF assms(1)])
  have "fd_out s = [] \<and> fd_held s = [] \<and> fd_raw s = [] \<and> fd_seed s = [] \<and> fd_seeds s = []"
    if go: "\<not> fd_done s" and stuck: "\<forall>s'. feed_step lib rawCap cap s s' \<and> fd_added s' = fd_added s \<and> fd_done s' = fd_done s \<longrightarrow> s' = s"
  proof -
    have run: "fd_preparing s" "fd_dispatching s" "length (fd_held s) \<le> 1" "length (fd_seed s) \<le> 1" using inv go by (auto simp: feed_inv_def)
    have no: "s' = s" if "feed_step lib rawCap cap s s'" "fd_added s' = fd_added s" "fd_done s' = fd_done s" for s' using stuck that by blast
    have out: "fd_out s = []"
    proof (cases "fd_out s")
      case (Cons x xs)
      from no [OF dispatch_submits [OF run(2) Cons]] have "fd_out s = xs" by (cases s) simp
      then show ?thesis using Cons by simp
    qed
    have held: "fd_held s = []"
    proof (rule ccontr)
      assume "fd_held s \<noteq> []"
      then obtain l where l: "fd_held s = [l]" using run(3) by (cases "fd_held s") auto
      from no [OF prep_sends [OF run(1) l]] have "fd_held s = []" using out assms(2) by (cases s) simp
      then show False using l by simp
    qed
    have seed: "fd_seed s = []"
    proof (rule ccontr)
      assume "fd_seed s \<noteq> []"
      then obtain l where l: "fd_seed s = [l]" using run(4) by (cases "fd_seed s") auto
      from no [OF seed_sends [OF l]] have "fd_seed s = []" using out assms(2) by (cases s) simp
      then show False using l by simp
    qed
    have "fd_raw s = []"
    proof (cases "fd_raw s")
      case (Cons u us)
      from no [OF prep_reads [OF run(1) held Cons]] have "fd_raw s = us" by (cases s) simp
      then show ?thesis using Cons by simp
    qed
    moreover have "fd_seeds s = []"
    proof (cases "fd_seeds s")
      case (Cons u us)
      from no [OF seed_parses [OF seed Cons]] have "fd_seeds s = us" by (cases s) simp
      then show ?thesis using Cons by simp
    qed
    ultimately show ?thesis using out held seed by simp
  qed
  then show ?thesis using inv by (auto simp: feed_inv_def prefix_def)
qed

definition feed_lib :: url_lib where
  "feed_lib = demo_url_lib\<lparr>url_Parse := (\<lambda>u. Some (demo_url\<lparr>Hostname := u\<rparr>))\<rparr>"

definition feed_link :: "string \<Rightarrow> LinkToken" where
  "feed_link u = \<lparr>Link = demo_url\<lparr>Hostname := u\<rparr>, Priority = Fin 1, Depth = 0, SameDomain = False\<rparr>"

lemma feed_lib_links: "seed_links feed_lib us = map feed_link us"
  by (induction us) (simp_all add: seed_links_def feed_lib_def feed_link_def)

theorem feed_in_order_witness:
  "\<exists>s. feed_reachable feed_lib 1 1 (feed_start [''go.dev'']) s \<and> links_from FromClient (fd_submitted s) = [feed_link ''a.io''] \<and>
     prefix (links_from FromClient (fd_submitted s)) (seed_links feed_lib (fd_added s)) \<and> prefix (links_from FromConfig (fd_submitted s)) (seed_links feed_lib [''go.dev''])"
proof -
  let ?R = "feed_reachable feed_lib 1 1 (feed_start [''go.dev''])"
  let ?s0 = "feed_start [''go.dev'']" and ?l = "feed_link ''a.io''"
  let ?s1 = "?s0\<lparr>fd_raw := [''a.io''], fd_added := [''a.io'']\<rparr>"
  let ?s2 = "?s0\<lparr>fd_added := [''a.io''], fd_held := [?l]\<rparr>"
  let ?s3 = "?s0\<lparr>fd_added := [''a.io''], fd_out := [(FromClient, ?l)]\<rparr>"
  let ?s4 = "?s0\<lparr>fd_added := [''a.io''], fd_submitted := [(FromClient, ?l)]\<rparr>"
  have "?R ?s0" by (rule feed_init)
  then have "?R ?s1" by (rule feed_next) (use client_adds [of ?s0 1 feed_lib 1 "''a.io''"] in \<open>simp add: feed_start_def\<close>)
  then have "?R ?s2" by (rule feed_next) (use prep_reads [of ?s1 "''a.io''" "[]" feed_lib 1 1] in \<open>simp add: feed_start_def feed_lib_links\<close>)
  then have "?R ?s3" by (rule feed_next) (use prep_sends [of ?s2 ?l 1 feed_lib 1] in \<open>simp add: feed_start_def\<close>)
  then have s4: "?R ?s4" by (rule feed_next) (use dispatch_submits [of ?s3 "(FromClient, ?l)" "[]" feed_lib 1 1] in \<open>simp add: feed_start_def\<close>)
  from feed_in_order [OF this] show ?thesis by (intro exI [of _ ?s4] conjI) (use s4 in simp_all)
qed

text \<open>A sender that waits when \<open>dispatch\<close> has returned and the channel is full waits for ever, and its link is lost.\<close>

lemma feeder_stuck:
  assumes "feed_reachable lib rawCap cap s t" "fd_held s = [l]" "cap \<le> length (fd_out s)" "\<not> fd_dispatching s"
  shows "fd_held t = [l] \<and> fd_submitted t = fd_submitted s \<and> \<not> fd_dispatching t \<and> cap \<le> length (fd_out t)"
  using assms
proof (induction rule: feed_reachable.induct)
  case (feed_next t t')
  then have "fd_held t = [l] \<and> fd_submitted t = fd_submitted s \<and> \<not> fd_dispatching t \<and> cap \<le> length (fd_out t)" by blast
  with feed_next.hyps(2) show ?case by (cases rule: feed_step.cases) auto
qed simp

end
