(* ===== verification/Shutdown.thy ===== *)
theory Shutdown
  imports Prelude
begin

text \<open>
  The end of the program while the crawl runs: the context is done, and the goroutine of \<open>NewIndexRepository\<close>, the
  allocators (\<open>alloc\<close> of \<open>indexRepos.go\<close>) and the crawl steps inside \<open>IndexDocShingles\<close> and \<open>IndexTriGrams\<close> act
  on it in any order. A \<open>select\<close> may take any of its cases that is ready, and a send on a closed channel is
  ready and panics.
\<close>

section \<open>States and steps\<close>

datatype alloc_phase = AIdle | AServing | AStopped

text \<open>
  \<open>rr_active\<close> crawl steps are past the last look at the context, and \<open>rr_requests i\<close> of them wait for shard \<open>i\<close>;
  \<open>rr_alloc i\<close> is its allocator, whose channel is closed when it stops. A step that gives up because the context is
  done is one that ends. \<open>rr_closed\<close>: \<open>stop\<close> closed the channels of
  the writers of signatures. \<open>rr_saved\<close> is the counter on the disk.
\<close>

record repo_run =
  rr_done :: bool
  rr_active :: nat
  rr_requests :: "nat \<Rightarrow> nat"
  rr_alloc :: "nat \<Rightarrow> alloc_phase"
  rr_closed :: bool
  rr_counter :: nat
  rr_saved :: "nat option"
  rr_panic :: bool

definition repo_start :: "nat \<Rightarrow> repo_run" where
  "repo_start c = \<lparr>rr_done = False, rr_active = 0, rr_requests = (\<lambda>_. 0), rr_alloc = (\<lambda>_. AIdle), rr_closed = False,
     rr_counter = c, rr_saved = None, rr_panic = False\<rparr>"

inductive repo_step :: "repo_run \<Rightarrow> repo_run \<Rightarrow> bool" where
  interrupt: "\<not> rr_panic s \<Longrightarrow> \<not> rr_done s \<Longrightarrow> repo_step s (s\<lparr>rr_done := True\<rparr>)"
| page_begins: "\<not> rr_panic s \<Longrightarrow> \<not> rr_done s \<Longrightarrow> repo_step s (s\<lparr>rr_active := rr_active s + 1\<rparr>)"
| page_ends: "\<not> rr_panic s \<Longrightarrow> 0 < rr_active s \<Longrightarrow> repo_step s (s\<lparr>rr_active := rr_active s - 1\<rparr>)"
| sign_sent: "\<not> rr_panic s \<Longrightarrow> 0 < rr_active s \<Longrightarrow> \<not> rr_closed s \<Longrightarrow> repo_step s s"
| sign_panics: "\<not> rr_panic s \<Longrightarrow> 0 < rr_active s \<Longrightarrow> rr_closed s \<Longrightarrow> repo_step s (s\<lparr>rr_panic := True\<rparr>)"
| request: "\<not> rr_panic s \<Longrightarrow> 0 < rr_active s \<Longrightarrow> rr_alloc s i \<noteq> AStopped \<Longrightarrow>
    repo_step s (s\<lparr>rr_active := rr_active s - 1, rr_requests := (rr_requests s)(i := rr_requests s i + 1)\<rparr>)"
| request_panics: "\<not> rr_panic s \<Longrightarrow> 0 < rr_active s \<Longrightarrow> rr_alloc s i = AStopped \<Longrightarrow> repo_step s (s\<lparr>rr_panic := True\<rparr>)"
| serve: "\<not> rr_panic s \<Longrightarrow> rr_alloc s i = AIdle \<Longrightarrow> 0 < rr_requests s i \<Longrightarrow> \<not> rr_done s \<Longrightarrow>
    repo_step s (s\<lparr>rr_requests := (rr_requests s)(i := rr_requests s i - 1), rr_alloc := (rr_alloc s)(i := AServing)\<rparr>)"
| serve_stops: "\<not> rr_panic s \<Longrightarrow> rr_alloc s i = AIdle \<Longrightarrow> 0 < rr_requests s i \<Longrightarrow> rr_done s \<Longrightarrow>
    repo_step s (s\<lparr>rr_requests := (rr_requests s)(i := rr_requests s i - 1), rr_alloc := (rr_alloc s)(i := AStopped)\<rparr>)"
| known_word: "\<not> rr_panic s \<Longrightarrow> rr_alloc s i = AServing \<Longrightarrow>
    repo_step s (s\<lparr>rr_alloc := (rr_alloc s)(i := AIdle), rr_active := rr_active s + 1\<rparr>)"
| new_word: "\<not> rr_panic s \<Longrightarrow> rr_alloc s i = AServing \<Longrightarrow>
    repo_step s (s\<lparr>rr_alloc := (rr_alloc s)(i := AIdle), rr_active := rr_active s + 1, rr_counter := rr_counter s + 1\<rparr>)"
| writers_stop: "\<not> rr_panic s \<Longrightarrow> rr_done s \<Longrightarrow> \<not> rr_closed s \<Longrightarrow> repo_step s (s\<lparr>rr_closed := True\<rparr>)"
| counter_saved: "\<not> rr_panic s \<Longrightarrow> rr_closed s \<Longrightarrow> rr_saved s = None \<Longrightarrow> repo_step s (s\<lparr>rr_saved := Some (rr_counter s)\<rparr>)"

inductive_cases repo_stepE: "repo_step s s'"

inductive repo_reachable :: "repo_run \<Rightarrow> repo_run \<Rightarrow> bool" for s0 where
  reach_start: "repo_reachable s0 s0"
| reach_step: "repo_reachable s0 s \<Longrightarrow> repo_step s s' \<Longrightarrow> repo_reachable s0 s'"

section \<open>Invariants\<close>

text \<open>Everything that can go wrong needs the context to be done.\<close>

definition before_done :: "repo_run \<Rightarrow> bool" where
  "before_done s \<longleftrightarrow> (rr_done s \<or> \<not> rr_closed s \<and> (\<forall>i. rr_alloc s i \<noteq> AStopped) \<and> rr_saved s = None \<and> \<not> rr_panic s) \<and>
     (rr_closed s \<or> rr_saved s = None)"

lemma before_done_step: "repo_step s s' \<Longrightarrow> before_done s \<Longrightarrow> before_done s'"
  by (erule repo_stepE) (auto simp: before_done_def)

lemma before_done_reachable: "repo_reachable s0 s \<Longrightarrow> before_done s0 \<Longrightarrow> before_done s"
  by (induction rule: repo_reachable.induct) (auto intro: before_done_step)

lemma before_done_start: "before_done (repo_start c)"
  by (simp add: before_done_def repo_start_def)

text \<open>No crawl step is in progress.\<close>

definition quiet :: "repo_run \<Rightarrow> bool" where
  "quiet s \<longleftrightarrow> rr_active s = 0 \<and> (\<forall>i. rr_requests s i = 0 \<and> rr_alloc s i = AIdle)"

definition quiet_end :: "nat \<Rightarrow> repo_run \<Rightarrow> bool" where
  "quiet_end c s \<longleftrightarrow> quiet s \<and> rr_done s \<and> \<not> rr_panic s \<and> rr_counter s = c \<and> (rr_saved s = None \<or> rr_saved s = Some c)"

lemma quiet_end_step: "repo_step s s' \<Longrightarrow> quiet_end c s \<Longrightarrow> quiet_end c s'"
  by (erule repo_stepE) (auto simp: quiet_end_def quiet_def)

lemma quiet_end_reachable: "repo_reachable s0 s \<Longrightarrow> quiet_end c s0 \<Longrightarrow> quiet_end c s"
  by (induction rule: repo_reachable.induct) (auto intro: quiet_end_step)

section \<open>Properties\<close>


text \<open>Runs with one crawl step, on shard 0.\<close>

definition one_step_run :: "bool \<Rightarrow> nat \<Rightarrow> nat \<Rightarrow> alloc_phase \<Rightarrow> bool \<Rightarrow> nat \<Rightarrow> nat option \<Rightarrow> bool \<Rightarrow> repo_run" where
  "one_step_run d a r al cl c sv p = \<lparr>rr_done = d, rr_active = a, rr_requests = (\<lambda>_. 0)(0 := r), rr_alloc = (\<lambda>_. AIdle)(0 := al), rr_closed = cl,
     rr_counter = c, rr_saved = sv, rr_panic = p\<rparr>"

abbreviation "one_step_reachable d a r al cl c sv p \<equiv> repo_reachable (repo_start 0) (one_step_run d a r al cl c sv p)"

lemma one_step_start: "one_step_reachable False 0 0 AIdle False 0 None False"
  using reach_start [of "repo_start 0"] by (simp add: one_step_run_def repo_start_def fun_upd_idem)

lemma one_step:
  assumes "one_step_reachable d a r al cl c sv p" "repo_step (one_step_run d a r al cl c sv p) (one_step_run d' a' r' al' cl' c' sv' p')"
  shows "one_step_reachable d' a' r' al' cl' c' sv' p'"
  by (rule reach_step [OF assms])


text \<open>The program does not wait for the crawl: a signature that is sent late panics, and an id that is given out late is not in the saved counter.\<close>

lemma interrupt_panics: "\<exists>t. repo_reachable (repo_start 0) t \<and> rr_panic t"
proof -
  have "one_step_reachable False 1 0 AIdle False 0 None False"
    by (rule one_step [OF one_step_start]) (use page_begins [of "one_step_run False 0 0 AIdle False 0 None False"] in \<open>simp add: one_step_run_def\<close>)
  then have "one_step_reachable True 1 0 AIdle False 0 None False"
    by (rule one_step) (use interrupt [of "one_step_run False 1 0 AIdle False 0 None False"] in \<open>simp add: one_step_run_def\<close>)
  then have "one_step_reachable True 1 0 AIdle True 0 None False"
    by (rule one_step) (use writers_stop [of "one_step_run True 1 0 AIdle False 0 None False"] in \<open>simp add: one_step_run_def\<close>)
  then have "one_step_reachable True 1 0 AIdle True 0 None True"
    by (rule one_step) (use sign_panics [of "one_step_run True 1 0 AIdle True 0 None False"] in \<open>simp add: one_step_run_def\<close>)
  then show ?thesis by (force simp: one_step_run_def)
qed

lemma late_id_is_lost: "\<exists>t. repo_reachable (repo_start 0) t \<and> rr_saved t = Some 0 \<and> rr_counter t = 1"
proof -
  have "one_step_reachable False 1 0 AIdle False 0 None False"
    by (rule one_step [OF one_step_start]) (use page_begins [of "one_step_run False 0 0 AIdle False 0 None False"] in \<open>simp add: one_step_run_def\<close>)
  then have "one_step_reachable False 0 1 AIdle False 0 None False"
    by (rule one_step) (use request [of "one_step_run False 1 0 AIdle False 0 None False" 0] in \<open>simp add: one_step_run_def\<close>)
  then have "one_step_reachable False 0 0 AServing False 0 None False"
    by (rule one_step) (use serve [of "one_step_run False 0 1 AIdle False 0 None False" 0] in \<open>simp add: one_step_run_def\<close>)
  then have "one_step_reachable True 0 0 AServing False 0 None False"
    by (rule one_step) (use interrupt [of "one_step_run False 0 0 AServing False 0 None False"] in \<open>simp add: one_step_run_def\<close>)
  then have "one_step_reachable True 0 0 AServing True 0 None False"
    by (rule one_step) (use writers_stop [of "one_step_run True 0 0 AServing False 0 None False"] in \<open>simp add: one_step_run_def\<close>)
  then have "one_step_reachable True 0 0 AServing True 0 (Some 0) False"
    by (rule one_step) (use counter_saved [of "one_step_run True 0 0 AServing True 0 None False"] in \<open>simp add: one_step_run_def\<close>)
  then have "one_step_reachable True 1 0 AIdle True 1 (Some 0) False"
    by (rule one_step) (use new_word [of "one_step_run True 0 0 AServing True 0 (Some 0) False" 0] in \<open>simp add: one_step_run_def\<close>)
  then show ?thesis by (force simp: one_step_run_def)
qed

end
