(* ===== verification/Config.thy ===== *)
theory Config
  imports GoStrings
begin

text \<open>
  The configuration and its validator (\<open>configs/config.go\<close>, \<open>configs/validator.go\<close>). A struct is the list of
  its fields, with the \<open>validate\<close> tag of each as the source has it and its value by kind; the kinds are those that the structs of
  the program have.
\<close>

section \<open>The validator\<close>

text \<open>A slice is \<open>None\<close> if it is nil.\<close>

datatype field_value = IntV int | BoolV bool | StringV string | SliceV "string list option"

record struct_field =
  field_name :: string
  field_tag :: string
  field_value :: field_value

datatype valid_error =
    RequiredEmpty string
  | NotANumber string
  | LessThanMin string
  | GreaterThanMax string
  | LengthNotInRange string
  | InvalidLenTag string
  | UnknownTag string string

definition is_zero :: "field_value \<Rightarrow> bool" where
  "is_zero f = (case f of IntV n \<Rightarrow> n = 0 | BoolV b \<Rightarrow> \<not> b | StringV s \<Rightarrow> s = [] | SliceV xs \<Rightarrow> xs = None)"

text \<open>\<open>strconv.ParseInt(s, 10, 64)\<close>: \<open>None\<close> is a syntax or range error.\<close>

definition ParseInt :: "string \<Rightarrow> int option" where
  "ParseInt s =
     (let neg = (s \<noteq> [] \<and> hd s = CHR ''-''); ds = (if s \<noteq> [] \<and> hd s \<in> {CHR ''-'', CHR ''+''} then tl s else s);
          n = (if neg then - digits_value ds else digits_value ds) in
      if ds = [] \<or> \<not> list_all is_digit ds \<or> n < - (2 ^ 63) \<or> n \<ge> 2 ^ 63 then None else Some n)"

text \<open>\<open>strings.SplitN(tag, "=", 2)\<close>: the part after the first sign, if there is one.\<close>

fun cut_eq :: "string \<Rightarrow> string \<times> string option" where
  "cut_eq [] = ([], None)"
| "cut_eq (c # cs) = (if c = CHR ''='' then ([], Some cs) else map_prod (Cons c) id (cut_eq cs))"

text \<open>The cases of the switch; \<open>None\<close> is no error. \<open>entity[1]\<close> panics for a tag without a sign.\<close>

definition check_bound :: "string \<Rightarrow> field_value \<Rightarrow> (int \<Rightarrow> int \<Rightarrow> bool) \<Rightarrow> (string \<Rightarrow> valid_error) \<Rightarrow> string option \<Rightarrow> valid_error option go" where
  "check_bound name f bad err arg =
     (case f of
        IntV n \<Rightarrow>
          (case arg of
             None \<Rightarrow> Inl IndexOutOfRange
           | Some a \<Rightarrow> Inr (case ParseInt a of None \<Rightarrow> Some (NotANumber a) | Some border \<Rightarrow> if bad n border then Some (err name) else None))
      | _ \<Rightarrow> Inr None)"

definition field_len :: "field_value \<Rightarrow> int option" where
  "field_len f = (case f of
     StringV s \<Rightarrow> Some (int (length s)) | SliceV xs \<Rightarrow> Some (case xs of None \<Rightarrow> 0 | Some l \<Rightarrow> int (length l)) | _ \<Rightarrow> None)"

definition check_len :: "string \<Rightarrow> field_value \<Rightarrow> string option \<Rightarrow> valid_error option go" where
  "check_len name f arg =
     (case field_len f of
        None \<Rightarrow> Inr None
      | Some n \<Rightarrow>
          (case arg of
             None \<Rightarrow> Inl IndexOutOfRange
           | Some a \<Rightarrow>
               Inr (case str_split CHR '':'' a of
                 [lo, hi] \<Rightarrow>
                   (case ParseInt lo of
                      None \<Rightarrow> Some (NotANumber lo)
                    | Some mn \<Rightarrow>
                        (case ParseInt hi of
                           None \<Rightarrow> Some (NotANumber hi)
                         | Some mx \<Rightarrow> if n < mn \<or> n > mx then Some (LengthNotInRange name) else None))
               | _ \<Rightarrow> Some (InvalidLenTag name))))"

definition check_tag :: "struct_field \<Rightarrow> string \<Rightarrow> valid_error option go" where
  "check_tag fld tag =
     (let (key, arg) = cut_eq tag; name = field_name fld; f = field_value fld; low = to_lower key in
      if low = ''required'' then
        Inr (if (case f of BoolV _ \<Rightarrow> False | _ \<Rightarrow> is_zero f) then Some (RequiredEmpty name) else None)
      else if low = ''min'' then check_bound name f (\<lambda>n b. n < b) LessThanMin arg
      else if low = ''max'' then check_bound name f (\<lambda>n b. n > b) GreaterThanMax arg
      else if low = ''len'' then check_len name f arg
      else Inr (Some (UnknownTag key name)))"

fun check_tags :: "struct_field \<Rightarrow> string list \<Rightarrow> valid_error option go" where
  "check_tags fld [] = Inr None"
| "check_tags fld (tag # tags) =
     (case check_tag fld tag of
        Inl p \<Rightarrow> Inl p | Inr (Some e) \<Rightarrow> Inr (Some e) | Inr None \<Rightarrow> check_tags fld tags)"

fun Validate :: "struct_field list \<Rightarrow> valid_error option go" where
  "Validate [] = Inr None"
| "Validate (fld # flds) =
     (if field_tag fld = [] then Validate flds
      else case check_tags fld (str_split CHR '','' (field_tag fld)) of
        Inl p \<Rightarrow> Inl p | Inr (Some e) \<Rightarrow> Inr (Some e) | Inr None \<Rightarrow> Validate flds)"

section \<open>The structs\<close>

record ConfigData =
  BaseURLs :: "string list option"
  CachePath :: string
  FilterUrl :: string
  IndexPath :: string
  WorkersCount :: int
  MaxTypo :: int
  OnlySameDomain :: bool

definition config_fields :: "ConfigData \<Rightarrow> struct_field list" where
  "config_fields cfg =
     [\<lparr>field_name = ''BaseURLs'', field_tag = ''required,len=1:500'', field_value = SliceV (BaseURLs cfg)\<rparr>,
      \<lparr>field_name = ''CachePath'', field_tag = ''required'', field_value = StringV (CachePath cfg)\<rparr>,
      \<lparr>field_name = ''FilterUrl'', field_tag = ''required'', field_value = StringV (FilterUrl cfg)\<rparr>,
      \<lparr>field_name = ''IndexPath'', field_tag = ''required'', field_value = StringV (IndexPath cfg)\<rparr>,
      \<lparr>field_name = ''WorkersCount'', field_tag = ''min=50,max=2000'', field_value = IntV (WorkersCount cfg)\<rparr>,
      \<lparr>field_name = ''MaxTypo'', field_tag = ''min=1,max=4'', field_value = IntV (MaxTypo cfg)\<rparr>,
      \<lparr>field_name = ''OnlySameDomain'', field_tag = [], field_value = BoolV (OnlySameDomain cfg)\<rparr>]"

definition config_Validate :: "ConfigData \<Rightarrow> valid_error option go" where
  "config_Validate cfg = Validate (config_fields cfg)"

text \<open>The payload of \<open>PATCH /crawl/add\<close> (\<open>api.go\<close>).\<close>

definition payload_fields :: "string list option \<Rightarrow> struct_field list" where
  "payload_fields urls = [\<lparr>field_name = ''Urls'', field_tag = ''len=1:50'', field_value = SliceV urls\<rparr>]"

section \<open>Lemmas\<close>

text \<open>The tags of the structs, taken apart.\<close>

lemma tag_parts:
  "str_split CHR '','' ''required'' = [''required'']" "str_split CHR '','' ''required,len=1:500'' = [''required'', ''len=1:500'']"
  "str_split CHR '','' ''min=50,max=2000'' = [''min=50'', ''max=2000'']" "str_split CHR '','' ''min=1,max=4'' = [''min=1'', ''max=4'']"
  "str_split CHR '','' ''len=1:50'' = [''len=1:50'']"
  "str_split CHR '':'' ''1:500'' = [''1'', ''500'']" "str_split CHR '':'' ''1:50'' = [''1'', ''50'']"
  by code_simp+

lemma numbers:
  "ParseInt ''1'' = Some 1" "ParseInt ''4'' = Some 4" "ParseInt ''50'' = Some 50" "ParseInt ''500'' = Some 500" "ParseInt ''2000'' = Some 2000"
  by code_simp+

lemma required_tag: "check_tag fld ''required'' =
  Inr (if (case field_value fld of BoolV _ \<Rightarrow> False | _ \<Rightarrow> is_zero (field_value fld)) then Some (RequiredEmpty (field_name fld)) else None)"
proof -
  have "cut_eq ''required'' = (''required'', None)" "to_lower ''required'' = ''required''" by code_simp+
  then show ?thesis by (simp add: check_tag_def)
qed

lemma bound_tags:
  "check_tag fld (''min='' @ a) = check_bound (field_name fld) (field_value fld) (\<lambda>n b. n < b) LessThanMin (Some a)"
  "check_tag fld (''max='' @ a) = check_bound (field_name fld) (field_value fld) (\<lambda>n b. n > b) GreaterThanMax (Some a)"
  "check_tag fld (''len='' @ a) = check_len (field_name fld) (field_value fld) (Some a)"
proof -
  have "to_lower ''min'' = ''min''" "to_lower ''max'' = ''max''" "to_lower ''len'' = ''len''" by code_simp+
  then show "check_tag fld (''min='' @ a) = check_bound (field_name fld) (field_value fld) (\<lambda>n b. n < b) LessThanMin (Some a)"
    "check_tag fld (''max='' @ a) = check_bound (field_name fld) (field_value fld) (\<lambda>n b. n > b) GreaterThanMax (Some a)"
    "check_tag fld (''len='' @ a) = check_len (field_name fld) (field_value fld) (Some a)"
    by (simp_all add: check_tag_def)
qed

lemmas bound_tag = bound_tags [where a = "''1''", simplified] bound_tags [where a = "''4''", simplified] bound_tags [where a = "''50''", simplified]
  bound_tags [where a = "''2000''", simplified] bound_tags [where a = "''1:500''", simplified] bound_tags [where a = "''1:50''", simplified]

section \<open>Properties\<close>

text \<open>
  C30: The validator accepts a configuration exactly if it is in the documented ranges: one to five hundred seed URLs,
  the three paths not empty, 50 to 2000 workers, 1 to 4 typos. It returns for every configuration, and the first
  field that is out of its range is the one reported.
\<close>

theorem config_ranges:
  "config_Validate cfg = Inr
     (if BaseURLs cfg = None then Some (RequiredEmpty ''BaseURLs'')
      else if length (the (BaseURLs cfg)) \<notin> {1..500} then Some (LengthNotInRange ''BaseURLs'')
      else if CachePath cfg = [] then Some (RequiredEmpty ''CachePath'')
      else if FilterUrl cfg = [] then Some (RequiredEmpty ''FilterUrl'')
      else if IndexPath cfg = [] then Some (RequiredEmpty ''IndexPath'')
      else if WorkersCount cfg < 50 then Some (LessThanMin ''WorkersCount'')
      else if WorkersCount cfg > 2000 then Some (GreaterThanMax ''WorkersCount'')
      else if MaxTypo cfg < 1 then Some (LessThanMin ''MaxTypo'')
      else if MaxTypo cfg > 4 then Some (GreaterThanMax ''MaxTypo'')
      else None)"
  by (cases "BaseURLs cfg") (auto simp: config_Validate_def config_fields_def tag_parts required_tag bound_tag check_bound_def check_len_def field_len_def
    is_zero_def numbers not_le)

lemma payload_ranges:
  "Validate (payload_fields urls) = Inr (if length (case urls of None \<Rightarrow> [] | Some l \<Rightarrow> l) \<in> {1..50} then None else Some (LengthNotInRange ''Urls''))"
  by (cases urls) (auto simp: payload_fields_def tag_parts bound_tag check_len_def field_len_def numbers Suc_le_eq)

text \<open>The configuration of \<open>configs/default.json\<close>, as far as the validator looks at it: 28 URLs and 48 workers.\<close>

lemma default_config_rejected:
  assumes "BaseURLs cfg = Some urls" "length urls = 28" "CachePath cfg \<noteq> []" "FilterUrl cfg \<noteq> []" "IndexPath cfg \<noteq> []" "WorkersCount cfg = 48"
  shows "config_Validate cfg = Inr (Some (LessThanMin ''WorkersCount''))"
  using assms by (simp add: config_ranges)

text \<open>A tag without its number stops the program.\<close>

lemma bare_min_panics: "Validate [\<lparr>field_name = n, field_tag = ''min'', field_value = IntV k\<rparr>] = Inl IndexOutOfRange"
proof -
  have "str_split CHR '','' ''min'' = [''min'']" "cut_eq ''min'' = (''min'', None)" "to_lower ''min'' = ''min''" by code_simp+
  then show ?thesis by (simp add: check_tag_def check_bound_def)
qed

end
