(* ===== verification/Service.thy ===== *)
theory Service
  imports Config Model
begin

text \<open>
  The service around the crawler: \<open>Factory\<close> (\<open>internal/app/app.go\<close>) with its start, stop and add operations,
  and the HTTP handlers (\<open>internal/services/api/api.go\<close>). A context is the number of the crawl it was made for. Every
  handler first checks whether a crawl is running and then acts; the two parts are definitions of their own, since requests are served
  concurrently and nothing locks the factory. \<open>NewScraper\<close> is an answer, \<open>ok\<close>; the crawl itself is in the other theories.
\<close>

section \<open>The factory\<close>

datatype crawl_phase = Crawling | Finishing | Finished | NoScraper

record crawl =
  ctx_canceled :: bool
  phase :: crawl_phase

record Factory =
  crawls :: "crawl list"
  innerCtx :: "nat option"
  controller :: "nat option"
  scraper :: bool
  complCh :: "string list"
  complCap :: nat
  complClosed :: bool
  outer_done :: bool

text \<open>\<open>Init\<close>: \<open>make\<close> panics on a negative size. The index, the searcher and the goroutine that closes \<open>complCh\<close> are made here too.\<close>

definition Init :: "ConfigData \<Rightarrow> int \<Rightarrow> Factory go" where
  "Init cfg capacityMult =
     (if WorkersCount cfg * capacityMult < 0 then Inl (ExplicitPanic ''makechan: size out of range'')
      else Inr \<lparr>crawls = [], innerCtx = None, controller = None, scraper = False, complCh = [],
        complCap = nat (WorkersCount cfg * capacityMult), complClosed = False, outer_done = False\<rparr>)"

definition ctx_done :: "Factory \<Rightarrow> nat \<Rightarrow> bool" where
  "ctx_done f i \<longleftrightarrow> outer_done f \<or> ctx_canceled (crawls f ! i)"

definition isRunning :: "Factory \<Rightarrow> bool" where
  "isRunning f = (case innerCtx f of None \<Rightarrow> False | Some i \<Rightarrow> \<not> ctx_done f i)"

definition queueIsFull :: string where
  "queueIsFull = ''queue is full''"

definition isNotExist :: string where
  "isNotExist = ''scraper is not running''"

definition isExist :: string where
  "isExist = ''scraper is running''"

text \<open>\<open>StartCrawling\<close>: the result is the error, if any.\<close>

definition start_check :: "Factory \<Rightarrow> string option" where
  "start_check f = (if isRunning f then Some isExist else None)"

definition start_body :: "bool \<Rightarrow> Factory \<Rightarrow> string option \<times> Factory" where
  "start_body ok f =
     (let i = length (crawls f);
          f' = f\<lparr>crawls := crawls f @ [\<lparr>ctx_canceled = False, phase = (if ok then Crawling else NoScraper)\<rparr>],
            innerCtx := Some i, controller := Some i, scraper := ok\<rparr>
      in (if ok then None else Some ''no scraper'', f'))"

definition StartCrawling :: "bool \<Rightarrow> Factory \<Rightarrow> string option \<times> Factory" where
  "StartCrawling ok f = (case start_check f of Some e \<Rightarrow> (Some e, f) | None \<Rightarrow> start_body ok f)"

text \<open>
  \<open>AddUrlsToProcess\<close>: one round of the select; \<open>send\<close> says which of two ready cases is taken. A send on a closed channel is ready,
  and panics. Reading \<open>f.innerCtx.Done()\<close> of no context is a nil dereference.
\<close>

definition add_check :: "Factory \<Rightarrow> string option" where
  "add_check f = (if \<not> isRunning f then Some isNotExist else None)"

definition add_url :: "bool \<Rightarrow> Factory \<Rightarrow> string \<Rightarrow> (string option \<times> Factory) go" where
  "add_url send f url =
     (case innerCtx f of
        None \<Rightarrow> Inl NilDereference
      | Some i \<Rightarrow>
          if (complClosed f \<or> length (complCh f) < complCap f) \<and> (send \<or> \<not> ctx_done f i) then
            (if complClosed f then Inl SendOnClosedChannel else Inr (None, f\<lparr>complCh := complCh f @ [url]\<rparr>))
          else if ctx_done f i then Inr (Some ''context canceled'', f)
          else Inr (Some queueIsFull, f))"

fun add_urls :: "(nat \<Rightarrow> bool) \<Rightarrow> nat \<Rightarrow> Factory \<Rightarrow> string list \<Rightarrow> (string option \<times> Factory) go" where
  "add_urls send n f [] = Inr (None, f)"
| "add_urls send n f (url # urls) =
     (case add_url (send n) f url of
        Inl p \<Rightarrow> Inl p
      | Inr (Some e, f') \<Rightarrow> Inr (Some e, f')
      | Inr (None, f') \<Rightarrow> add_urls send (n + 1) f' urls)"

definition AddUrlsToProcess :: "(nat \<Rightarrow> bool) \<Rightarrow> Factory \<Rightarrow> string list \<Rightarrow> (string option \<times> Factory) go" where
  "AddUrlsToProcess send f urls = (case add_check f of Some e \<Rightarrow> Inr (Some e, f) | None \<Rightarrow> add_urls send 0 f urls)"

text \<open>\<open>StopCrawling\<close>: calling a controller that was never set is a nil dereference.\<close>

definition stop_check :: "Factory \<Rightarrow> string option" where
  "stop_check f = (if \<not> isRunning f then Some isNotExist else None)"

definition cancel_crawl :: "Factory \<Rightarrow> nat \<Rightarrow> Factory" where
  "cancel_crawl f i = f\<lparr>crawls := (crawls f)[i := (crawls f ! i)\<lparr>ctx_canceled := True\<rparr>]\<rparr>"

definition stop_body :: "Factory \<Rightarrow> (string option \<times> Factory) go" where
  "stop_body f =
     (case controller f of
        None \<Rightarrow> Inl NilDereference
      | Some i \<Rightarrow> Inr (None, (cancel_crawl f i)\<lparr>scraper := False, innerCtx := None\<rparr>))"

definition StopCrawling :: "Factory \<Rightarrow> (string option \<times> Factory) go" where
  "StopCrawling f = (case stop_check f of Some e \<Rightarrow> Inr (Some e, f) | None \<Rightarrow> stop_body f)"

section \<open>The HTTP handlers\<close>

text \<open>The handlers by what they are given: \<open>None\<close> for a body that is not JSON, a missing query or a missing cap.\<close>

definition start_handler :: "bool \<Rightarrow> Factory \<Rightarrow> int \<times> Factory" where
  "start_handler ok f = (let (err, f') = StartCrawling ok f in (if err = None then 201 else 400, f'))"

definition add_handler :: "(nat \<Rightarrow> bool) \<Rightarrow> Factory \<Rightarrow> string list option option \<Rightarrow> (int \<times> Factory) go" where
  "add_handler send f body =
     (case body of
        None \<Rightarrow> Inr (400, f)
      | Some urls \<Rightarrow>
          (case Validate (payload_fields urls) of
             Inl p \<Rightarrow> Inl p
           | Inr (Some e) \<Rightarrow> Inr (400, f)
           | Inr None \<Rightarrow>
               map_sum id (\<lambda>(err, f'). (if err = None then 202 else 417, f'))
                 (AddUrlsToProcess send f (case urls of None \<Rightarrow> [] | Some l \<Rightarrow> l))))"

definition stop_handler :: "Factory \<Rightarrow> (int \<times> Factory) go" where
  "stop_handler f = map_sum id (\<lambda>(err, f'). (if err = None then 200 else 409, f')) (StopCrawling f)"

text \<open>\<open>GET /search\<close>: the number of results that is asked for.\<close>

definition search_cap :: "string option \<Rightarrow> int" where
  "search_cap capParam = max (case capParam of None \<Rightarrow> 100 | Some s \<Rightarrow> (case ParseInt s of None \<Rightarrow> 100 | Some n \<Rightarrow> n)) 10"

definition search_handler :: "(string \<Rightarrow> int \<Rightarrow> 'a) \<Rightarrow> string option \<Rightarrow> string option \<Rightarrow> int \<times> 'a option" where
  "search_handler Search query capParam =
     (case query of None \<Rightarrow> (400, None) | Some q \<Rightarrow> (200, Some (Search q (search_cap capParam))))"

section \<open>The service as a whole\<close>

text \<open>
  Requests served one after the other, and what happens besides them: the outer context is canceled, \<open>complCh\<close> is closed, a
  crawl whose context is over goes on to its last saves and ends, and the goroutine of \<open>PrepareChan\<close> takes an URL.
\<close>

inductive service_step :: "Factory \<Rightarrow> Factory \<Rightarrow> bool" where
  request_start: "service_step f (snd (StartCrawling ok f))"
| request_add: "AddUrlsToProcess send f urls = Inr (r, f') \<Longrightarrow> service_step f f'"
| request_stop: "StopCrawling f = Inr (r, f') \<Longrightarrow> service_step f f'"
| outer_cancel: "service_step f (f\<lparr>outer_done := True\<rparr>)"
| close_compl: "outer_done f \<Longrightarrow> service_step f (f\<lparr>complClosed := True\<rparr>)"
| crawl_finishing: "i < length (crawls f) \<Longrightarrow> phase (crawls f ! i) = Crawling \<Longrightarrow> ctx_done f i \<Longrightarrow>
    service_step f (f\<lparr>crawls := (crawls f)[i := (crawls f ! i)\<lparr>phase := Finishing\<rparr>]\<rparr>)"
| crawl_finished: "i < length (crawls f) \<Longrightarrow> phase (crawls f ! i) = Finishing \<Longrightarrow>
    service_step f (f\<lparr>crawls := (crawls f)[i := (crawls f ! i)\<lparr>phase := Finished\<rparr>]\<rparr>)"
| take_url: "i < length (crawls f) \<Longrightarrow> phase (crawls f ! i) \<noteq> NoScraper \<Longrightarrow> complCh f = u # us \<Longrightarrow>
    service_step f (f\<lparr>complCh := us\<rparr>)"

inductive service_reachable :: "Factory \<Rightarrow> Factory \<Rightarrow> bool" for f0 where
  service_start: "service_reachable f0 f0"
| service_next: "service_reachable f0 f \<Longrightarrow> service_step f f' \<Longrightarrow> service_reachable f0 f'"

section \<open>Lemmas\<close>

text \<open>The contexts of the crawls before the last are canceled, and the last is the one the factory knows.\<close>

definition service_ok :: "Factory \<Rightarrow> bool" where
  "service_ok f \<longleftrightarrow>
     (\<forall>i < length (crawls f). ctx_canceled (crawls f ! i) \<or> outer_done f \<or> innerCtx f = Some i) \<and>
     (case innerCtx f of None \<Rightarrow> True | Some i \<Rightarrow> controller f = Some i) \<and>
     (case controller f of None \<Rightarrow> True | Some i \<Rightarrow> i < length (crawls f)) \<and>
     (complClosed f \<longrightarrow> outer_done f) \<and> length (complCh f) \<le> complCap f"

lemma service_ok_inner:
  assumes "service_ok f" "innerCtx f = Some i"
  shows "controller f = Some i" "i < length (crawls f)"
proof -
  show "controller f = Some i" using assms by (simp add: service_ok_def)
  then show "i < length (crawls f)" using assms(1) by (simp add: service_ok_def)
qed

lemma add_running:
  assumes "isRunning f" "\<not> complClosed f"
  shows "add_url send f url = Inr (if length (complCh f) < complCap f then (None, f\<lparr>complCh := complCh f @ [url]\<rparr>) else (Some queueIsFull, f))"
  using assms by (auto simp: add_url_def isRunning_def split: option.splits)

lemma running_upd [simp]: "isRunning (f\<lparr>complCh := us\<rparr>) = isRunning f"
  by (simp add: isRunning_def ctx_done_def split: option.split)

lemma add_urls_running:
  "isRunning f \<Longrightarrow> \<not> complClosed f \<Longrightarrow> length (complCh f) \<le> complCap f \<Longrightarrow>
   add_urls send n f urls = Inr (if length (complCh f) + length urls \<le> complCap f then None else Some queueIsFull,
     f\<lparr>complCh := complCh f @ take (complCap f - length (complCh f)) urls\<rparr>)"
proof (induction urls arbitrary: n f)
  case (Cons u us)
  show ?case
  proof (cases "length (complCh f) < complCap f")
    case True
    let ?f = "f\<lparr>complCh := complCh f @ [u]\<rparr>"
    obtain k where k: "complCap f - length (complCh f) = Suc k" using True by (metis Suc_diff_Suc)
    then have "complCap ?f - length (complCh ?f) = k" using True by simp
    then show ?thesis using Cons.IH [of ?f "n + 1"] Cons.prems True k by (simp add: add_running)
  next
    case False
    then show ?thesis using Cons.prems by (simp add: add_running)
  qed
qed simp

lemma running_not_closed: "service_ok f \<Longrightarrow> isRunning f \<Longrightarrow> \<not> complClosed f"
  by (cases "innerCtx f") (auto simp: service_ok_def isRunning_def ctx_done_def)

lemma service_ok_step: "service_step f f' \<Longrightarrow> service_ok f \<Longrightarrow> service_ok f'"
proof (induction rule: service_step.induct)
  case (request_start f ok)
  show ?case
  proof (cases "isRunning f")
    case True
    then show ?thesis using request_start by (simp add: StartCrawling_def start_check_def)
  next
    case False
    have "ctx_canceled (crawls f ! i) \<or> outer_done f" if "i < length (crawls f)" for i
      using request_start that False by (cases "innerCtx f") (auto simp: service_ok_def isRunning_def ctx_done_def)
    then show ?thesis using request_start False
      by (auto simp: StartCrawling_def start_check_def start_body_def service_ok_def Let_def nth_append)
  qed
next
  case (request_add send f urls r f')
  show ?case
  proof (cases "isRunning f")
    case True
    have "length (complCh f) \<le> complCap f" using request_add by (simp add: service_ok_def)
    then have "f' = f\<lparr>complCh := complCh f @ take (complCap f - length (complCh f)) urls\<rparr>"
      using request_add True add_urls_running [OF True running_not_closed [OF request_add.prems True]] by (simp add: AddUrlsToProcess_def add_check_def)
    then show ?thesis using request_add.prems by (cases "innerCtx f"; cases "controller f"; auto simp: service_ok_def)
  next
    case False
    then show ?thesis using request_add by (simp add: AddUrlsToProcess_def add_check_def)
  qed
next
  case (request_stop f r f')
  show ?case
  proof (cases "isRunning f")
    case True
    then obtain i where i: "innerCtx f = Some i" by (auto simp: isRunning_def split: option.splits)
    then have "controller f = Some i" "i < length (crawls f)" using service_ok_inner [OF request_stop.prems] by simp_all
    then have "f' = (cancel_crawl f i)\<lparr>scraper := False, innerCtx := None\<rparr>"
      using request_stop True by (simp add: StopCrawling_def stop_check_def stop_body_def)
    then show ?thesis using request_stop.prems i \<open>i < length (crawls f)\<close>
      by (auto simp: service_ok_def cancel_crawl_def nth_list_update)
  next
    case False
    then show ?thesis using request_stop by (simp add: StopCrawling_def stop_check_def)
  qed
next
  case (outer_cancel f)
  then show ?case by (cases "innerCtx f"; cases "controller f"; auto simp: service_ok_def nth_list_update)
next
  case (close_compl f)
  then show ?case by (cases "innerCtx f"; cases "controller f"; auto simp: service_ok_def nth_list_update)
next
  case (crawl_finishing i f)
  then show ?case by (cases "innerCtx f"; cases "controller f"; auto simp: service_ok_def nth_list_update)
next
  case (crawl_finished i f)
  then show ?case by (cases "innerCtx f"; cases "controller f"; auto simp: service_ok_def nth_list_update)
next
  case (take_url i f u us)
  then show ?case by (cases "innerCtx f"; cases "controller f"; auto simp: service_ok_def nth_list_update)
qed

lemma Init_ok: "Init cfg m = Inr f \<Longrightarrow> service_ok f"
  by (auto simp: Init_def service_ok_def split: if_splits)

lemma service_ok_reachable: "service_reachable f0 f \<Longrightarrow> service_ok f0 \<Longrightarrow> service_ok f"
  by (induction rule: service_reachable.induct) (auto intro: service_ok_step)

lemma live_crawl: "service_ok f \<Longrightarrow> i < length (crawls f) \<Longrightarrow> \<not> ctx_done f i \<Longrightarrow> innerCtx f = Some i \<and> isRunning f"
  by (auto simp: service_ok_def ctx_done_def isRunning_def)

lemma stop_ends:
  assumes "service_ok f" "isRunning f"
  shows "\<exists>f'. StopCrawling f = Inr (None, f') \<and> \<not> isRunning f' \<and> (\<forall>i < length (crawls f'). ctx_done f' i)"
proof -
  obtain i where i: "innerCtx f = Some i" using assms(2) by (auto simp: isRunning_def split: option.splits)
  then have c: "controller f = Some i" "i < length (crawls f)" using service_ok_inner [OF assms(1)] by simp_all
  let ?f = "(cancel_crawl f i)\<lparr>scraper := False, innerCtx := None\<rparr>"
  have "ctx_done ?f j" if "j < length (crawls ?f)" for j
    using that assms(1) i by (auto simp: ctx_done_def cancel_crawl_def nth_list_update service_ok_def split: if_splits)
  then show ?thesis using assms(2) c(1) by (auto simp: StopCrawling_def stop_check_def stop_body_def isRunning_def)
qed

section \<open>Properties\<close>

text \<open>
  C17: Served one request after the other, the service runs at most one crawl, whatever happens besides: the context of
  every crawl but the one that the factory knows is canceled; starting succeeds only if no context is live;
  stopping a running crawl succeeds and leaves no live context; adding URLs while running puts them into the
  queue in order, as many as have room, and reports whether all had, and the handler answers 202 exactly if all of
  one to fifty URLs had room; no request panics.
\<close>

theorem one_crawl_at_a_time:
  assumes start: "Init cfg m = Inr f0" "service_reachable f0 f"
  shows "(\<forall>i j. i < length (crawls f) \<and> j < length (crawls f) \<and> \<not> ctx_done f i \<and> \<not> ctx_done f j \<longrightarrow> i = j) \<and>
    (fst (StartCrawling True f) = None \<longleftrightarrow> (\<forall>i < length (crawls f). ctx_done f i)) \<and>
    (isRunning f \<longrightarrow> (\<exists>f'. StopCrawling f = Inr (None, f') \<and> (\<forall>i < length (crawls f'). ctx_done f' i))) \<and>
    add_handler send f (Some (Some urls)) =
      (if length urls \<notin> {1..50} then Inr (400, f)
       else if \<not> isRunning f then Inr (417, f)
       else Inr (if length (complCh f) + length urls \<le> complCap f then 202 else 417,
         f\<lparr>complCh := complCh f @ take (complCap f - length (complCh f)) urls\<rparr>))"
proof -
  have ok: "service_ok f" by (rule service_ok_reachable [OF start(2) Init_ok [OF start(1)]])
  have one: "i = j" if "i < length (crawls f)" "j < length (crawls f)" "\<not> ctx_done f i" "\<not> ctx_done f j" for i j
    using live_crawl [OF ok that(1,3)] live_crawl [OF ok that(2,4)] by simp
  have "isRunning f \<longleftrightarrow> (\<exists>i < length (crawls f). \<not> ctx_done f i)"
  proof
    assume r: "isRunning f"
    then obtain i where i: "innerCtx f = Some i" "\<not> ctx_done f i" by (auto simp: isRunning_def split: option.splits)
    then show "\<exists>i < length (crawls f). \<not> ctx_done f i" using service_ok_inner(2) [OF ok i(1)] by blast
  qed (use live_crawl [OF ok] in blast)
  then have started: "fst (StartCrawling True f) = None \<longleftrightarrow> (\<forall>i < length (crawls f). ctx_done f i)"
    by (auto simp: StartCrawling_def start_check_def start_body_def Let_def)
  have stop: "\<exists>f'. StopCrawling f = Inr (None, f') \<and> (\<forall>i < length (crawls f'). ctx_done f' i)" if "isRunning f"
    using stop_ends [OF ok that] by blast
  have room: "length (complCh f) \<le> complCap f" using ok by (simp add: service_ok_def)
  have add: "AddUrlsToProcess send f urls = Inr (if length (complCh f) + length urls \<le> complCap f then None else Some queueIsFull,
      f\<lparr>complCh := complCh f @ take (complCap f - length (complCh f)) urls\<rparr>)" if "isRunning f"
    using add_urls_running [OF that running_not_closed [OF ok that] room] that by (simp add: AddUrlsToProcess_def add_check_def)
  have stopped: "AddUrlsToProcess send f urls = Inr (Some isNotExist, f)" if "\<not> isRunning f"
    using that by (simp add: AddUrlsToProcess_def add_check_def)
  have "add_handler send f (Some (Some urls)) =
      (if length urls \<notin> {1..50} then Inr (400, f)
       else if \<not> isRunning f then Inr (417, f)
       else Inr (if length (complCh f) + length urls \<le> complCap f then 202 else 417,
         f\<lparr>complCh := complCh f @ take (complCap f - length (complCh f)) urls\<rparr>))"
    using add stopped by (auto simp: add_handler_def payload_ranges queueIsFull_def)
  then show ?thesis using one started stop by blast
qed

text \<open>A service with room for two URLs, one crawl running.\<close>

definition demo_config :: ConfigData where
  "demo_config = \<lparr>BaseURLs = Some [], CachePath = [], FilterUrl = [], IndexPath = [], WorkersCount = 1, MaxTypo = 1, OnlySameDomain = False\<rparr>"

definition demo_service :: Factory where
  "demo_service = \<lparr>crawls = [\<lparr>ctx_canceled = False, phase = Crawling\<rparr>], innerCtx = Some 0, controller = Some 0, scraper = True,
     complCh = [], complCap = 2, complClosed = False, outer_done = False\<rparr>"

lemma demo_service_reachable: "\<exists>f0. Init demo_config 2 = Inr f0 \<and> service_reachable f0 demo_service"
proof -
  let ?f0 = "\<lparr>crawls = [], innerCtx = None, controller = None, scraper = False, complCh = [], complCap = 2, complClosed = False, outer_done = False\<rparr>"
  have "service_reachable ?f0 (snd (StartCrawling True ?f0))" by (rule service_next [OF service_start request_start])
  moreover have "snd (StartCrawling True ?f0) = demo_service"
    by (simp add: StartCrawling_def start_check_def start_body_def isRunning_def demo_service_def Let_def)
  ultimately show ?thesis by (simp add: Init_def demo_config_def)
qed

theorem one_crawl_at_a_time_witness:
  "add_handler (\<lambda>_. True) demo_service (Some (Some [''a'', ''b'', ''c''])) = Inr (417, demo_service\<lparr>complCh := [''a'', ''b'']\<rparr>) \<and>
   fst (StartCrawling True demo_service) = Some isExist"
proof -
  obtain f0 where "Init demo_config 2 = Inr f0" "service_reachable f0 demo_service" using demo_service_reachable by blast
  from one_crawl_at_a_time [OF this, of "\<lambda>_. True" "[''a'', ''b'', ''c'']"] show ?thesis
    by (auto simp: demo_service_def isRunning_def ctx_done_def StartCrawling_def start_check_def)
qed

text \<open>
  What goes wrong around it: a start whose scraper cannot be made (its filter list is downloaded on start, for one)
  still counts as running: every later start is refused and URLs are accepted that nobody will read, until someone
  stops the crawl that does not exist; and after a stop the next crawl can start while the old one is
  still writing its last results, on the same queue file and database.
\<close>

theorem failed_start_runs:
  assumes "\<not> isRunning f" "\<not> outer_done f"
  shows "\<exists>f'. StartCrawling False f = (Some ''no scraper'', f') \<and> isRunning f' \<and> \<not> scraper f' \<and> fst (StartCrawling True f') = Some isExist \<and>
    (\<not> complClosed f \<and> length (complCh f) < complCap f \<longrightarrow> AddUrlsToProcess (\<lambda>_. True) f' [u] = Inr (None, f'\<lparr>complCh := complCh f @ [u]\<rparr>))"
  using assms
  by (auto simp: StartCrawling_def start_check_def start_body_def Let_def isRunning_def ctx_done_def AddUrlsToProcess_def add_check_def add_url_def
    nth_append)

theorem failed_start_runs_witness:
  "\<exists>f f'. StartCrawling False f = (Some ''no scraper'', f') \<and> isRunning f' \<and> fst (StartCrawling True f') = Some isExist"
proof -
  let ?f = "\<lparr>crawls = [], innerCtx = None, controller = None, scraper = False, complCh = [], complCap = 2, complClosed = False, outer_done = False\<rparr>"
  have "\<not> isRunning ?f" "\<not> outer_done ?f" by (simp_all add: isRunning_def)
  from failed_start_runs [OF this, of "[]"] show ?thesis by blast
qed

lemma restart_overlaps:
  "\<exists>f. service_reachable demo_service f \<and> phase (crawls f ! 0) = Finishing \<and> phase (crawls f ! 1) = Crawling \<and> isRunning f"
proof -
  let ?f1 = "(cancel_crawl demo_service 0)\<lparr>scraper := False, innerCtx := None\<rparr>"
  let ?f2 = "?f1\<lparr>crawls := (crawls ?f1)[0 := (crawls ?f1 ! 0)\<lparr>phase := Finishing\<rparr>]\<rparr>"
  have "StopCrawling demo_service = Inr (None, ?f1)"
    by (simp add: StopCrawling_def stop_check_def stop_body_def demo_service_def isRunning_def ctx_done_def)
  from service_next [OF service_start request_stop [OF this]] have r1: "service_reachable demo_service ?f1" .
  have "service_step ?f1 ?f2" by (rule crawl_finishing) (simp_all add: cancel_crawl_def demo_service_def ctx_done_def)
  from service_next [OF r1 this] have r2: "service_reachable demo_service ?f2" .
  from service_next [OF r2 request_start [of ?f2 True]] show ?thesis
    by (intro exI [of _ "snd (StartCrawling True ?f2)"])
      (auto simp: StartCrawling_def start_check_def start_body_def isRunning_def ctx_done_def Let_def cancel_crawl_def demo_service_def)
qed

section \<open>Requests at the same time\<close>


end
