(* ===== verification/Spec2Isabelle.thy ===== *)
theory Spec2Isabelle
  imports PoolProgress Online Feed Shutdown Service
begin

text \<open>
  wfts is a search engine in Go: an HTTP service starts and stops a crawler that follows links from a few start
  URLs, indexes the pages it downloads, and answers queries over the index. This development models the program
  under \<open>src/internal\<close> and \<open>src/configs\<close>, one theory for each component, and proves what makes the components
  and their composition correct; where the code does not do what it means to, a lemma shows the behaviour it has.

  \<^bold>\<open>The parts and how they interact.\<close> The service (\<open>app.go\<close>, \<open>api.go\<close>) sends URLs to a channel; \<open>PrepareChan\<close> and
  \<open>dispatch\<close> (\<open>scraper.go\<close>) hand them to the worker pool (\<open>workerPool.go\<close>), whose queue is a min-max heap
  (\<open>mmheap.go\<close>) with a file for what does not fit (\<open>fileQueue.go\<close>). A worker runs \<open>ScrapeWithContext\<close>, which reads
  the rules and the sitemap of the host, waits for the rate limiter, downloads and parses the page, gives its passages
  to the indexer, and submits its links to the pool. The indexer (\<open>wordHandling.go\<close>) tokenizes and stems the
  passages, refuses near-duplicates by their signatures, and writes the repository: one key-value database (pebble)
  with prefixes as tables, files of trigrams and files of signatures. A query goes through the same tokenizer,
  is corrected with trigrams, edit distance and frequencies of word pairs, and its documents are ranked by \<open>searcher.go\<close>.

  \<^bold>\<open>Theories and sources.\<close>

  \<^item> Shared: \<open>Prelude\<close> (words, panics, \<open>float64\<close> with NaN, list lemmas), \<open>GoStrings\<close>, \<open>GoSort\<close>, \<open>Binary\<close>
    (what is used of \<open>strings\<close>, \<open>sort\<close>, \<open>encoding/binary\<close>), \<open>Model\<close> (\<open>internal/model\<close>: the records).
  \<^item> Scheduler: \<open>MinMaxHeap\<close>, \<open>MinMaxOrder\<close>, \<open>MinMaxCorrect\<close>, \<open>HeapOps\<close> (\<open>mmheap.go\<close>: the slice and length of
    \<open>minMaxHeap\<close>, its sift loops, and their refinement of a double-ended priority queue); \<open>FileStack\<close> (\<open>fileQueue.go\<close>: the
    file is its bytes); \<open>WorkerPool\<close>, \<open>PoolTasks\<close>, \<open>PoolProgress\<close> (\<open>workerPool.go\<close>: \<open>Submit\<close> under the mutex is a
    function, the goroutines are a step relation on pool, workers, ticker and the caller of \<open>Wait\<close> and \<open>Stop\<close>); \<open>Links\<close>
    (\<open>Serialize\<close> and \<open>DeserializeToken\<close> of \<open>document.go\<close>, and the pool on links and the file).
  \<^item> Crawler: \<open>LruCache\<close> (\<open>lruCache.go\<close>: nodes in an explicit store), \<open>RateLimiter\<close> (\<open>rateLimiter.go\<close>), \<open>Bloom\<close>
    (\<open>bloom.go\<close>, \<open>roundTripper.go\<close>), \<open>Robots\<close> (\<open>robotsTXT.go\<close>), \<open>UrlHandling\<close> (\<open>urlHandling.go\<close>), \<open>HtmlHandling\<close>
    (\<open>parseHTMLStream\<close>), \<open>Scraper\<close> (\<open>scraper.go\<close>, \<open>htmlHandling.go\<close>, \<open>sitemapHandling.go\<close>: one crawl step on the
    visited pages, three caches, the index and the submitted links), \<open>Crawl\<close> (sequences of steps), \<open>Feed\<close>
    (\<open>PrepareChan\<close>, the start URLs and \<open>dispatch\<close> as steps on their channels).
  \<^item> Repository: \<open>PebbleStore\<close> (the database as a parameter with its laws, \<open>prefixUpperBound\<close>), \<open>WordIndex\<close> (entries of
    words), \<open>IndexStore\<close> (pair frequencies, visited pages, documents, page links, salts), \<open>NGramRepo\<close> (\<open>nGramRepo.go\<close>,
    \<open>alloc\<close>), \<open>ShingleRepo\<close> (\<open>shingleRepo.go\<close>), \<open>Repository\<close> (\<open>NewIndexRepository\<close> and its orderly end), \<open>Shutdown\<close>
    (its end while a crawl runs).
  \<^item> Indexer: \<open>Tokenizer\<close>, \<open>Stemmer\<close> (\<open>textHandling\<close>), \<open>MinHash\<close> (\<open>minHash.go\<close>), \<open>EditDistance\<close> and \<open>SpellChecker\<close>
    (\<open>spellChecker.go\<close>), \<open>WordHandling\<close> (both handlers of \<open>wordHandling.go\<close>), \<open>PageIndex\<close> and \<open>Query\<close> (what they do).
  \<^item> Searcher: \<open>Proximity\<close>, \<open>UrlMatch\<close> (\<open>preprocessingFeatures.go\<close>), \<open>Searcher\<close> (\<open>searcher.go\<close>).
  \<^item> Composition: \<open>Pipeline\<close> (the crawl step on the real indexer), \<open>Lifecycle\<close> (\<open>NewIndexer\<close>, \<open>NewScraper\<close>, \<open>Run\<close>, restarts),
    \<open>CrawlSafety\<close> (runs with the LRU caches), \<open>Online\<close> (\<open>Search\<close> on the real indexer).
  \<^item> Service: \<open>Config\<close> (\<open>config.go\<close>, \<open>validator.go\<close>), \<open>Service\<close> (\<open>app.go\<close>, \<open>api.go\<close>).

  \<^bold>\<open>How the state corresponds.\<close> A struct is a record with the fields the code reads, a mutable object a value that is passed
  on, except where aliasing matters: the nodes of the cache live in a store, and the heap takes the priority as a
  function, so that it may be read from a shared object. A call that can panic has the type \<open>go_panic + 'a\<close>, an error
  is a datatype of the component, and all early returns are branches. Fixed-width integers are words where they wrap
  (ids, record formats, hashes, lengths of frames, the counter of headings); an \<open>int\<close> that only counts is an integer. A
  \<open>float64\<close> that is compared is \<open>f64\<close>, with NaN and the infinities; scores are real numbers without rounding. A map
  that is iterated is a list of entries in the order of that iteration, over which the theorems quantify. Concurrent
  parts (pool, rate limiter, feed, shutdown, requests of the service) are step relations with one rule for each atomic
  action, and their theorems hold in all reachable states.

  \<^bold>\<open>What the lemmas show.\<close>

  \<^item> From a link to the results (\<open>Online\<close>, \<open>Pipeline\<close>, \<open>PageIndex\<close>, \<open>Query\<close>): a page that a step marks as visited without an
    error is in the index under exactly its tokens and positions, and a search for them returns it. This rests on one
    lemma per table that its writes keep to their own keys (\<open>agree_off\<close>) and on the invariants \<open>index_ok\<close> (ids,
    trigram files, caches), \<open>docs_ok\<close> and \<open>posts_ok\<close>.
  \<^item> Runs and restarts (\<open>CrawlSafety\<close>, \<open>Lifecycle\<close>, \<open>Repository\<close>, \<open>Shutdown\<close>): a run returns without a panic; after an orderly
    end the next run has the same visited pages, hash functions, ids and answers; what a crash or an interrupt
    during a crawl breaks.
  \<^item> The pool (\<open>WorkerPool\<close>, \<open>PoolTasks\<close>, \<open>Links\<close>, \<open>PoolProgress\<close>, \<open>Feed\<close>): slots, heap and wait group agree, no link is lost
    while the file has room, the queue drains, panics need a closed channel, and how stopping can race and hang.
  \<^item> Components against a specification: the heap against a priority queue on multisets, the cache against a
    list, the file against a stack, edit distance against sequences of edits, the query distance against its
    minimum, trigram and signature lookup against sets, the Bloom filter against a set of bits, the validator against
    ranges, sorting against a contract of \<open>sort.Slice\<close>.

  Interfaces are locales: \<open>byte_stack\<close> (the pool's collection), \<open>depq\<close> (its heap), \<open>cacher\<close> and \<open>word_cacher\<close> (the
  allocator's cache), \<open>total_cache\<close> (the scraper's caches) and \<open>sort_slice\<close>; each is interpreted on the definitions of
  the component that provides it, or, for sorting, opened with the contract that the standard library documents.

  \<^bold>\<open>Bounds and termination.\<close> Loops are structural recursion or have a measure. Two are \<open>partial_function\<close>s, where
  \<open>None\<close> would be a loop without end: the search in a URL, and through it \<open>Search\<close>; they are proved to return. Retries of a
  download are bounded by \<open>numOfTries\<close>, as in the code. No other fuel is used. The hypotheses on sizes are those at which the code
  itself fails: fewer than \<open>2 ^ 32\<close> words (\<open>2 ^ 24\<close> for the trigram records), frames of less than 65534 bytes,
  ids of 32 bytes, depths below \<open>2 ^ 32\<close>.

  \<^bold>\<open>Parameters.\<close> Pebble, \<open>net/url\<close>, \<open>net/http\<close>, \<open>encoding/json\<close>, \<open>encoding/gob\<close>, \<open>encoding/xml\<close>, the HTML tokenizer and the
  charset decoders of \<open>golang.org/x/net\<close>, \<open>regexp\<close>, the tables of \<open>unicode\<close>, SHA-256, \<open>math/rand\<close> and the regression model
  are arguments of the definitions that use them, with laws (\<open>pebble_laws\<close>, \<open>unicode_laws\<close>, \<open>regex_law\<close>, \<open>sort_law\<close>,
  \<open>library_laws\<close>, a JSON decoder that inverts the encoder) only where a theorem needs them; every law has an instance in a witness. A
  context is the sequence of its answers.

  \<^bold>\<open>Not modelled.\<close> \<open>main.go\<close> and \<open>logger.go\<close>, which only connect and print; reading the configuration file; the options
  of pebble and of the HTTP transport; \<open>GetCurrentState\<close>, \<open>SearchMetrics\<close> and \<open>CrawlState\<close>, which carry times and
  memory figures; the routing and the shutdown of the HTTP server; the durations of time-outs. Errors of the file
  system and of the database other than a missing key or file are left out, except where the program starts. White space
  and letter case of \<open>strings\<close> functions are those of ASCII where they are not parameters. Two crawl steps at the same time are steps
  one after the other: the code holds no lock over a step, but shares only the visited map, the caches and the
  repository, each of which serialises its own operations.
\<close>

end
